(* ===== verification/ServerPrelude.thy ===== *)
theory ServerPrelude
  imports Main "HOL-Library.Word"
begin

text \<open>
  Shared vocabulary of the development: machine integers, the faults a C++ run can end in,
  the sequencing of fallible steps, the std::vector operations the sources use, and the
  generic list and word lemmas the component theories rest on.

  A fallible operation returns a value of the sum type \<open>fault + 'a\<close>: \<open>Inl e\<close> is a run that
  stops there (a failed assert, an uncaught exception, undefined behaviour), \<open>Inr x\<close> is a
  normal return.  The asserts are modelled as active: no makefile of the repository defines
  NDEBUG.
\<close>

type_synonym u64 = "64 word"
type_synonym u32 = "32 word"

datatype fault =
    AssertFailed      \<comment> \<open>a failed assert\<close>
  | LengthError       \<comment> \<open>std::length_error: a vector beyond its max_size\<close>
  | OutOfBounds       \<comment> \<open>an access outside an array: undefined behaviour\<close>
  | NullDeref         \<comment> \<open>a call through a null pointer: undefined behaviour\<close>
  | SignedOverflow    \<comment> \<open>int arithmetic out of range: undefined behaviour\<close>
  | UseAfterFree      \<comment> \<open>a call on a destroyed object: undefined behaviour\<close>
  | InvalidArgument   \<comment> \<open>std::invalid_argument\<close>
  | OutOfRange        \<comment> \<open>std::out_of_range\<close>
  | Aborted           \<comment> \<open>abort(), std::terminate, or exit after a fatal log message\<close>
  | BadFunctionCall   \<comment> \<open>std::bad_function_call: an unset std::function is called\<close>
  | SystemError       \<comment> \<open>std::system_error\<close>
  | OutOfFuel         \<comment> \<open>not a C++ fault: the fuel of a loop of the model ran out\<close>

definition and_then :: "'e + 'a \<Rightarrow> ('a \<Rightarrow> 'e + 'b) \<Rightarrow> 'e + 'b" where
  "and_then m f = (case m of Inl e \<Rightarrow> Inl e | Inr x \<Rightarrow> f x)"

lemma and_then_Inl [simp]: "and_then (Inl e) f = Inl e"
  by (simp add: and_then_def)

lemma and_then_Inr [simp]: "and_then (Inr x) f = f x"
  by (simp add: and_then_def)

lemma and_then_eq_Inr: "and_then m f = Inr y \<longleftrightarrow> (\<exists>x. m = Inr x \<and> f x = Inr y)"
  by (cases m) auto

lemma and_then_eq_Inl:
  "and_then m f = Inl e \<longleftrightarrow> m = Inl e \<or> (\<exists>x. m = Inr x \<and> f x = Inl e)"
  by (cases m) auto

lemma and_then_assoc: "and_then (and_then m f) g = and_then m (\<lambda>x. and_then (f x) g)"
  by (cases m) auto

lemma and_then_cong [fundef_cong]:
  "m = m' \<Longrightarrow> (\<And>x. m' = Inr x \<Longrightarrow> f x = g x) \<Longrightarrow> and_then m f = and_then m' g"
  by (cases m') auto

section \<open>Machine integers\<close>

text \<open>
  The largest number of chars a std::vector or std::string may hold on a 64-bit platform (its
  max_size): the largest value of the signed difference type.  Sizes up to it fit a uint64_t,
  which is what the facts below need to move a statement from 64-bit words to natural numbers.
\<close>

definition max_size :: nat where
  "max_size = 2 ^ 63 - 1"

lemma max_size_less: "max_size < 2 ^ 64"
  by (simp add: max_size_def)

lemma unat_of_nat_u64: "n \<le> max_size \<Longrightarrow> unat (of_nat n :: u64) = n"
  by (simp add: unat_of_nat max_size_def)

lemma unat_plus_u64: "unat x + unat y \<le> max_size \<Longrightarrow> unat (x + y :: u64) = unat x + unat y"
  by (simp add: unat_word_ariths max_size_def)

lemma unat_diff_u64: "unat y \<le> unat x \<Longrightarrow> unat (x - y :: u64) = unat x - unat y"
  by (simp add: unat_sub word_le_nat_alt)

lemma unat_plus_of_nat_u64:
  "unat x + n \<le> max_size \<Longrightarrow> unat (x + of_nat n :: u64) = unat x + n"
  by (simp add: unat_plus_u64 unat_of_nat_u64)

lemma of_nat_le_u64: "n \<le> max_size \<Longrightarrow> (of_nat n :: u64) \<le> x \<longleftrightarrow> n \<le> unat x"
  by (simp add: word_le_nat_alt unat_of_nat_u64)

lemma of_nat_eq_0_u64: "n \<le> max_size \<Longrightarrow> (of_nat n :: u64) = 0 \<longleftrightarrow> n = 0"
  by (metis unat_of_nat_u64 unat_eq_zero of_nat_0)

lemmas u64_nat = unat_of_nat_u64 unat_plus_u64 unat_diff_u64 unat_plus_of_nat_u64 of_nat_le_u64
  of_nat_eq_0_u64

section \<open>Vectors\<close>

text \<open>\<open>vector::resize(n)\<close>: cut, or fill up with value-initialised chars; beyond max_size it throws.\<close>

definition vector_resize :: "nat \<Rightarrow> char list \<Rightarrow> fault + char list" where
  "vector_resize n xs =
     (if n > max_size then Inl LengthError
      else Inr (take n xs @ replicate (n - length xs) (CHR 0x00)))"

text \<open>\<open>std::copy\<close> of the values \<open>ys\<close> to position \<open>pos\<close> of an array: outside it is undefined.\<close>

definition copy_to :: "nat \<Rightarrow> char list \<Rightarrow> char list \<Rightarrow> fault + char list" where
  "copy_to pos ys xs =
     (if pos + length ys \<le> length xs
      then Inr (take pos xs @ ys @ drop (pos + length ys) xs)
      else Inl OutOfBounds)"

text \<open>The values in \<open>[pos, pos + n)\<close>, read by \<open>std::copy\<close>: outside the array is undefined.\<close>

definition copy_from :: "nat \<Rightarrow> nat \<Rightarrow> char list \<Rightarrow> fault + char list" where
  "copy_from pos n xs =
     (if pos + n \<le> length xs then Inr (take n (drop pos xs)) else Inl OutOfBounds)"

lemma vector_resize_grow:
  "length xs \<le> n \<Longrightarrow> n \<le> max_size \<Longrightarrow>
   vector_resize n xs = Inr (xs @ replicate (n - length xs) (CHR 0x00))"
  by (simp add: vector_resize_def)

lemma copy_to_ok:
  "pos + length ys \<le> length xs \<Longrightarrow>
   copy_to pos ys xs = Inr (take pos xs @ ys @ drop (pos + length ys) xs)"
  by (simp add: copy_to_def)

lemma copy_from_ok:
  "pos + n \<le> length xs \<Longrightarrow> copy_from pos n xs = Inr (take n (drop pos xs))"
  by (simp add: copy_from_def)

section \<open>Lists\<close>

lemma take_drop_append:
  "n \<le> length xs \<Longrightarrow> take (length xs - n + length ys) (drop n (xs @ ys @ zs)) = drop n xs @ ys"
  by simp

lemma takeWhile_all: "x \<notin> set xs \<Longrightarrow> takeWhile (\<lambda>c. c \<noteq> x) xs = xs"
  by (induction xs) auto

lemma length_takeWhile_less: "x \<in> set xs \<Longrightarrow> length (takeWhile (\<lambda>c. c \<noteq> x) xs) < length xs"
  by (induction xs) auto

lemma takeWhile_neq_append:
  "x \<in> set xs \<Longrightarrow> takeWhile (\<lambda>c. c \<noteq> x) (xs @ ys) = takeWhile (\<lambda>c. c \<noteq> x) xs"
  by (induction xs) auto

lemma take_Suc_takeWhile:
  "x \<in> set xs \<Longrightarrow>
   take (Suc (length (takeWhile (\<lambda>c. c \<noteq> x) xs))) xs = takeWhile (\<lambda>c. c \<noteq> x) xs @ [x]"
  by (induction xs) auto

section \<open>Runs of operations and their specification\<close>

text \<open>
  A component's operations as one step function that returns the new state and an output, a
  list of operations run in order, and a specification of a step as a relation on abstract
  states.  The locale carries a step-wise simulation over to runs.
\<close>

fun run_steps :: "('op \<Rightarrow> 's \<Rightarrow> fault + ('s \<times> 'o)) \<Rightarrow> 'op list \<Rightarrow> 's \<Rightarrow> fault + ('s \<times> 'o list)" where
  "run_steps step [] s = Inr (s, [])"
| "run_steps step (op # ops) s =
     and_then (step op s) (\<lambda>(s, out).
     and_then (run_steps step ops s) (\<lambda>(s, outs). Inr (s, out # outs)))"

fun spec_run :: "('op \<Rightarrow> 'a \<Rightarrow> 'o \<Rightarrow> 'a \<Rightarrow> bool) \<Rightarrow> 'op list \<Rightarrow> 'a \<Rightarrow> 'o list \<Rightarrow> 'a \<Rightarrow> bool" where
  "spec_run spec [] a [] a' \<longleftrightarrow> a' = a"
| "spec_run spec (op # ops) a (out # outs) a' \<longleftrightarrow> (\<exists>b. spec op a out b \<and> spec_run spec ops b outs a')"
| "spec_run spec _ _ _ _ \<longleftrightarrow> False"

lemma spec_run_Cons:
  "spec_run spec (op # ops) a os a' \<longleftrightarrow>
     (\<exists>out outs b. os = out # outs \<and> spec op a out b \<and> spec_run spec ops b outs a')"
  by (cases os) auto

lemma spec_run_Nil: "spec_run spec [] a os a' \<longleftrightarrow> os = [] \<and> a' = a"
  by (cases os) auto

fun all_ok ::
  "('op \<Rightarrow> 'a \<Rightarrow> 'o \<Rightarrow> 'a \<Rightarrow> bool) \<Rightarrow> ('op \<Rightarrow> 'a \<Rightarrow> bool) \<Rightarrow> 'op list \<Rightarrow> 'a \<Rightarrow> bool" where
  "all_ok spec ok [] a \<longleftrightarrow> True"
| "all_ok spec ok (op # ops) a \<longleftrightarrow>
     ok op a \<and> (\<forall>out b. spec op a out b \<longrightarrow> all_ok spec ok ops b)"

locale op_simulation =
  fixes step :: "'op \<Rightarrow> 's \<Rightarrow> fault + ('s \<times> 'o)"
    and spec :: "'op \<Rightarrow> 'a \<Rightarrow> 'o \<Rightarrow> 'a \<Rightarrow> bool"
    and ok :: "'op \<Rightarrow> 'a \<Rightarrow> bool"
    and good :: "'s \<Rightarrow> bool"
    and abs :: "'s \<Rightarrow> 'a"
  assumes simulates: "good s \<Longrightarrow> ok op (abs s) \<Longrightarrow>
    \<exists>s' out. step op s = Inr (s', out) \<and> good s' \<and> spec op (abs s) out (abs s')"
begin

lemma run_simulates:
  "good s \<Longrightarrow> all_ok spec ok ops (abs s) \<Longrightarrow>
   \<exists>s' outs. run_steps step ops s = Inr (s', outs) \<and> good s' \<and> spec_run spec ops (abs s) outs (abs s')"
proof (induction ops arbitrary: s)
  case (Cons op ops)
  then obtain s1 out where s1: "step op s = Inr (s1, out)" "good s1" "spec op (abs s) out (abs s1)"
    using simulates[of s op] by auto
  with Cons.prems have "all_ok spec ok ops (abs s1)" by simp
  then obtain s2 outs where "run_steps step ops s1 = Inr (s2, outs)" "good s2"
    "spec_run spec ops (abs s1) outs (abs s2)"
    using Cons.IH[of s1] s1 by blast
  then show ?case
    using s1 by (auto intro!: exI[of _ "abs s1"])
qed simp

lemma run_good:
  "good s \<Longrightarrow> all_ok spec ok ops (abs s) \<Longrightarrow> run_steps step ops s = Inr (s', outs) \<Longrightarrow> good s'"
  using run_simulates by fastforce

end

section \<open>Step relations and their invariants\<close>

text \<open>
  For a component whose steps interleave with those of other threads: a predicate every step keeps
  holds along every run.
\<close>

locale kept_by =
  fixes step :: "'s \<Rightarrow> 's \<Rightarrow> bool"
    and inv :: "'s \<Rightarrow> bool"
  assumes step_keeps: "step s t \<Longrightarrow> inv s \<Longrightarrow> inv t"
begin

lemma run_keeps: "rtranclp step s t \<Longrightarrow> inv s \<Longrightarrow> inv t"
  by (induction rule: rtranclp_induct) (auto intro: step_keeps)

end

end
