(* ===== verification/ByteBuffer.thy ===== *)
theory ByteBuffer
  imports ServerPrelude
begin

text \<open>
  The class Buffer of source/server.hpp: a growable char array with a read offset and a
  write offset, both of type uint64_t, so every index computation wraps at \<open>2 ^ 64\<close>.
\<close>

section \<open>State and operations\<close>

record buffer =
  buf_data :: "char list"
  reader_idx :: u64
  writer_idx :: u64

definition Buffer_new :: buffer where
  "Buffer_new = \<lparr>buf_data = replicate 1024 (CHR 0x00), reader_idx = 0, writer_idx = 0\<rparr>"

definition buf_size :: "buffer \<Rightarrow> u64" where
  "buf_size b = of_nat (length (buf_data b))"

definition TailIdleSize :: "buffer \<Rightarrow> u64" where
  "TailIdleSize b = buf_size b - writer_idx b"

definition HeadIdleSize :: "buffer \<Rightarrow> u64" where
  "HeadIdleSize b = reader_idx b"

definition ReadAbleSize :: "buffer \<Rightarrow> u64" where
  "ReadAbleSize b = writer_idx b - reader_idx b"

definition MoveReadOffset :: "u64 \<Rightarrow> buffer \<Rightarrow> fault + buffer" where
  "MoveReadOffset len b =
     (if len = 0 then Inr b
      else if \<not> len \<le> ReadAbleSize b then Inl AssertFailed
      else Inr (b\<lparr>reader_idx := reader_idx b + len\<rparr>))"

definition MoveWriteOffset :: "u64 \<Rightarrow> buffer \<Rightarrow> fault + buffer" where
  "MoveWriteOffset len b =
     (if \<not> len \<le> TailIdleSize b then Inl AssertFailed
      else Inr (b\<lparr>writer_idx := writer_idx b + len\<rparr>))"

definition EnsureWriteSpace :: "u64 \<Rightarrow> buffer \<Rightarrow> fault + buffer" where
  "EnsureWriteSpace len b =
     (if TailIdleSize b \<ge> len then Inr b
      else if len \<le> TailIdleSize b + HeadIdleSize b then
        (let rsz = ReadAbleSize b in
         and_then (copy_from (unat (reader_idx b)) (unat rsz) (buf_data b)) (\<lambda>d.
         and_then (copy_to 0 d (buf_data b)) (\<lambda>xs.
         Inr (b\<lparr>buf_data := xs, reader_idx := 0, writer_idx := rsz\<rparr>))))
      else
        and_then (vector_resize (unat (writer_idx b + len)) (buf_data b)) (\<lambda>xs.
        Inr (b\<lparr>buf_data := xs\<rparr>)))"

definition Write :: "char list \<Rightarrow> buffer \<Rightarrow> fault + buffer" where
  "Write data b =
     (let len = of_nat (length data) in
      if len = 0 then Inr b
      else and_then (EnsureWriteSpace len b) (\<lambda>b.
           and_then (copy_to (unat (writer_idx b)) data (buf_data b)) (\<lambda>xs.
           Inr (b\<lparr>buf_data := xs\<rparr>))))"

definition WriteAndPush :: "char list \<Rightarrow> buffer \<Rightarrow> fault + buffer" where
  "WriteAndPush data b =
     and_then (Write data b) (MoveWriteOffset (of_nat (length data)))"

definition WriteString :: "char list \<Rightarrow> buffer \<Rightarrow> fault + buffer" where
  "WriteString data b = Write data b"

definition WriteStringAndPush :: "char list \<Rightarrow> buffer \<Rightarrow> fault + buffer" where
  "WriteStringAndPush data b =
     and_then (WriteString data b) (MoveWriteOffset (of_nat (length data)))"

text \<open>The bytes from \<open>ReadPosition()\<close> on, \<open>len\<close> of them, as the raw pointer reads them.\<close>

definition peek_bytes :: "u64 \<Rightarrow> buffer \<Rightarrow> fault + char list" where
  "peek_bytes len b = copy_from (unat (reader_idx b)) (unat len) (buf_data b)"

definition WriteBuffer :: "buffer \<Rightarrow> buffer \<Rightarrow> fault + buffer" where
  "WriteBuffer src b =
     and_then (peek_bytes (ReadAbleSize src) src) (\<lambda>d. Write d b)"

definition WriteBufferAndPush :: "buffer \<Rightarrow> buffer \<Rightarrow> fault + buffer" where
  "WriteBufferAndPush src b =
     and_then (WriteBuffer src b) (MoveWriteOffset (ReadAbleSize src))"

definition Read :: "u64 \<Rightarrow> buffer \<Rightarrow> fault + char list" where
  "Read len b = (if \<not> len \<le> ReadAbleSize b then Inl AssertFailed else peek_bytes len b)"

definition ReadAndPop :: "u64 \<Rightarrow> buffer \<Rightarrow> fault + (char list \<times> buffer)" where
  "ReadAndPop len b =
     and_then (Read len b) (\<lambda>d. and_then (MoveReadOffset len b) (\<lambda>b. Inr (d, b)))"

definition ReadAsString :: "u64 \<Rightarrow> buffer \<Rightarrow> fault + char list" where
  "ReadAsString len b =
     (if \<not> len \<le> ReadAbleSize b then Inl AssertFailed else Read len b)"

definition ReadAsStringAndPop :: "u64 \<Rightarrow> buffer \<Rightarrow> fault + (char list \<times> buffer)" where
  "ReadAsStringAndPop len b =
     (if \<not> len \<le> ReadAbleSize b then Inl AssertFailed
      else and_then (ReadAsString len b) (\<lambda>d. and_then (MoveReadOffset len b) (\<lambda>b. Inr (d, b))))"

text \<open>\<open>memchr\<close> over the readable bytes, as an offset from \<open>ReadPosition()\<close>; None is NULL.\<close>

fun memchr :: "char list \<Rightarrow> char \<Rightarrow> nat option" where
  "memchr [] c = None"
| "memchr (x # xs) c = (if x = c then Some 0 else map_option Suc (memchr xs c))"

definition FindCRLF :: "buffer \<Rightarrow> fault + nat option" where
  "FindCRLF b = and_then (peek_bytes (ReadAbleSize b) b) (\<lambda>d. Inr (memchr d (CHR 0x0A)))"

definition GetLine :: "buffer \<Rightarrow> fault + char list" where
  "GetLine b =
     and_then (FindCRLF b) (\<lambda>pos.
       case pos of None \<Rightarrow> Inr [] | Some p \<Rightarrow> ReadAsString (of_nat p + 1) b)"

definition GetLineAndPop :: "buffer \<Rightarrow> fault + (char list \<times> buffer)" where
  "GetLineAndPop b =
     and_then (GetLine b) (\<lambda>str.
     and_then (MoveReadOffset (of_nat (length str)) b) (\<lambda>b. Inr (str, b)))"

definition Buffer_Clear :: "buffer \<Rightarrow> buffer" where
  "Buffer_Clear b = b\<lparr>reader_idx := 0, writer_idx := 0\<rparr>"


section \<open>Invariant and abstraction\<close>

text \<open>
  The offsets are ordered and inside the array, and the array is one a vector can have.
  \<open>content\<close> is the queue of bytes the buffer stands for.
\<close>

definition buf_wf :: "buffer \<Rightarrow> bool" where
  "buf_wf b \<longleftrightarrow> unat (reader_idx b) \<le> unat (writer_idx b)
     \<and> unat (writer_idx b) \<le> length (buf_data b) \<and> length (buf_data b) \<le> max_size"

definition content :: "buffer \<Rightarrow> char list" where
  "content b = drop (unat (reader_idx b)) (take (unat (writer_idx b)) (buf_data b))"

lemma buf_wfD:
  assumes "buf_wf b"
  shows "unat (reader_idx b) \<le> unat (writer_idx b)"
    and "unat (writer_idx b) \<le> length (buf_data b)"
    and "length (buf_data b) \<le> max_size"
    and "unat (writer_idx b) \<le> max_size"
  using assms by (auto simp: buf_wf_def)

lemma buf_wf_new [simp]: "buf_wf Buffer_new"
  by (simp add: buf_wf_def Buffer_new_def max_size_def)

lemma content_new [simp]: "content Buffer_new = []"
  by (simp add: content_def Buffer_new_def)

lemma length_content: "buf_wf b \<Longrightarrow> length (content b) = unat (writer_idx b) - unat (reader_idx b)"
  by (auto simp: content_def buf_wf_def)

lemma unat_buf_size: "buf_wf b \<Longrightarrow> unat (buf_size b) = length (buf_data b)"
  by (simp add: buf_size_def unat_of_nat_u64 buf_wfD)

lemma unat_TailIdleSize:
  "buf_wf b \<Longrightarrow> unat (TailIdleSize b) = length (buf_data b) - unat (writer_idx b)"
  by (simp add: TailIdleSize_def unat_diff_u64 unat_buf_size buf_wfD)

lemma unat_ReadAbleSize: "buf_wf b \<Longrightarrow> unat (ReadAbleSize b) = length (content b)"
  by (simp add: ReadAbleSize_def unat_diff_u64 buf_wfD length_content)

lemma length_content_le: "buf_wf b \<Longrightarrow> length (content b) \<le> max_size"
  using buf_wfD[of b] length_content[of b] by linarith

lemma peek_bytes_content:
  assumes "buf_wf b" "unat len \<le> length (content b)"
  shows "peek_bytes len b = Inr (take (unat len) (content b))"
  using assms buf_wfD[of b] length_content[of b]
  by (auto simp: peek_bytes_def copy_from_ok content_def drop_take min_absorb1)

section \<open>Reading\<close>

lemma MoveReadOffset_ok:
  assumes wf: "buf_wf b" and len: "unat len \<le> length (content b)"
  shows "\<exists>b'. MoveReadOffset len b = Inr b' \<and> buf_wf b' \<and> content b' = drop (unat len) (content b)
            \<and> writer_idx b' = writer_idx b \<and> buf_data b' = buf_data b"
proof (cases "len = 0")
  case True
  then show ?thesis using wf by (simp add: MoveReadOffset_def)
next
  case False
  note le = buf_wfD[OF wf] length_content[OF wf] len
  have "len \<le> ReadAbleSize b"
    using len by (simp add: word_le_nat_alt unat_ReadAbleSize[OF wf])
  moreover have "unat (reader_idx b + len) = unat (reader_idx b) + unat len"
    using le by (intro unat_plus_u64) linarith
  ultimately show ?thesis
    using False le by (auto simp: MoveReadOffset_def buf_wf_def content_def drop_take add.commute)
qed

lemma MoveReadOffset_assert:
  assumes "buf_wf b" "length (content b) < unat len"
  shows "MoveReadOffset len b = Inl AssertFailed"
  using assms by (auto simp: MoveReadOffset_def word_le_nat_alt unat_ReadAbleSize)

lemma Read_ok:
  assumes "buf_wf b" "unat len \<le> length (content b)"
  shows "Read len b = Inr (take (unat len) (content b))"
  using assms by (simp add: Read_def word_le_nat_alt unat_ReadAbleSize peek_bytes_content)

lemma ReadAsString_ok:
  assumes "buf_wf b" "unat len \<le> length (content b)"
  shows "ReadAsString len b = Inr (take (unat len) (content b))"
  using assms by (simp add: ReadAsString_def word_le_nat_alt unat_ReadAbleSize Read_ok)

lemma Read_assert:
  assumes "buf_wf b" "length (content b) < unat len"
  shows "Read len b = Inl AssertFailed" "ReadAsString len b = Inl AssertFailed"
    "ReadAsStringAndPop len b = Inl AssertFailed" "ReadAndPop len b = Inl AssertFailed"
  using assms
  by (auto simp: Read_def ReadAsString_def ReadAsStringAndPop_def ReadAndPop_def
      word_le_nat_alt unat_ReadAbleSize)

lemma ReadAsStringAndPop_ok:
  assumes "buf_wf b" "unat len \<le> length (content b)"
  shows "\<exists>b'. ReadAsStringAndPop len b = Inr (take (unat len) (content b), b') \<and> buf_wf b'
            \<and> content b' = drop (unat len) (content b) \<and> writer_idx b' = writer_idx b"
  using assms MoveReadOffset_ok[OF assms]
  by (auto simp: ReadAsStringAndPop_def word_le_nat_alt unat_ReadAbleSize ReadAsString_ok)

lemma ReadAndPop_ok:
  assumes "buf_wf b" "unat len \<le> length (content b)"
  shows "\<exists>b'. ReadAndPop len b = Inr (take (unat len) (content b), b') \<and> buf_wf b'
            \<and> content b' = drop (unat len) (content b) \<and> writer_idx b' = writer_idx b"
  using assms MoveReadOffset_ok[OF assms]
  by (auto simp: ReadAndPop_def Read_ok)


section \<open>Writing\<close>

text \<open>
  Room for \<open>n\<close> more bytes: the array would not have to grow beyond max_size.  Within it no
  index computation of a write wraps.
\<close>

definition has_room :: "buffer \<Rightarrow> nat \<Rightarrow> bool" where
  "has_room b n \<longleftrightarrow> unat (writer_idx b) + n \<le> max_size"

lemma EnsureWriteSpace_ok:
  assumes wf: "buf_wf b" and room: "has_room b (unat len)"
  shows "\<exists>b'. EnsureWriteSpace len b = Inr b' \<and> buf_wf b' \<and> content b' = content b
           \<and> unat (writer_idx b') + unat len \<le> length (buf_data b')
           \<and> unat (writer_idx b') \<le> unat (writer_idx b)
           \<and> length (buf_data b) \<le> length (buf_data b')"
proof -
  let ?r = "unat (reader_idx b)" and ?w = "unat (writer_idx b)" and ?n = "length (buf_data b)"
  note le = buf_wfD[OF wf]
  have tail: "unat (TailIdleSize b) = ?n - ?w" by (rule unat_TailIdleSize[OF wf])
  have both: "unat (TailIdleSize b + HeadIdleSize b) = ?n - ?w + ?r"
    using le tail by (simp add: HeadIdleSize_def unat_plus_u64)
  have rsz: "unat (ReadAbleSize b) = ?w - ?r"
    using unat_ReadAbleSize[OF wf] length_content[OF wf] by simp
  consider (fits) "len \<le> TailIdleSize b"
    | (shift) "\<not> len \<le> TailIdleSize b" "len \<le> TailIdleSize b + HeadIdleSize b"
    | (grow) "\<not> len \<le> TailIdleSize b" "\<not> len \<le> TailIdleSize b + HeadIdleSize b"
    by blast
  then show ?thesis
  proof cases
    case fits
    then show ?thesis
      using wf le tail by (auto simp: EnsureWriteSpace_def word_le_nat_alt)
  next
    case shift
    then show ?thesis
      using le both tail
      by (auto simp: EnsureWriteSpace_def word_le_nat_alt rsz copy_from_ok copy_to_ok
          buf_wf_def content_def drop_take)
  next
    case grow
    moreover have "unat (writer_idx b + len) = ?w + unat len"
      using room by (simp add: has_room_def unat_plus_u64)
    ultimately show ?thesis
      using le tail room
      by (auto simp: EnsureWriteSpace_def word_le_nat_alt vector_resize_grow has_room_def
          buf_wf_def content_def)
  qed
qed

lemma Write_ok:
  assumes wf: "buf_wf b" and room: "has_room b (length d)"
  shows "\<exists>b'. Write d b = Inr b' \<and> buf_wf b' \<and> content b' = content b
           \<and> unat (writer_idx b') + length d \<le> length (buf_data b')
           \<and> take (length d) (drop (unat (writer_idx b')) (buf_data b')) = d
           \<and> unat (writer_idx b') \<le> unat (writer_idx b)"
proof (cases "d = []")
  case True
  then show ?thesis using wf buf_wfD[OF wf] by (simp add: Write_def)
next
  case False
  have n: "length d \<le> max_size" using room by (simp add: has_room_def)
  from room n have "has_room b (unat (of_nat (length d) :: u64))" by (simp add: unat_of_nat_u64)
  from EnsureWriteSpace_ok[OF wf this] n obtain b' where
    b': "EnsureWriteSpace (of_nat (length d)) b = Inr b'" "buf_wf b'" "content b' = content b"
      "unat (writer_idx b') + length d \<le> length (buf_data b')"
      "unat (writer_idx b') \<le> unat (writer_idx b)"
    by (auto simp: unat_of_nat_u64)
  then show ?thesis
    using False b' n buf_wfD[OF b'(2)]
    by (auto simp: Write_def of_nat_eq_0_u64 copy_to_ok buf_wf_def content_def)
qed

lemma MoveWriteOffset_ok:
  assumes wf: "buf_wf b" and n: "unat len \<le> length (buf_data b) - unat (writer_idx b)"
  shows "\<exists>b'. MoveWriteOffset len b = Inr b' \<and> buf_wf b'
           \<and> content b' = content b @ take (unat len) (drop (unat (writer_idx b)) (buf_data b))
           \<and> unat (writer_idx b') = unat (writer_idx b) + unat len"
proof -
  note le = buf_wfD[OF wf]
  have w: "unat (writer_idx b + len) = unat (writer_idx b) + unat len"
    using n le by (intro unat_plus_u64) linarith
  have "drop (unat (reader_idx b)) (take (unat (writer_idx b) + unat len) (buf_data b))
      = content b @ take (unat len) (drop (unat (writer_idx b)) (buf_data b))"
    using le n by (simp add: content_def take_add)
  with w show ?thesis
    using le n by (auto simp: MoveWriteOffset_def word_le_nat_alt unat_TailIdleSize[OF wf]
        buf_wf_def content_def)
qed

text \<open>Writing \<open>d\<close> and moving the write offset appends \<open>d\<close> to the queue.\<close>

lemma WriteAndPush_ok:
  assumes wf: "buf_wf b" and room: "has_room b (length d)"
  shows "\<exists>b'. WriteAndPush d b = Inr b' \<and> buf_wf b' \<and> content b' = content b @ d
           \<and> unat (writer_idx b') \<le> unat (writer_idx b) + length d"
proof -
  have n: "length d \<le> max_size" using room by (simp add: has_room_def)
  from Write_ok[OF assms] obtain b' where
    b': "Write d b = Inr b'" "buf_wf b'" "content b' = content b"
      "unat (writer_idx b') + length d \<le> length (buf_data b')"
      "take (length d) (drop (unat (writer_idx b')) (buf_data b')) = d"
      "unat (writer_idx b') \<le> unat (writer_idx b)"
    by blast
  moreover from b'(4) n have "unat (of_nat (length d) :: u64) \<le> length (buf_data b') - unat (writer_idx b')"
    by (simp add: unat_of_nat_u64)
  from MoveWriteOffset_ok[OF b'(2) this] obtain b'' where
    "MoveWriteOffset (of_nat (length d)) b' = Inr b''" "buf_wf b''" "content b'' = content b' @ d"
    "unat (writer_idx b'') = unat (writer_idx b') + length d"
    using n b'(5) by (auto simp: unat_of_nat_u64)
  ultimately show ?thesis
    by (auto simp: WriteAndPush_def)
qed

lemma WriteStringAndPush_eq: "WriteStringAndPush d b = WriteAndPush d b"
  by (simp add: WriteStringAndPush_def WriteAndPush_def WriteString_def)

lemma WriteBufferAndPush_ok:
  assumes "buf_wf b" "buf_wf src" and room: "has_room b (length (content src))"
  shows "\<exists>b'. WriteBufferAndPush src b = Inr b' \<and> buf_wf b' \<and> content b' = content b @ content src
           \<and> unat (writer_idx b') \<le> unat (writer_idx b) + length (content src)"
proof -
  have "ReadAbleSize src = of_nat (length (content src))"
    by (metis assms(2) unat_ReadAbleSize word_unat_eq_iff unat_of_nat_u64 length_content_le)
  then have "WriteBufferAndPush src b = WriteAndPush (content src) b"
    using peek_bytes_content[OF assms(2), of "ReadAbleSize src"] unat_ReadAbleSize[OF assms(2)]
    by (simp add: WriteBufferAndPush_def WriteBuffer_def WriteAndPush_def)
  with WriteAndPush_ok[OF assms(1) room] show ?thesis by simp
qed

text \<open>Without the room a write either still succeeds, after compaction, or is std::length_error.\<close>

lemma EnsureWriteSpace_total:
  assumes wf: "buf_wf b" and n: "unat len \<le> max_size"
  shows "EnsureWriteSpace len b = Inl LengthError \<or>
    (\<exists>b'. EnsureWriteSpace len b = Inr b' \<and> buf_wf b' \<and> content b' = content b
           \<and> unat (writer_idx b') + unat len \<le> length (buf_data b'))"
proof (cases "len \<le> TailIdleSize b + HeadIdleSize b")
  case True
  have "unat (TailIdleSize b) = length (buf_data b) - unat (writer_idx b)" by (rule unat_TailIdleSize[OF wf])
  moreover have "unat (TailIdleSize b + HeadIdleSize b)
      = length (buf_data b) - unat (writer_idx b) + unat (reader_idx b)"
    using buf_wfD[OF wf] calculation by (simp add: HeadIdleSize_def unat_plus_u64)
  moreover have "unat (ReadAbleSize b) = unat (writer_idx b) - unat (reader_idx b)"
    using unat_ReadAbleSize[OF wf] length_content[OF wf] by simp
  ultimately show ?thesis
    using True wf buf_wfD[OF wf]
    by (auto simp: EnsureWriteSpace_def word_le_nat_alt copy_from_ok copy_to_ok buf_wf_def content_def drop_take)
next
  case False
  show ?thesis
  proof (cases "has_room b (unat len)")
    case True
    from EnsureWriteSpace_ok[OF wf this] show ?thesis by blast
  next
    case no_room: False
    have "unat (writer_idx b + len) = unat (writer_idx b) + unat len"
      using n buf_wfD(4)[OF wf] by (simp add: unat_word_ariths max_size_def)
    moreover have "\<not> len \<le> TailIdleSize b"
      using no_room buf_wfD[OF wf] by (simp add: word_le_nat_alt unat_TailIdleSize[OF wf] has_room_def)
    ultimately show ?thesis
      using False no_room by (simp add: EnsureWriteSpace_def vector_resize_def has_room_def)
  qed
qed

lemma WriteAndPush_total:
  assumes wf: "buf_wf b" and n: "length d \<le> max_size"
  shows "WriteAndPush d b = Inl LengthError \<or>
    (\<exists>b'. WriteAndPush d b = Inr b' \<and> buf_wf b' \<and> content b' = content b @ d)"
proof (cases "d = [] \<or> EnsureWriteSpace (of_nat (length d)) b = Inl LengthError")
  case True
  then show ?thesis
    using WriteAndPush_ok[OF wf, of d] wf buf_wfD[OF wf] n
    by (auto simp: WriteAndPush_def Write_def of_nat_eq_0_u64 has_room_def)
next
  case False
  with EnsureWriteSpace_total[OF wf, of "of_nat (length d)"] n obtain b' where b':
    "EnsureWriteSpace (of_nat (length d)) b = Inr b'" "buf_wf b'" "content b' = content b"
    "unat (writer_idx b') + length d \<le> length (buf_data b')" by (auto simp: unat_of_nat_u64)
  let ?b = "b'\<lparr>buf_data := take (unat (writer_idx b')) (buf_data b') @ d
      @ drop (unat (writer_idx b') + length d) (buf_data b')\<rparr>"
  have "WriteAndPush d b = MoveWriteOffset (of_nat (length d)) ?b"
    using False b' n by (simp add: WriteAndPush_def Write_def of_nat_eq_0_u64 copy_to_ok)
  moreover have wf': "buf_wf ?b" and content': "content ?b = content b"
    using b' buf_wfD[OF b'(2)] by (auto simp: buf_wf_def content_def)
  moreover have room: "unat (of_nat (length d) :: u64) \<le> length (buf_data ?b) - unat (writer_idx ?b)"
    using b'(4) n by (simp add: unat_of_nat_u64)
  moreover have "take (unat (of_nat (length d) :: u64)) (drop (unat (writer_idx ?b)) (buf_data ?b)) = d"
    using b'(4) n by (simp add: unat_of_nat_u64)
  ultimately show ?thesis using MoveWriteOffset_ok[OF wf' room] by auto
qed

lemma WriteBufferAndPush_total:
  assumes wf: "buf_wf b" "buf_wf src"
  shows "WriteBufferAndPush src b = Inl LengthError \<or>
    (\<exists>b'. WriteBufferAndPush src b = Inr b' \<and> buf_wf b' \<and> content b' = content b @ content src)"
proof -
  have "ReadAbleSize src = of_nat (length (content src))"
    by (metis assms(2) unat_ReadAbleSize word_unat_eq_iff unat_of_nat_u64 length_content_le)
  then have "WriteBufferAndPush src b = WriteAndPush (content src) b"
    using peek_bytes_content[OF assms(2), of "ReadAbleSize src"] unat_ReadAbleSize[OF assms(2)]
    by (simp add: WriteBufferAndPush_def WriteBuffer_def WriteAndPush_def)
  with WriteAndPush_total[OF wf(1) length_content_le[OF wf(2)]] show ?thesis by simp
qed

lemma Buffer_Clear_ok: "buf_wf b \<Longrightarrow> buf_wf (Buffer_Clear b) \<and> content (Buffer_Clear b) = []"
  by (simp add: Buffer_Clear_def buf_wf_def content_def)


section \<open>Lines\<close>

definition newline :: char where
  "newline = CHR 0x0A"

text \<open>The first line of a byte string, its newline included; empty when no line is complete.\<close>

definition first_line :: "char list \<Rightarrow> char list" where
  "first_line s =
     (if newline \<in> set s then takeWhile (\<lambda>c. c \<noteq> newline) s @ [newline] else [])"

lemma memchr_eq:
  "memchr xs c = (if c \<in> set xs then Some (length (takeWhile (\<lambda>x. x \<noteq> c) xs)) else None)"
  by (induction xs) auto

lemma length_first_line_le: "length (first_line s) \<le> length s"
  using length_takeWhile_less[of newline s] by (auto simp: first_line_def)

lemma first_line_prefix: "first_line s @ drop (length (first_line s)) s = s"
proof (cases "newline \<in> set s")
  case True
  then have "first_line s = take (length (first_line s)) s"
    by (simp add: first_line_def take_Suc_takeWhile)
  then show ?thesis by (metis append_take_drop_id)
qed (simp add: first_line_def)

lemma first_line_eq_Nil: "first_line s = [] \<longleftrightarrow> newline \<notin> set s"
  by (simp add: first_line_def)

lemma first_line_append: "newline \<in> set s \<Longrightarrow> first_line (s @ t) = first_line s"
  by (simp add: first_line_def takeWhile_neq_append)

lemma first_line_line: "newline \<notin> set l \<Longrightarrow> first_line (l @ newline # t) = l @ [newline]"
  by (induction l) (auto simp: first_line_def)

lemma newline_line: "newline \<in> set s \<Longrightarrow> \<exists>l. first_line s = l @ [newline] \<and> newline \<notin> set l"
  by (auto simp: first_line_def dest: set_takeWhileD)

lemma FindCRLF_ok:
  "buf_wf b \<Longrightarrow> FindCRLF b =
     Inr (if newline \<in> set (content b)
          then Some (length (takeWhile (\<lambda>c. c \<noteq> newline) (content b))) else None)"
  by (simp add: FindCRLF_def peek_bytes_content unat_ReadAbleSize memchr_eq newline_def)

lemma GetLine_ok:
  assumes wf: "buf_wf b"
  shows "GetLine b = Inr (first_line (content b))"
proof (cases "newline \<in> set (content b)")
  case True
  let ?n = "length (takeWhile (\<lambda>c. c \<noteq> newline) (content b))"
  have n: "?n < length (content b)" by (rule length_takeWhile_less[OF True])
  then have "Suc ?n \<le> max_size" using length_content_le[OF wf] by simp
  then have "unat (1 + of_nat ?n :: u64) = Suc ?n"
    using unat_of_nat_u64[of "Suc ?n"] by simp
  with True n show ?thesis
    by (simp add: GetLine_def FindCRLF_ok[OF wf] ReadAsString_ok[OF wf] add.commute
        take_Suc_takeWhile first_line_def)
next
  case False
  then show ?thesis by (simp add: GetLine_def FindCRLF_ok[OF wf] first_line_def)
qed

lemma GetLineAndPop_ok:
  assumes wf: "buf_wf b"
  shows "\<exists>b'. GetLineAndPop b = Inr (first_line (content b), b') \<and> buf_wf b'
           \<and> content b' = drop (length (first_line (content b))) (content b)
           \<and> writer_idx b' = writer_idx b"
proof -
  have le: "length (first_line (content b)) \<le> length (content b)"
    by (rule length_first_line_le)
  then have "length (first_line (content b)) \<le> max_size"
    using length_content_le[OF wf] by linarith
  then have u: "unat (of_nat (length (first_line (content b))) :: u64) = length (first_line (content b))"
    by (rule unat_of_nat_u64)
  then have "unat (of_nat (length (first_line (content b))) :: u64) \<le> length (content b)"
    using le by simp
  from MoveReadOffset_ok[OF wf this] u show ?thesis
    by (auto simp: GetLineAndPop_def GetLine_ok[OF wf])
qed

section \<open>The contract of a byte queue\<close>

text \<open>
  What the clients of a buffer rely on: pushing appends to the queue of bytes and popping takes
  from its front.  \<open>used\<close> bounds the part of the array already taken, so that a client can state
  that there is room.  A checked queue also fails an assert when more is popped than it holds;
  the Buffer of the other library of the repository (theory MuduoBuffer) does not.
\<close>

datatype buf_op = Push "char list" | Pop u64

fun pushed :: "buf_op list \<Rightarrow> char list" where
  "pushed [] = []"
| "pushed (Push d # ops) = d @ pushed ops"
| "pushed (Pop n # ops) = pushed ops"

text \<open>A run of operations on an implementation: all bytes popped, and the final state.\<close>

fun run_ops ::
  "(char list \<Rightarrow> 'b \<Rightarrow> fault + 'b) \<Rightarrow> (u64 \<Rightarrow> 'b \<Rightarrow> fault + (char list \<times> 'b))
   \<Rightarrow> buf_op list \<Rightarrow> 'b \<Rightarrow> fault + (char list \<times> 'b)" where
  "run_ops push pop [] b = Inr ([], b)"
| "run_ops push pop (Push d # ops) b = and_then (push d b) (run_ops push pop ops)"
| "run_ops push pop (Pop n # ops) b =
     and_then (pop n b) (\<lambda>(out, b).
     and_then (run_ops push pop ops b) (\<lambda>(out', b). Inr (out @ out', b)))"

text \<open>The same run on the abstract queue; None is an attempt to pop more than it holds.\<close>

fun queue_ops :: "buf_op list \<Rightarrow> char list \<Rightarrow> (char list \<times> char list) option" where
  "queue_ops [] q = Some ([], q)"
| "queue_ops (Push d # ops) q = queue_ops ops (q @ d)"
| "queue_ops (Pop n # ops) q =
     (if length q < unat n then None
      else map_option (\<lambda>(out, r). (take (unat n) q @ out, r)) (queue_ops ops (drop (unat n) q)))"

lemma queue_ops_conserves: "queue_ops ops q = Some (out, r) \<Longrightarrow> out @ r = q @ pushed ops"
proof (induction ops arbitrary: q out)
  case (Cons op ops)
  show ?case
  proof (cases op)
    case (Push d)
    then show ?thesis using Cons by fastforce
  next
    case (Pop n)
    with Cons.prems obtain out' where
      out: "out = take (unat n) q @ out'" and "queue_ops ops (drop (unat n) q) = Some (out', r)"
      by (auto split: if_splits)
    then have "out' @ r = drop (unat n) q @ pushed ops" by (intro Cons.IH)
    with out Pop show ?thesis by (metis append.assoc append_take_drop_id pushed.simps(3))
  qed
qed simp

locale byte_queue =
  fixes inv :: "'b \<Rightarrow> bool"
    and bytes :: "'b \<Rightarrow> char list"
    and used :: "'b \<Rightarrow> nat"
    and push :: "char list \<Rightarrow> 'b \<Rightarrow> fault + 'b"
    and pop :: "u64 \<Rightarrow> 'b \<Rightarrow> fault + (char list \<times> 'b)"
  assumes push_ok: "inv b \<Longrightarrow> used b + length d \<le> max_size \<Longrightarrow>
      \<exists>b'. push d b = Inr b' \<and> inv b' \<and> bytes b' = bytes b @ d \<and> used b' \<le> used b + length d"
    and pop_ok: "inv b \<Longrightarrow> unat n \<le> length (bytes b) \<Longrightarrow>
      \<exists>b'. pop n b = Inr (take (unat n) (bytes b), b') \<and> inv b'
         \<and> bytes b' = drop (unat n) (bytes b) \<and> used b' \<le> used b"
begin

lemma run_queue:
  assumes "inv b" "used b + length (pushed ops) \<le> max_size" "queue_ops ops (bytes b) = Some (out, r)"
  shows "\<exists>b'. run_ops push pop ops b = Inr (out, b') \<and> inv b' \<and> bytes b' = r"
  using assms
proof (induction ops arbitrary: b out)
  case (Cons op ops)
  show ?case
  proof (cases op)
    case (Push d)
    with Cons.prems have room: "used b + length d + length (pushed ops) \<le> max_size" by simp
    then obtain b' where b': "push d b = Inr b'" "inv b'" "bytes b' = bytes b @ d"
      "used b' \<le> used b + length d"
      using push_ok[OF Cons.prems(1), of d] by auto
    with room have "used b' + length (pushed ops) \<le> max_size" by linarith
    from Cons.IH[OF b'(2) this] b' Push Cons.prems(3) show ?thesis by auto
  next
    case (Pop n)
    with Cons.prems(3) obtain out' where le: "unat n \<le> length (bytes b)" and
      out: "out = take (unat n) (bytes b) @ out'" "queue_ops ops (drop (unat n) (bytes b)) = Some (out', r)"
      by (auto split: if_splits)
    from pop_ok[OF Cons.prems(1) le] obtain b' where b':
      "pop n b = Inr (take (unat n) (bytes b), b')" "inv b'"
      "bytes b' = drop (unat n) (bytes b)" "used b' \<le> used b" by blast
    with Cons.prems Pop have "used b' + length (pushed ops) \<le> max_size" by simp
    from Cons.IH[OF b'(2) this] b' out Pop show ?thesis by auto
  qed
qed simp

lemma run_queue_conserves:
  assumes "inv b" "used b + length (pushed ops) \<le> max_size" "queue_ops ops (bytes b) = Some (out, r)"
  shows "\<exists>b'. run_ops push pop ops b = Inr (out, b') \<and> out @ bytes b' = bytes b @ pushed ops"
  using run_queue[OF assms] queue_ops_conserves[OF assms(3)] by auto

end

locale checked_byte_queue = byte_queue inv bytes used push pop
  for inv :: "'b \<Rightarrow> bool"
    and bytes :: "'b \<Rightarrow> char list"
    and used :: "'b \<Rightarrow> nat"
    and push :: "char list \<Rightarrow> 'b \<Rightarrow> fault + 'b"
    and pop :: "u64 \<Rightarrow> 'b \<Rightarrow> fault + (char list \<times> 'b)" +
  assumes pop_assert: "inv b \<Longrightarrow> length (bytes b) < unat n \<Longrightarrow> pop n b = Inl AssertFailed"
begin

lemma run_assert:
  assumes "inv b" "used b + length (pushed ops) \<le> max_size" "queue_ops ops (bytes b) = None"
  shows "run_ops push pop ops b = Inl AssertFailed"
  using assms
proof (induction ops arbitrary: b)
  case (Cons op ops)
  show ?case
  proof (cases op)
    case (Push d)
    with Cons.prems have room: "used b + length d + length (pushed ops) \<le> max_size" by simp
    then obtain b' where b': "push d b = Inr b'" "inv b'" "bytes b' = bytes b @ d"
      "used b' \<le> used b + length d"
      using push_ok[OF Cons.prems(1), of d] by auto
    with room have "used b' + length (pushed ops) \<le> max_size" by linarith
    from Cons.IH[OF b'(2) this] b' Push Cons.prems(3) show ?thesis by auto
  next
    case (Pop n)
    show ?thesis
    proof (cases "unat n \<le> length (bytes b)")
      case True
      from pop_ok[OF Cons.prems(1) this] obtain b' where b':
        "pop n b = Inr (take (unat n) (bytes b), b')" "inv b'"
        "bytes b' = drop (unat n) (bytes b)" "used b' \<le> used b" by blast
      with Cons.prems Pop have "used b' + length (pushed ops) \<le> max_size" by simp
      from Cons.IH[OF b'(2) this] b' True Pop Cons.prems(3) show ?thesis by auto
    qed (use pop_assert[OF Cons.prems(1)] Pop in simp)
  qed
qed simp

lemma run_refines:
  assumes "inv b" "used b + length (pushed ops) \<le> max_size"
  shows "case queue_ops ops (bytes b) of
           None \<Rightarrow> run_ops push pop ops b = Inl AssertFailed
         | Some (out, r) \<Rightarrow> \<exists>b'. run_ops push pop ops b = Inr (out, b') \<and> inv b' \<and> bytes b' = r"
  using run_assert[OF assms] run_queue[OF assms] by (auto split: option.splits)

lemma run_conserves:
  assumes "inv b" "used b + length (pushed ops) \<le> max_size"
    and "run_ops push pop ops b = Inr (out, b')"
  shows "out @ bytes b' = bytes b @ pushed ops"
  using run_refines[OF assms(1,2)] assms(3) queue_ops_conserves[of ops "bytes b"]
  by (auto split: option.splits)

end

interpretation srv_buffer: checked_byte_queue buf_wf content "\<lambda>b. unat (writer_idx b)" WriteAndPush
  ReadAsStringAndPop
proof
  fix b and d :: "char list"
  assume "buf_wf b" "unat (writer_idx b) + length d \<le> max_size"
  then show "\<exists>b'. WriteAndPush d b = Inr b' \<and> buf_wf b' \<and> content b' = content b @ d
      \<and> unat (writer_idx b') \<le> unat (writer_idx b) + length d"
    using WriteAndPush_ok[of b d] by (simp add: has_room_def)
next
  fix b and n :: u64
  assume "buf_wf b" "unat n \<le> length (content b)"
  from ReadAsStringAndPop_ok[OF this]
  show "\<exists>b'. ReadAsStringAndPop n b = Inr (take (unat n) (content b), b') \<and> buf_wf b'
      \<and> content b' = drop (unat n) (content b) \<and> unat (writer_idx b') \<le> unat (writer_idx b)"
    by auto
next
  fix b and n :: u64
  assume "buf_wf b" "length (content b) < unat n"
  then show "ReadAsStringAndPop n b = Inl AssertFailed" by (rule Read_assert(3))
qed

section \<open>Properties of the buffer\<close>

text \<open>
  C27. The buffer is a first-in first-out queue of bytes.  For every sequence of WriteAndPush and
  ReadAsStringAndPop calls on a well-formed buffer that has room for the bytes written, the
  calls return exactly what the abstract queue of bytes returns, whatever moving of data and
  growing of the array happens inside EnsureWriteSpace; and when the abstract queue is asked for
  more bytes than it holds, the run ends in the failed assert of ReadAsStringAndPop.
\<close>

theorem buffer_is_byte_queue:
  assumes "buf_wf b" and "has_room b (length (pushed ops))"
  shows "case queue_ops ops (content b) of
           None \<Rightarrow> run_ops WriteAndPush ReadAsStringAndPop ops b = Inl AssertFailed
         | Some (out, r) \<Rightarrow>
             \<exists>b'. run_ops WriteAndPush ReadAsStringAndPop ops b = Inr (out, b')
               \<and> buf_wf b' \<and> content b' = r"
  using assms srv_buffer.run_refines by (simp add: has_room_def)

lemma buffer_is_byte_queue_witness:
  "\<exists>b'. run_ops WriteAndPush ReadAsStringAndPop [Push ''ab'', Pop 1, Push ''c'', Pop 2] Buffer_new
        = Inr (''abc'', b') \<and> buf_wf b' \<and> content b' = []"
proof -
  let ?ops = "[Push ''ab'', Pop 1, Push ''c'', Pop 2]"
  have room: "has_room Buffer_new (length (pushed ?ops))"
    by (simp add: has_room_def Buffer_new_def max_size_def)
  have "queue_ops ?ops (content Buffer_new) = Some (''abc'', [])" by simp
  with buffer_is_byte_queue[OF buf_wf_new room] show ?thesis by (simp del: run_ops.simps)
qed

text \<open>
  No byte is lost, repeated or reordered: when a run of pushes and pops returns, the bytes
  it popped followed by those still in the buffer are those the buffer held followed by those
  pushed.
\<close>

theorem buffer_conserves_bytes:
  assumes "buf_wf b" and "has_room b (length (pushed ops))"
    and "run_ops WriteAndPush ReadAsStringAndPop ops b = Inr (out, b')"
  shows "out @ content b' = content b @ pushed ops"
  using assms srv_buffer.run_conserves by (simp add: has_room_def)

lemma buffer_conserves_bytes_witness:
  "\<exists>b'. run_ops WriteAndPush ReadAsStringAndPop [Push ''ab'', Pop 1] Buffer_new = Inr (''a'', b')
      \<and> ''a'' @ content b' = content Buffer_new @ pushed [Push ''ab'', Pop 1]"
proof -
  obtain b' where
    b': "run_ops WriteAndPush ReadAsStringAndPop [Push ''ab'', Pop 1] Buffer_new = Inr (''a'', b')"
    using srv_buffer.run_refines[of Buffer_new "[Push ''ab'', Pop 1]"]
    by (auto simp: Buffer_new_def max_size_def buf_wf_def content_def)
  moreover have "has_room Buffer_new (length (pushed [Push ''ab'', Pop 1]))"
    by (simp add: has_room_def Buffer_new_def max_size_def)
  ultimately show ?thesis using buffer_conserves_bytes[OF buf_wf_new] by blast
qed

text \<open>
  EnsureWriteSpace makes room without touching the data: for a request that stays within
  the largest vector it returns normally with at least \<open>len\<close> bytes free behind the write offset,
  the same readable bytes, and an array that has not shrunk.
\<close>

theorem ensure_write_space_correct:
  assumes "buf_wf b" and "has_room b (unat len)"
  shows "\<exists>b'. EnsureWriteSpace len b = Inr b' \<and> buf_wf b' \<and> content b' = content b
           \<and> len \<le> TailIdleSize b' \<and> length (buf_data b) \<le> length (buf_data b')"
  using EnsureWriteSpace_ok[OF assms] by (fastforce simp: word_le_nat_alt unat_TailIdleSize)

lemma ensure_write_space_correct_witness:
  "\<exists>b'. EnsureWriteSpace 2000 Buffer_new = Inr b' \<and> buf_wf b' \<and> content b' = content Buffer_new
      \<and> 2000 \<le> TailIdleSize b' \<and> length (buf_data Buffer_new) \<le> length (buf_data b')"
  by (rule ensure_write_space_correct) (simp_all add: has_room_def Buffer_new_def max_size_def buf_wf_def)

text \<open>
  GetLineAndPop returns the readable bytes up to and including the first newline and
  removes exactly those; without a newline it returns the empty string and removes nothing.
\<close>

theorem get_line_and_pop_correct:
  assumes "buf_wf b"
  shows "\<exists>line b'. GetLineAndPop b = Inr (line, b') \<and> buf_wf b' \<and> content b = line @ content b'
           \<and> (if newline \<in> set (content b)
              then \<exists>l. line = l @ [newline] \<and> newline \<notin> set l else line = [])"
proof -
  let ?l = "first_line (content b)"
  from GetLineAndPop_ok[OF assms] obtain b' where
    "GetLineAndPop b = Inr (?l, b')" "buf_wf b'" "content b' = drop (length ?l) (content b)"
    by blast
  moreover from this(3) have "content b = ?l @ content b'" by (simp add: first_line_prefix)
  ultimately show ?thesis
    using newline_line[of "content b"] first_line_eq_Nil[of "content b"]
    by (cases "newline \<in> set (content b)") auto
qed

lemma get_line_and_pop_correct_witness:
  "let b = \<lparr>buf_data = [CHR ''G'', newline, CHR ''x''], reader_idx = 0, writer_idx = 3\<rparr> in
   newline \<in> set (content b) \<and>
   (\<exists>line b'. GetLineAndPop b = Inr (line, b') \<and> buf_wf b' \<and> content b = line @ content b'
      \<and> (if newline \<in> set (content b)
         then \<exists>l. line = l @ [newline] \<and> newline \<notin> set l else line = []))"
  unfolding Let_def
  by (rule conjI, simp add: content_def, rule get_line_and_pop_correct)
     (simp add: buf_wf_def max_size_def)

end
