(* ===== verification/AnyHolder.thy ===== *)
theory AnyHolder
  imports ServerPrelude
begin

text \<open>
  The class Any of source/server.hpp: an owning pointer to a heap cell that holds a value and
  its type.  The model has an explicit heap and explicit Any variables, because what matters is
  the aliasing: who owns a cell, when it is freed, and that a copy is deep.
\<close>

section \<open>Heap, variables and operations\<close>

text \<open>
  A placeholder is a type (what \<open>typeid\<close> returns) and a value; \<open>_content\<close> is an address or NULL.
\<close>

type_synonym ('t, 'v) placeholder = "'t \<times> 'v"
type_synonym any_content = "nat option"

record ('t, 'v) any_store =
  cells :: "nat \<Rightarrow> ('t, 'v) placeholder option"
  next_addr :: nat
  any_vars :: "nat \<Rightarrow> any_content option"

definition new_placeholder ::
  "('t, 'v) placeholder \<Rightarrow> ('t, 'v) any_store \<Rightarrow> any_content \<times> ('t, 'v) any_store" where
  "new_placeholder p s =
     (Some (next_addr s), s\<lparr>cells := (cells s)(next_addr s \<mapsto> p), next_addr := Suc (next_addr s)\<rparr>)"

text \<open>The copy constructor: \<open>other._content ? other._content->clone() : NULL\<close>.\<close>

definition any_clone ::
  "any_content \<Rightarrow> ('t, 'v) any_store \<Rightarrow> fault + (any_content \<times> ('t, 'v) any_store)" where
  "any_clone c s =
     (case c of None \<Rightarrow> Inr (None, s)
      | Some a \<Rightarrow> (case cells s a of None \<Rightarrow> Inl UseAfterFree
                  | Some p \<Rightarrow> Inr (new_placeholder p s)))"

text \<open>The destructor: \<open>delete _content\<close>; deleting NULL does nothing, a double delete is undefined.\<close>

definition any_delete :: "any_content \<Rightarrow> ('t, 'v) any_store \<Rightarrow> fault + ('t, 'v) any_store" where
  "any_delete c s =
     (case c of None \<Rightarrow> Inr s
      | Some a \<Rightarrow> (case cells s a of None \<Rightarrow> Inl UseAfterFree
                  | Some p \<Rightarrow> Inr (s\<lparr>cells := (cells s)(a := None)\<rparr>)))"

definition any_set :: "nat \<Rightarrow> any_content \<Rightarrow> ('t, 'v) any_store \<Rightarrow> ('t, 'v) any_store" where
  "any_set x c s = s\<lparr>any_vars := (any_vars s)(x \<mapsto> c)\<rparr>"

text \<open>\<open>get<T>()\<close>: the address of the value, after the assert on the type; empty is a NULL call.\<close>

definition any_get :: "'t \<Rightarrow> any_content \<Rightarrow> ('t, 'v) any_store \<Rightarrow> fault + nat" where
  "any_get t c s =
     (case c of None \<Rightarrow> Inl NullDeref
      | Some a \<Rightarrow> (case cells s a of None \<Rightarrow> Inl UseAfterFree
                  | Some p \<Rightarrow> if t = fst p then Inr a else Inl AssertFailed))"

text \<open>
  The operations a program applies to its Any variables: the three constructors, the
  destructor, swap, the two assignments (a temporary is built, swapped with the variable and
  destroyed), and a write through the pointer \<open>get\<close> returned.
\<close>

datatype ('t, 'v) any_op =
    AnyEmpty nat
  | AnyValue nat "('t, 'v) placeholder"
  | AnyCopy nat nat
  | AnyDestroy nat
  | AnySwap nat nat
  | AnyAssignValue nat "('t, 'v) placeholder"
  | AnyAssignAny nat nat
  | AnyGetWrite nat 't 'v

definition any_var :: "nat \<Rightarrow> ('t, 'v) any_store \<Rightarrow> fault + any_content" where
  "any_var x s = (case any_vars s x of None \<Rightarrow> Inl UseAfterFree | Some c \<Rightarrow> Inr c)"

fun any_step :: "('t, 'v) any_op \<Rightarrow> ('t, 'v) any_store \<Rightarrow> fault + ('t, 'v) any_store" where
  "any_step (AnyEmpty x) s = Inr (any_set x None s)"
| "any_step (AnyValue x p) s = (let (c, s) = new_placeholder p s in Inr (any_set x c s))"
| "any_step (AnyCopy x y) s =
     and_then (any_var y s) (\<lambda>c. and_then (any_clone c s) (\<lambda>(c', s). Inr (any_set x c' s)))"
| "any_step (AnyDestroy x) s =
     and_then (any_var x s) (\<lambda>c. and_then (any_delete c s) (\<lambda>s.
       Inr (s\<lparr>any_vars := (any_vars s)(x := None)\<rparr>)))"
| "any_step (AnySwap x y) s =
     and_then (any_var x s) (\<lambda>c. and_then (any_var y s) (\<lambda>d.
       Inr (any_set y c (any_set x d s))))"
| "any_step (AnyAssignValue x p) s =
     and_then (any_var x s) (\<lambda>old. let (tmp, s) = new_placeholder p s in
       any_delete old (any_set x tmp s))"
| "any_step (AnyAssignAny x y) s =
     and_then (any_var y s) (\<lambda>c. and_then (any_var x s) (\<lambda>old.
       and_then (any_clone c s) (\<lambda>(tmp, s). any_delete old (any_set x tmp s))))"
| "any_step (AnyGetWrite x t v) s =
     and_then (any_var x s) (\<lambda>c. and_then (any_get t c s) (\<lambda>a.
       Inr (s\<lparr>cells := (cells s)(a \<mapsto> (t, v))\<rparr>)))"

section \<open>The value semantics Any promises\<close>

text \<open>Each variable simply holds a typed value or nothing; no addresses, no sharing.\<close>

type_synonym ('t, 'v) any_values = "nat \<Rightarrow> ('t, 'v) placeholder option option"

definition declared :: "nat \<Rightarrow> ('t, 'v) any_values \<Rightarrow> fault + ('t, 'v) placeholder option" where
  "declared x m = (case m x of None \<Rightarrow> Inl UseAfterFree | Some p \<Rightarrow> Inr p)"

fun value_step :: "('t, 'v) any_op \<Rightarrow> ('t, 'v) any_values \<Rightarrow> fault + ('t, 'v) any_values" where
  "value_step (AnyEmpty x) m = Inr (m(x \<mapsto> None))"
| "value_step (AnyValue x p) m = Inr (m(x \<mapsto> Some p))"
| "value_step (AnyCopy x y) m = and_then (declared y m) (\<lambda>p. Inr (m(x \<mapsto> p)))"
| "value_step (AnyDestroy x) m = and_then (declared x m) (\<lambda>_. Inr (m(x := None)))"
| "value_step (AnySwap x y) m =
     and_then (declared x m) (\<lambda>p. and_then (declared y m) (\<lambda>q. Inr (m(x \<mapsto> q, y \<mapsto> p))))"
| "value_step (AnyAssignValue x p) m = and_then (declared x m) (\<lambda>_. Inr (m(x \<mapsto> Some p)))"
| "value_step (AnyAssignAny x y) m =
     and_then (declared y m) (\<lambda>p. and_then (declared x m) (\<lambda>_. Inr (m(x \<mapsto> p))))"
| "value_step (AnyGetWrite x t v) m =
     and_then (declared x m) (\<lambda>p. case p of None \<Rightarrow> Inl NullDeref
       | Some (t', _) \<Rightarrow> if t = t' then Inr (m(x \<mapsto> Some (t, v))) else Inl AssertFailed)"

definition any_abs :: "('t, 'v) any_store \<Rightarrow> ('t, 'v) any_values" where
  "any_abs s x = (case any_vars s x of None \<Rightarrow> None
      | Some None \<Rightarrow> Some None | Some (Some a) \<Rightarrow> Some (cells s a))"

text \<open>
  Ownership: every cell belongs to exactly one variable, every non-NULL content is a live cell,
  and fresh addresses are unused.  A declaration reuses a name only after its destruction.
\<close>

definition any_owned :: "('t, 'v) any_store \<Rightarrow> bool" where
  "any_owned s \<longleftrightarrow>
     (\<forall>x a. any_vars s x = Some (Some a) \<longrightarrow> a < next_addr s \<and> cells s a \<noteq> None)
   \<and> (\<forall>a. cells s a \<noteq> None \<longrightarrow> (\<exists>x. any_vars s x = Some (Some a)))
   \<and> (\<forall>x y a. any_vars s x = Some (Some a) \<longrightarrow> any_vars s y = Some (Some a) \<longrightarrow> x = y)"

fun fresh_decl :: "('t, 'v) any_op \<Rightarrow> ('t, 'v) any_store \<Rightarrow> bool" where
  "fresh_decl (AnyEmpty x) s = (any_vars s x = None)"
| "fresh_decl (AnyValue x p) s = (any_vars s x = None)"
| "fresh_decl (AnyCopy x y) s = (any_vars s x = None)"
| "fresh_decl op s = True"

definition any_init :: "('t, 'v) any_store" where
  "any_init = \<lparr>cells = (\<lambda>_. None), next_addr = 0, any_vars = (\<lambda>_. None)\<rparr>"

lemma any_owned_init: "any_owned any_init"
  by (simp add: any_owned_def any_init_def)

section \<open>Any implements the value semantics\<close>

lemma any_ownedI:
  assumes "\<And>x a. any_vars s x = Some (Some a) \<Longrightarrow> a < next_addr s"
    and "\<And>x a. any_vars s x = Some (Some a) \<Longrightarrow> cells s a \<noteq> None"
    and "\<And>a. cells s a \<noteq> None \<Longrightarrow> \<exists>x. any_vars s x = Some (Some a)"
    and "\<And>x y a. any_vars s x = Some (Some a) \<Longrightarrow> any_vars s y = Some (Some a) \<Longrightarrow> x = y"
  shows "any_owned s"
  using assms unfolding any_owned_def by blast

lemma any_ownedD:
  assumes "any_owned s"
  shows "any_vars s x = Some (Some a) \<Longrightarrow> a < next_addr s"
    and "any_vars s x = Some (Some a) \<Longrightarrow> cells s a \<noteq> None"
    and "cells s a \<noteq> None \<Longrightarrow> \<exists>x. any_vars s x = Some (Some a)"
    and "any_vars s x = Some (Some a) \<Longrightarrow> any_vars s y = Some (Some a) \<Longrightarrow> x = y"
  using assms unfolding any_owned_def by blast+

lemma any_fresh:
  assumes "any_owned s"
  shows "any_vars s x \<noteq> Some (Some (next_addr s))" and "cells s (next_addr s) = None"
proof -
  show *: "any_vars s x \<noteq> Some (Some (next_addr s))" for x
    using any_ownedD(1)[OF assms] by blast
  then show "cells s (next_addr s) = None"
    using any_ownedD(3)[OF assms] by blast
qed

lemma any_abs_simps:
  "any_vars s x = None \<Longrightarrow> any_abs s x = None"
  "any_vars s x = Some None \<Longrightarrow> any_abs s x = Some None"
  "any_vars s x = Some (Some a) \<Longrightarrow> any_abs s x = Some (cells s a)"
  by (simp_all add: any_abs_def)

lemma declared_abs:
  "declared x (any_abs s) = (case any_vars s x of None \<Rightarrow> Inl UseAfterFree
     | Some None \<Rightarrow> Inr None | Some (Some a) \<Rightarrow> Inr (cells s a))"
  by (simp add: declared_def any_abs_def split: option.splits)

text \<open>
  How an operation changes the store: one variable drops its cell, which is freed, and owns
  nothing or the one fresh cell afterwards.
\<close>

lemma any_owned_change:
  assumes own: "any_owned s" and nxt: "next_addr s \<le> next_addr t"
    and vars: "any_vars t = (any_vars s)(x := c)"
    and new: "\<And>a. c = Some (Some a) \<Longrightarrow> a = next_addr s \<and> next_addr s < next_addr t"
    and cell: "\<And>a. cells t a \<noteq> None \<longleftrightarrow>
        cells s a \<noteq> None \<and> any_vars s x \<noteq> Some (Some a) \<or> c = Some (Some a)"
  shows "any_owned t"
proof (rule any_ownedI)
  fix y a assume y: "any_vars t y = Some (Some a)"
  show "a < next_addr t"
    using y new any_ownedD(1)[OF own, of y a] nxt by (auto simp: vars split: if_splits)
  show "cells t a \<noteq> None"
    unfolding cell using y any_ownedD(2,4)[OF own]
    by (cases "y = x") (auto simp: vars simp del: not_None_eq split_paired_Ex)
next
  fix a assume "cells t a \<noteq> None"
  then have "cells s a \<noteq> None \<and> any_vars s x \<noteq> Some (Some a) \<or> c = Some (Some a)"
    by (rule iffD1[OF cell])
  then show "\<exists>y. any_vars t y = Some (Some a)"
  proof
    assume *: "cells s a \<noteq> None \<and> any_vars s x \<noteq> Some (Some a)"
    then obtain y where "any_vars s y = Some (Some a)" using any_ownedD(3)[OF own] by blast
    with * have "any_vars t y = Some (Some a)" by (auto simp: vars)
    then show ?thesis ..
  qed (auto simp: vars)
next
  fix y z a assume "any_vars t y = Some (Some a)" "any_vars t z = Some (Some a)"
  then show "y = z"
    using new any_fresh(1)[OF own] any_ownedD(4)[OF own] by (auto simp: vars split: if_splits)
qed

lemma any_swap_owned:
  assumes own: "any_owned s" and x: "any_vars s x = Some c" and y: "any_vars s y = Some d"
  shows "any_owned (any_set y c (any_set x d s))"
proof (rule any_ownedI)
  fix a assume "cells (any_set y c (any_set x d s)) a \<noteq> None"
  then have "cells s a \<noteq> None" by (simp add: any_set_def)
  then obtain z where "any_vars s z = Some (Some a)"
    using any_ownedD(3)[OF own] by blast
  then have "any_vars (any_set y c (any_set x d s)) (if z = x then y else if z = y then x else z)
      = Some (Some a)"
    using x y by (auto simp: any_set_def)
  then show "\<exists>z. any_vars (any_set y c (any_set x d s)) z = Some (Some a)" ..
qed (use x y any_ownedD[OF own] in \<open>auto simp: any_set_def simp del: not_None_eq split: if_splits\<close>)

lemma any_write_owned:
  "any_owned s \<Longrightarrow> cells s a \<noteq> None \<Longrightarrow> any_owned (s\<lparr>cells := (cells s)(a \<mapsto> p)\<rparr>)"
  by (rule any_ownedI) (auto dest: any_ownedD simp del: not_None_eq split: if_splits)

text \<open>
  One operation, seen through the abstraction: it fails exactly when the value semantics fails,
  with the same fault, and otherwise keeps the ownership discipline and commutes with it.
\<close>

definition any_simulates ::
  "(fault + ('t, 'v) any_values) \<Rightarrow> (fault + ('t, 'v) any_store) \<Rightarrow> bool" where
  "any_simulates spec impl =
     (case spec of Inl e \<Rightarrow> impl = Inl e
      | Inr m \<Rightarrow> (case impl of Inl e \<Rightarrow> False | Inr t \<Rightarrow> any_owned t \<and> any_abs t = m))"

lemma any_simulates_Inl [simp]: "any_simulates (Inl e) impl \<longleftrightarrow> impl = Inl e"
  by (simp add: any_simulates_def)

lemma any_simulates_Inr: "any_simulates (Inr m) (Inr t) \<longleftrightarrow> any_owned t \<and> any_abs t = m"
  by (simp add: any_simulates_def)

lemma any_abs_change:
  assumes own: "any_owned s" and vars: "any_vars t = (any_vars s)(x := c)"
    and cell: "\<And>a. any_vars s x \<noteq> Some (Some a) \<Longrightarrow> a \<noteq> next_addr s \<Longrightarrow> cells t a = cells s a"
  shows "any_abs t = (any_abs s)(x := case c of None \<Rightarrow> None
      | Some None \<Rightarrow> Some None | Some (Some a) \<Rightarrow> Some (cells t a))"
proof
  fix y
  show "any_abs t y = ((any_abs s)(x := case c of None \<Rightarrow> None
      | Some None \<Rightarrow> Some None | Some (Some a) \<Rightarrow> Some (cells t a))) y"
  proof (cases "y = x")
    case False
    have "cells t a = cells s a" if "any_vars s y = Some (Some a)" for a
      using that False any_ownedD(4)[OF own, of y a x] any_fresh(1)[OF own, of y]
      by (intro cell) auto
    with False show ?thesis by (auto simp: any_abs_def vars split: option.splits)
  qed (simp add: any_abs_def vars)
qed

lemma any_simulates_change:
  assumes "any_owned s" "next_addr s \<le> next_addr t"
    and "any_vars t = (any_vars s)(x := c)"
    and "\<And>a. c = Some (Some a) \<Longrightarrow> a = next_addr s \<and> next_addr s < next_addr t"
    and "\<And>a. cells t a \<noteq> None \<longleftrightarrow>
        cells s a \<noteq> None \<and> any_vars s x \<noteq> Some (Some a) \<or> c = Some (Some a)"
    and "\<And>a. any_vars s x \<noteq> Some (Some a) \<Longrightarrow> a \<noteq> next_addr s \<Longrightarrow> cells t a = cells s a"
    and "m = (any_abs s)(x := case c of None \<Rightarrow> None
      | Some None \<Rightarrow> Some None | Some (Some a) \<Rightarrow> Some (cells t a))"
  shows "any_simulates (Inr m) (Inr t)"
  using any_owned_change[OF assms(1-5)] any_abs_change[OF assms(1,3,6)] assms(7)
  by (simp add: any_simulates_Inr)

lemma any_swap_abs:
  assumes "any_vars s x = Some c" "any_vars s y = Some d"
  shows "any_abs (any_set y c (any_set x d s)) = (any_abs s)(x := any_abs s y, y := any_abs s x)"
  using assms by (auto simp: any_abs_def any_set_def fun_eq_iff split: option.splits)

lemma any_write_abs:
  assumes "any_owned s" "any_vars s x = Some (Some a)"
  shows "any_abs (s\<lparr>cells := (cells s)(a \<mapsto> p)\<rparr>) = (any_abs s)(x \<mapsto> Some p)"
  using assms any_ownedD(4)[OF assms(1)]
  by (auto simp: any_abs_def fun_eq_iff split: option.splits)

lemma cells_own:
  assumes "any_owned s" "any_vars s x = Some (Some a)"
  obtains p where "cells s a = Some p" "a < next_addr s"
  using any_ownedD(1,2)[OF assms] by blast

lemma any_assign_simulates:
  assumes own: "any_owned s" and x: "any_vars s x = Some old"
  shows "any_simulates (Inr ((any_abs s)(x \<mapsto> Some p)))
    (let (tmp, s) = new_placeholder p s in any_delete old (any_set x tmp s))"
proof (cases old)
  case None
  then show ?thesis
    using own x any_fresh(2)[OF own]
    by (auto simp: new_placeholder_def any_delete_def any_set_def
        split: if_splits
        intro!: any_simulates_change[OF own, where x = x])
next
  case (Some a)
  with x obtain q where "cells s a = Some q" "a < next_addr s" by (auto elim: cells_own[OF own])
  with Some x any_fresh(2)[OF own] show ?thesis
    by (auto simp: new_placeholder_def any_delete_def any_set_def
        split: if_splits
        intro!: any_simulates_change[OF own, where x = x])
qed

lemma any_clear_simulates:
  assumes own: "any_owned s" and x: "any_vars s x = Some old"
  shows "any_simulates (Inr ((any_abs s)(x \<mapsto> None))) (any_delete old (any_set x None s))"
proof (cases old)
  case None
  then show ?thesis
    using own x by (auto simp: any_delete_def any_set_def split: if_splits
        intro!: any_simulates_change[OF own, where x = x])
next
  case (Some a)
  with x obtain q where "cells s a = Some q" "a < next_addr s" by (auto elim: cells_own[OF own])
  with Some x show ?thesis
    by (auto simp: any_delete_def any_set_def split: if_splits
        intro!: any_simulates_change[OF own, where x = x])
qed

lemma any_destroy_simulates:
  assumes own: "any_owned s" and x: "any_vars s x = Some old"
  shows "any_simulates (Inr ((any_abs s)(x := None)))
    (and_then (any_delete old s) (\<lambda>s. Inr (s\<lparr>any_vars := (any_vars s)(x := None)\<rparr>)))"
proof (cases old)
  case None
  then show ?thesis
    using own x by (auto simp: any_delete_def split: if_splits
        intro!: any_simulates_change[OF own, where x = x])
next
  case (Some a)
  with x obtain q where "cells s a = Some q" "a < next_addr s" by (auto elim: cells_own[OF own])
  with Some x show ?thesis
    by (auto simp: any_delete_def split: if_splits
        intro!: any_simulates_change[OF own, where x = x])
qed

lemma any_new_simulates:
  assumes own: "any_owned s" and x: "any_vars s x = None"
  shows "any_simulates (Inr ((any_abs s)(x \<mapsto> Some p)))
    (let (c, s) = new_placeholder p s in Inr (any_set x c s))"
  using x any_fresh(2)[OF own]
  by (auto simp: new_placeholder_def any_set_def split: if_splits
        intro!: any_simulates_change[OF own, where x = x])

lemma any_empty_simulates:
  assumes own: "any_owned s" and x: "any_vars s x = None"
  shows "any_simulates (Inr ((any_abs s)(x \<mapsto> None))) (Inr (any_set x None s))"
  using x by (auto simp: any_set_def split: if_splits
        intro!: any_simulates_change[OF own, where x = x])

lemma any_var_simps:
  "any_vars s x = None \<Longrightarrow> any_var x s = Inl UseAfterFree"
  "any_vars s x = Some c \<Longrightarrow> any_var x s = Inr c"
  by (simp_all add: any_var_def)

lemma any_step_simulates:
  assumes own: "any_owned s" and fresh: "fresh_decl op s"
  shows "any_simulates (value_step op (any_abs s)) (any_step op s)"
proof (cases op)
  case (AnyCopy x y)
  then show ?thesis
    using fresh any_empty_simulates[OF own, of x] any_new_simulates[OF own, of x]
    by (auto simp: declared_abs any_var_def any_clone_def split: option.splits elim: cells_own[OF own])
next
  case (AnyDestroy x)
  then show ?thesis
    using any_destroy_simulates[OF own, of x]
    by (auto simp: declared_abs any_var_def split: option.splits)
next
  case (AnySwap x y)
  then show ?thesis
    using any_swap_owned[OF own] any_swap_abs[of s x _ y]
    by (auto simp: declared_abs any_var_def any_abs_def any_simulates_Inr split: option.splits)
next
  case (AnyAssignValue x p)
  then show ?thesis
    using any_assign_simulates[OF own, of x _ p]
    by (auto simp: declared_abs any_var_def split: option.splits)
next
  case (AnyAssignAny x y)
  then show ?thesis
    using any_assign_simulates[OF own, of x] any_clear_simulates[OF own, of x]
    by (auto simp: declared_abs any_var_def any_clone_def split: option.splits elim: cells_own[OF own])
next
  case (AnyGetWrite x t v)
  then show ?thesis
    using any_write_owned[OF own] any_write_abs[OF own, of x]
    by (auto simp: declared_abs any_var_def any_get_def any_simulates_Inr split: option.splits
        elim: cells_own[OF own])
qed (use fresh any_empty_simulates[OF own] any_new_simulates[OF own] in auto)

section \<open>Programs over Any variables\<close>

fun any_run :: "('t, 'v) any_op list \<Rightarrow> ('t, 'v) any_store \<Rightarrow> fault + ('t, 'v) any_store" where
  "any_run [] s = Inr s"
| "any_run (op # ops) s = and_then (any_step op s) (any_run ops)"

fun value_run :: "('t, 'v) any_op list \<Rightarrow> ('t, 'v) any_values \<Rightarrow> fault + ('t, 'v) any_values" where
  "value_run [] m = Inr m"
| "value_run (op # ops) m = and_then (value_step op m) (value_run ops)"

text \<open>A program that declares a variable only while no variable of that name exists.\<close>

fun scoped :: "('t, 'v) any_op list \<Rightarrow> ('t, 'v) any_store \<Rightarrow> bool" where
  "scoped [] s = True"
| "scoped (op # ops) s =
     (fresh_decl op s \<and> (case any_step op s of Inl e \<Rightarrow> True | Inr t \<Rightarrow> scoped ops t))"

lemma any_run_owned:
  "any_owned s \<Longrightarrow> scoped ops s \<Longrightarrow> any_run ops s = Inr t \<Longrightarrow> any_owned t"
proof (induction ops arbitrary: s)
  case (Cons op ops)
  then obtain u where u: "any_step op s = Inr u" "any_run ops u = Inr t"
    by (auto simp: and_then_eq_Inr)
  with Cons.prems any_step_simulates[of s op] have "any_owned u"
    by (auto simp: any_simulates_def split: sum.splits)
  with Cons u show ?case by auto
qed simp

text \<open>
  C28. A program over Any variables behaves as if every variable simply held its own value: copies
  are deep, assignment to itself is harmless, a write through get changes one variable only, a
  get of the wrong type fails the assert, a get of an empty Any calls through NULL, and no
  operation ever touches a freed cell or frees one twice.
\<close>

theorem any_refines_values:
  assumes "any_owned s" and "scoped ops s"
  shows "case value_run ops (any_abs s) of Inl e \<Rightarrow> any_run ops s = Inl e
         | Inr m \<Rightarrow> \<exists>t. any_run ops s = Inr t \<and> any_owned t \<and> any_abs t = m"
  using assms
proof (induction ops arbitrary: s)
  case (Cons op ops)
  then have sim: "any_simulates (value_step op (any_abs s)) (any_step op s)"
    by (intro any_step_simulates) auto
  show ?case
  proof (cases "value_step op (any_abs s)")
    case (Inl e)
    with sim show ?thesis by simp
  next
    case (Inr m)
    with sim obtain t where t: "any_step op s = Inr t" "any_owned t" "any_abs t = m"
      by (auto simp: any_simulates_def split: sum.splits)
    with Cons.prems have "scoped ops t" by simp
    from Cons.IH[OF t(2) this] t Inr show ?thesis by (auto split: sum.splits)
  qed
qed simp

lemma any_refines_values_witness:
  "any_owned any_init \<and>
   scoped [AnyValue 0 (''int'', 10::int), AnyCopy 1 0, AnyGetWrite 1 ''int'' 7, AnyAssignAny 0 0]
     any_init \<and>
   (\<exists>t. any_run [AnyValue 0 (''int'', 10::int), AnyCopy 1 0, AnyGetWrite 1 ''int'' 7, AnyAssignAny 0 0]
      any_init = Inr t \<and> any_owned t
      \<and> any_abs t = [0 \<mapsto> Some (''int'', 10), 1 \<mapsto> Some (''int'', 7)])"
proof -
  let ?ops = "[AnyValue 0 (''int'', 10::int), AnyCopy 1 0, AnyGetWrite 1 ''int'' 7, AnyAssignAny 0 0]"
  have sc: "scoped ?ops any_init"
    by (simp add: any_init_def new_placeholder_def any_set_def any_var_def any_clone_def
        any_get_def any_delete_def)
  have "any_abs any_init = (Map.empty :: (string, int) any_values)"
    by (simp add: any_abs_def any_init_def fun_eq_iff)
  then have "value_run ?ops (any_abs any_init) = Inr [0 \<mapsto> Some (''int'', 10), 1 \<mapsto> Some (''int'', 7)]"
    by (simp add: declared_def fun_eq_iff)
  with any_refines_values[OF any_owned_init sc] sc any_owned_init show ?thesis by simp
qed

text \<open>
  Nothing leaks: once a program has destroyed all its Any variables, no heap cell is left.
\<close>

theorem any_no_leak:
  assumes "scoped ops any_init" and "any_run ops any_init = Inr t"
    and "\<forall>x. any_vars t x = None"
  shows "cells t = Map.empty"
proof -
  have "any_owned t" by (rule any_run_owned[OF any_owned_init assms(1,2)])
  with assms(3) have "cells t a = None" for a
    using any_ownedD(3)[of t a] by (metis option.distinct(1))
  then show ?thesis by (rule ext)
qed

lemma any_no_leak_witness:
  "\<exists>t. any_run [AnyValue 0 (''int'', 1::int), AnyAssignValue 0 (''str'', 2), AnyDestroy 0] any_init
        = Inr t \<and> cells t = Map.empty"
proof -
  let ?ops = "[AnyValue 0 (''int'', 1::int), AnyAssignValue 0 (''str'', 2), AnyDestroy 0]"
  note run = any_init_def new_placeholder_def any_set_def any_var_def any_clone_def any_delete_def
  have sc: "scoped ?ops any_init" by (simp add: run)
  obtain t where t: "any_run ?ops any_init = Inr t" "\<forall>x. any_vars t x = None"
    by (simp add: run)
  from any_no_leak[OF sc t] t(1) show ?thesis by blast
qed

end
