(* ===== verification/TimerWheel.thy ===== *)
theory TimerWheel
  imports ServerPrelude
begin

text \<open>
  The classes TimerTask and TimerWheel of source/server.hpp.  A TimerTask object lives as long as
  the wheel holds a shared_ptr to it; its destructor runs the task unless it was cancelled and
  then removes its id from \<open>_timers\<close>, which holds weak_ptrs.  The model keeps the objects in an
  explicit heap; the reference count of an object is the number of its occurrences in the wheel.

  The task callbacks are names of a type \<open>'c\<close>; the operations return the callbacks they ran, in
  order.  A callback that calls back into the wheel while the wheel is destroying its task is
  not modelled (the library's own callback, Connection::Release, only queues a task).
\<close>

section \<open>State\<close>

record 'c timer_task =
  tk_id :: u64
  tk_timeout :: u32
  tk_canceled :: bool
  tk_cb :: 'c

record 'c wheel =
  w_tick :: nat
  w_capacity :: nat
  w_slots :: "nat list list"
  w_timers :: "u64 \<Rightarrow> nat option"
  w_objs :: "nat \<Rightarrow> 'c timer_task option"
  w_next :: nat

definition TimerWheel_new :: "'c wheel" where
  "TimerWheel_new = \<lparr>w_tick = 0, w_capacity = 60, w_slots = replicate 60 [],
     w_timers = (\<lambda>_. None), w_objs = (\<lambda>_. None), w_next = 0\<rparr>"

section \<open>Operations\<close>

definition RemoveTimer :: "u64 \<Rightarrow> 'c wheel \<Rightarrow> 'c wheel" where
  "RemoveTimer i w =
     (case w_timers w i of None \<Rightarrow> w | Some _ \<Rightarrow> w\<lparr>w_timers := (w_timers w)(i := None)\<rparr>)"

text \<open>The destructor \<open>~TimerTask\<close> of the object at an address, the memory freed with it.\<close>

definition TimerTask_destroy :: "nat \<Rightarrow> 'c wheel \<Rightarrow> 'c wheel \<times> 'c list" where
  "TimerTask_destroy a w =
     (case w_objs w a of None \<Rightarrow> (w, [])
      | Some t \<Rightarrow> (RemoveTimer (tk_id t) (w\<lparr>w_objs := (w_objs w)(a := None)\<rparr>),
                  if \<not> tk_canceled t then [tk_cb t] else []))"

text \<open>
  Destroying a list of shared_ptrs that is no longer in the wheel: an object dies with its last
  reference, counting the references still in the list and those in the wheel.
\<close>

fun release_ptrs :: "nat list \<Rightarrow> 'c wheel \<Rightarrow> 'c wheel \<times> 'c list" where
  "release_ptrs [] w = (w, [])"
| "release_ptrs (a # as) w =
     (if a \<in> set as \<or> a \<in> set (concat (w_slots w)) then release_ptrs as w
      else let (w1, f1) = TimerTask_destroy a w; (w2, f2) = release_ptrs as w1 in (w2, f1 @ f2))"

definition RunTimerTask :: "'c wheel \<Rightarrow> fault + ('c wheel \<times> 'c list)" where
  "RunTimerTask w =
     (let tick = (w_tick w + 1) mod w_capacity w in
      if tick < length (w_slots w)
      then Inr (release_ptrs (w_slots w ! tick)
                  (w\<lparr>w_tick := tick, w_slots := (w_slots w)[tick := []]\<rparr>))
      else Inl OutOfBounds)"

text \<open>
  \<open>OnTime\<close>: the expiration count read from the timerfd is a uint64_t stored in an int; the
  loop runs once per expiration, and not at all for a negative count.
\<close>

fun run_timer_tasks :: "nat \<Rightarrow> 'c wheel \<Rightarrow> fault + ('c wheel \<times> 'c list)" where
  "run_timer_tasks 0 w = Inr (w, [])"
| "run_timer_tasks (Suc n) w =
     and_then (RunTimerTask w) (\<lambda>(w, f).
     and_then (run_timer_tasks n w) (\<lambda>(w, f'). Inr (w, f @ f')))"

definition OnTime :: "u64 \<Rightarrow> 'c wheel \<Rightarrow> fault + ('c wheel \<times> 'c list)" where
  "OnTime expirations w = run_timer_tasks (nat (sint (ucast expirations :: u32))) w"

text \<open>
  \<open>_wheel[pos].push_back(pt)\<close>.  In TimerAddInLoop the position is computed in uint32_t, because
  \<open>delay\<close> is one; in TimerRefreshInLoop the delay is first stored in an int.
\<close>

definition push_slot :: "nat \<Rightarrow> nat \<Rightarrow> 'c wheel \<Rightarrow> fault + 'c wheel" where
  "push_slot pos a w =
     (if pos < length (w_slots w)
      then Inr (w\<lparr>w_slots := (w_slots w)[pos := w_slots w ! pos @ [a]]\<rparr>) else Inl OutOfBounds)"

definition TimerAddInLoop :: "u64 \<Rightarrow> u32 \<Rightarrow> 'c \<Rightarrow> 'c wheel \<Rightarrow> fault + 'c wheel" where
  "TimerAddInLoop i delay cb w =
     (let a = w_next w;
          pt = \<lparr>tk_id = i, tk_timeout = delay, tk_canceled = False, tk_cb = cb\<rparr>;
          pos = unat ((of_nat (w_tick w) + delay) mod of_nat (w_capacity w)) in
      and_then (push_slot pos a (w\<lparr>w_objs := (w_objs w)(a \<mapsto> pt), w_next := Suc a\<rparr>)) (\<lambda>w.
      Inr (w\<lparr>w_timers := (w_timers w)(i \<mapsto> a)\<rparr>)))"

definition TimerRefreshInLoop :: "u64 \<Rightarrow> 'c wheel \<Rightarrow> fault + 'c wheel" where
  "TimerRefreshInLoop i w =
     (case w_timers w i of None \<Rightarrow> Inr w
      | Some a \<Rightarrow> (case w_objs w a of None \<Rightarrow> Inl NullDeref
        | Some pt \<Rightarrow>
            (let delay = sint (tk_timeout pt); s = int (w_tick w) + delay in
             if s \<ge> 2 ^ 31 then Inl SignedOverflow
             else if s < 0 \<and> \<bar>s\<bar> mod int (w_capacity w) \<noteq> 0 then Inl OutOfBounds
             else push_slot (nat (\<bar>s\<bar> mod int (w_capacity w))) a w)))"

definition TimerCancelInLoop :: "u64 \<Rightarrow> 'c wheel \<Rightarrow> 'c wheel" where
  "TimerCancelInLoop i w =
     (case w_timers w i of None \<Rightarrow> w
      | Some a \<Rightarrow> (case w_objs w a of None \<Rightarrow> w
        | Some pt \<Rightarrow> w\<lparr>w_objs := (w_objs w)(a \<mapsto> pt\<lparr>tk_canceled := True\<rparr>)\<rparr>))"

definition HasTimer :: "u64 \<Rightarrow> 'c wheel \<Rightarrow> bool" where
  "HasTimer i w \<longleftrightarrow> w_timers w i \<noteq> None"

section \<open>Positions and times\<close>

text \<open>
  The number of ticks after which the hand reaches position \<open>p\<close> again, and the number of ticks
  a delay really amounts to on a dial of 60 positions: the delay itself between 1 and 60, a full
  turn for 0, and the delay less full turns beyond 60.
\<close>

definition ticks_to :: "nat \<Rightarrow> nat \<Rightarrow> nat" where
  "ticks_to tick p = (p + 59 - tick) mod 60 + 1"

definition eff_delay :: "nat \<Rightarrow> nat" where
  "eff_delay d = (d + 59) mod 60 + 1"

lemma mod_60_if: "(x::nat) < 120 \<Longrightarrow> x mod 60 = (if x < 60 then x else x - 60)"
  by (simp add: le_mod_geq)

lemma eff_delay_if: "eff_delay d = (if d mod 60 = 0 then 60 else d mod 60)"
proof -
  have "(d + 59) mod 60 = (d mod 60 + 59) mod 60" by (simp add: mod_add_left_eq)
  also have "\<dots> = (if d mod 60 = 0 then 59 else d mod 60 - 1)"
    using mod_less_divisor[of 60 d] by (subst mod_60_if) auto
  finally show ?thesis by (auto simp: eff_delay_def)
qed

lemma eff_delay_range: "1 \<le> d \<Longrightarrow> d \<le> 60 \<Longrightarrow> eff_delay d = d"
  by (cases "d = 60") (auto simp: eff_delay_if)

lemma eff_delay_cases: "eff_delay d = (if 1 \<le> d \<and> d \<le> 60 then d else if d mod 60 = 0 then 60 else d mod 60)"
  using eff_delay_range[of d] by (simp add: eff_delay_if)

lemma eff_delay_bounds: "1 \<le> eff_delay d" "eff_delay d \<le> 60"
  unfolding eff_delay_def by (auto simp: Suc_le_eq)

lemma ticks_to_if: "t < 60 \<Longrightarrow> p < 60 \<Longrightarrow> ticks_to t p = (if t < p then p - t else p + 60 - t)"
  unfolding ticks_to_def by (subst mod_60_if) auto

lemma ticks_to_pos: "0 < ticks_to t p"
  by (simp add: ticks_to_def)

lemma ticks_to_add:
  assumes "t < 60"
  shows "ticks_to t ((t + d) mod 60) = eff_delay d"
proof -
  have "(t + d) mod 60 = (t + d mod 60) mod 60" by (simp add: mod_add_right_eq)
  also have "\<dots> = (if t + d mod 60 < 60 then t + d mod 60 else t + d mod 60 - 60)"
    using assms mod_less_divisor[of 60 d] by (intro mod_60_if) linarith
  finally have q: "(t + d) mod 60 = (if t + d mod 60 < 60 then t + d mod 60 else t + d mod 60 - 60)" .
  have "d mod 60 < 60" "(t + d) mod 60 < 60" by simp_all
  then show ?thesis
    using assms by (simp only: ticks_to_if eff_delay_if q split: if_splits) auto
qed

lemma ticks_to_1: "t < 60 \<Longrightarrow> p < 60 \<Longrightarrow> ticks_to t p = 1 \<longleftrightarrow> p = (t + 1) mod 60"
  by (subst mod_60_if) (auto simp: ticks_to_if)

lemma ticks_to_step:
  "t < 60 \<Longrightarrow> p < 60 \<Longrightarrow> p \<noteq> (t + 1) mod 60 \<Longrightarrow> ticks_to t p = Suc (ticks_to ((t + 1) mod 60) p)"
  by (cases "t = 59") (auto simp: ticks_to_if)

section \<open>Invariant\<close>

text \<open>
  The clock hand is on the dial; the references in the wheel are exactly those to the live
  objects; no reference lies further ahead than its task's delay; \<open>_timers\<close> names exactly the
  live objects, each under its own id; and the delays are such that the int arithmetic of
  TimerRefreshInLoop stays in range.  The clause on ids is what the callers establish by never
  reusing an id while its task lives.
\<close>

definition wheel_wf :: "'c wheel \<Rightarrow> bool" where
  "wheel_wf w \<longleftrightarrow>
     w_capacity w = 60 \<and> length (w_slots w) = 60 \<and> w_tick w < 60
   \<and> (\<forall>a. w_objs w a \<noteq> None \<longleftrightarrow> (\<exists>p<60. a \<in> set (w_slots w ! p)))
   \<and> (\<forall>p<60. \<forall>a t. a \<in> set (w_slots w ! p) \<longrightarrow> w_objs w a = Some t \<longrightarrow>
         ticks_to (w_tick w) p \<le> eff_delay (unat (tk_timeout t)))
   \<and> (\<forall>a t. w_objs w a = Some t \<longrightarrow> a < w_next w \<and> unat (tk_timeout t) + 60 \<le> 2 ^ 31)
   \<and> (\<forall>i a. w_timers w i = Some a \<longleftrightarrow> (\<exists>t. w_objs w a = Some t \<and> tk_id t = i))"

lemma wheel_wf_new: "wheel_wf TimerWheel_new"
  by (simp add: wheel_wf_def TimerWheel_new_def)

lemma wheel_wfI:
  assumes "w_capacity w = 60" "length (w_slots w) = 60" "w_tick w < 60"
    and "\<And>a. w_objs w a \<noteq> None \<Longrightarrow> \<exists>p<60. a \<in> set (w_slots w ! p)"
    and "\<And>p a. p < 60 \<Longrightarrow> a \<in> set (w_slots w ! p) \<Longrightarrow> w_objs w a \<noteq> None"
    and "\<And>p a t. p < 60 \<Longrightarrow> a \<in> set (w_slots w ! p) \<Longrightarrow> w_objs w a = Some t \<Longrightarrow>
           ticks_to (w_tick w) p \<le> eff_delay (unat (tk_timeout t))"
    and "\<And>a t. w_objs w a = Some t \<Longrightarrow> a < w_next w"
    and "\<And>a t. w_objs w a = Some t \<Longrightarrow> unat (tk_timeout t) + 60 \<le> 2 ^ 31"
    and "\<And>i a. w_timers w i = Some a \<longleftrightarrow> (\<exists>t. w_objs w a = Some t \<and> tk_id t = i)"
  shows "wheel_wf w"
  unfolding wheel_wf_def using assms by blast

lemma wheel_wfD:
  assumes "wheel_wf w"
  shows "w_capacity w = 60" "length (w_slots w) = 60" "w_tick w < 60"
    and "w_objs w a \<noteq> None \<Longrightarrow> \<exists>p<60. a \<in> set (w_slots w ! p)"
    and "p < 60 \<Longrightarrow> a \<in> set (w_slots w ! p) \<Longrightarrow> w_objs w a \<noteq> None"
    and "p < 60 \<Longrightarrow> a \<in> set (w_slots w ! p) \<Longrightarrow> w_objs w a = Some t \<Longrightarrow>
           ticks_to (w_tick w) p \<le> eff_delay (unat (tk_timeout t))"
    and "w_objs w a = Some t \<Longrightarrow> a < w_next w"
    and "w_objs w a = Some t \<Longrightarrow> unat (tk_timeout t) + 60 \<le> 2 ^ 31"
    and "w_timers w i = Some a \<Longrightarrow> \<exists>t. w_objs w a = Some t \<and> tk_id t = i"
    and "w_objs w a = Some t \<Longrightarrow> w_timers w (tk_id t) = Some a"
  using assms unfolding wheel_wf_def by blast+

lemma wheel_fresh:
  assumes "wheel_wf w"
  shows "w_objs w (w_next w) = None" and "p < 60 \<Longrightarrow> w_next w \<notin> set (w_slots w ! p)"
proof -
  show *: "w_objs w (w_next w) = None"
    using wheel_wfD(7)[OF assms, of "w_next w"] by (cases "w_objs w (w_next w)") auto
  show "p < 60 \<Longrightarrow> w_next w \<notin> set (w_slots w ! p)"
    using wheel_wfD(5)[OF assms] * by blast
qed

section \<open>The abstract timers\<close>

text \<open>
  What the wheel stands for: each id with the number of ticks left, its period, whether it was
  cancelled, and its action.  Adding and refreshing set the ticks left to the period, cancelling
  marks, and a tick counts down, ends the timers that reach zero and runs those not cancelled.
\<close>

record 'c timer =
  remaining :: nat
  period :: nat
  canceled :: bool
  action :: 'c

type_synonym 'c timers = "u64 \<Rightarrow> 'c timer option"

definition timers_add :: "u64 \<Rightarrow> nat \<Rightarrow> 'c \<Rightarrow> 'c timers \<Rightarrow> 'c timers" where
  "timers_add i d cb m =
     m(i \<mapsto> \<lparr>remaining = eff_delay d, period = eff_delay d, canceled = False, action = cb\<rparr>)"

definition timers_refresh :: "u64 \<Rightarrow> 'c timers \<Rightarrow> 'c timers" where
  "timers_refresh i m = m(i := map_option (\<lambda>t. t\<lparr>remaining := period t\<rparr>) (m i))"

definition timers_cancel :: "u64 \<Rightarrow> 'c timers \<Rightarrow> 'c timers" where
  "timers_cancel i m = m(i := map_option (\<lambda>t. t\<lparr>canceled := True\<rparr>) (m i))"

definition timers_tick :: "'c timers \<Rightarrow> 'c timers" where
  "timers_tick m i = (case m i of None \<Rightarrow> None
     | Some t \<Rightarrow> if remaining t \<le> 1 then None else Some (t\<lparr>remaining := remaining t - 1\<rparr>))"

definition timers_due :: "'c timers \<Rightarrow> u64 set" where
  "timers_due m = {i. \<exists>t. m i = Some t \<and> remaining t \<le> 1 \<and> \<not> canceled t}"

text \<open>The ticks until the last reference to an object is cleared, and the abstraction.\<close>

definition expiry :: "'c wheel \<Rightarrow> nat \<Rightarrow> nat" where
  "expiry w a = Max (ticks_to (w_tick w) ` {p. p < 60 \<and> a \<in> set (w_slots w ! p)})"

definition wheel_abs :: "'c wheel \<Rightarrow> 'c timers" where
  "wheel_abs w i = (case w_timers w i of None \<Rightarrow> None | Some a \<Rightarrow>
     (case w_objs w a of None \<Rightarrow> None | Some t \<Rightarrow>
        Some \<lparr>remaining = expiry w a, period = eff_delay (unat (tk_timeout t)),
              canceled = tk_canceled t, action = tk_cb t\<rparr>))"

lemma expiry_eqI:
  assumes "p < 60" "a \<in> set (w_slots w ! p)" "ticks_to (w_tick w) p = n"
    and "\<And>q. q < 60 \<Longrightarrow> a \<in> set (w_slots w ! q) \<Longrightarrow> ticks_to (w_tick w) q \<le> n"
  shows "expiry w a = n"
  unfolding expiry_def using assms by (intro Max_eqI) auto

lemma expiry_attained:
  assumes "wheel_wf w" "w_objs w a = Some t"
  shows "\<exists>p<60. a \<in> set (w_slots w ! p) \<and> ticks_to (w_tick w) p = expiry w a"
    and "q < 60 \<Longrightarrow> a \<in> set (w_slots w ! q) \<Longrightarrow> ticks_to (w_tick w) q \<le> expiry w a"
proof -
  let ?S = "ticks_to (w_tick w) ` {p. p < 60 \<and> a \<in> set (w_slots w ! p)}"
  from wheel_wfD(4)[OF assms(1), where a = a] assms(2)
  have "\<exists>p<60. a \<in> set (w_slots w ! p)" by simp
  then have "finite ?S" "?S \<noteq> {}" by auto
  then have "expiry w a \<in> ?S" and max: "\<And>n. n \<in> ?S \<Longrightarrow> n \<le> expiry w a"
    unfolding expiry_def by (auto intro: Max_in)
  then show "\<exists>p<60. a \<in> set (w_slots w ! p) \<and> ticks_to (w_tick w) p = expiry w a" by auto
  show "q < 60 \<Longrightarrow> a \<in> set (w_slots w ! q) \<Longrightarrow> ticks_to (w_tick w) q \<le> expiry w a"
    by (rule max) blast
qed

lemma expiry_pos: "wheel_wf w \<Longrightarrow> w_objs w a = Some t \<Longrightarrow> 0 < expiry w a"
  by (metis expiry_attained(1) ticks_to_pos)

lemma wheel_abs_obj:
  assumes "wheel_wf w" "w_objs w a = Some t"
  shows "wheel_abs w (tk_id t) =
     Some \<lparr>remaining = expiry w a, period = eff_delay (unat (tk_timeout t)),
           canceled = tk_canceled t, action = tk_cb t\<rparr>"
  using wheel_wfD(10)[OF assms] assms by (simp add: wheel_abs_def)

lemma wheel_abs_None: "wheel_wf w \<Longrightarrow> wheel_abs w i = None \<longleftrightarrow> w_timers w i = None"
  using wheel_wfD(9)[where w = w and i = i] by (auto simp: wheel_abs_def split: option.splits)

lemma HasTimer_abs: "wheel_wf w \<Longrightarrow> HasTimer i w \<longleftrightarrow> wheel_abs w i \<noteq> None"
  by (simp add: HasTimer_def wheel_abs_None)

section \<open>Every operation keeps the invariant and commutes with the abstraction\<close>

lemma push_slot_ok:
  "wheel_wf w \<Longrightarrow> pos < 60 \<Longrightarrow>
   push_slot pos a w = Inr (w\<lparr>w_slots := (w_slots w)[pos := w_slots w ! pos @ [a]]\<rparr>)"
  by (simp add: push_slot_def wheel_wfD)

lemma pushed_slots:
  assumes "length ss = 60" "pos < 60" "q < 60"
  shows "b \<in> set (ss[pos := ss ! pos @ [a]] ! q) \<longleftrightarrow> b \<in> set (ss ! q) \<or> q = pos \<and> b = a"
  using assms by (cases "q = pos") auto

lemma expiry_cong:
  assumes "w_tick w' = w_tick w"
    and "\<And>q. q < 60 \<Longrightarrow> b \<in> set (w_slots w' ! q) \<longleftrightarrow> b \<in> set (w_slots w ! q)"
  shows "expiry w' b = expiry w b"
proof -
  have "{q. q < 60 \<and> b \<in> set (w_slots w' ! q)} = {q. q < 60 \<and> b \<in> set (w_slots w ! q)}"
    using assms(2) by blast
  with assms(1) show ?thesis by (simp add: expiry_def)
qed

lemma wheel_abs_eqI:
  assumes wf: "wheel_wf w"
    and "\<And>a t. w_objs w a = Some t \<Longrightarrow> m (tk_id t) =
      Some \<lparr>remaining = expiry w a, period = eff_delay (unat (tk_timeout t)),
            canceled = tk_canceled t, action = tk_cb t\<rparr>"
    and "\<And>i. w_timers w i = None \<Longrightarrow> m i = None"
  shows "wheel_abs w = m"
proof
  fix i
  show "wheel_abs w i = m i"
    using assms(2) assms(3)[of i] wheel_wfD(9)[OF wf, where i = i] wheel_abs_obj[OF wf]
    by (cases "w_timers w i") (auto simp: wheel_abs_def assms(2))
qed

lemma TimerAdd_simulates:
  assumes wf: "wheel_wf w" and new: "\<not> HasTimer i w" and d: "unat d + 60 \<le> 2 ^ 31"
  shows "\<exists>w'. TimerAddInLoop i d cb w = Inr w' \<and> wheel_wf w'
           \<and> wheel_abs w' = timers_add i (unat d) cb (wheel_abs w)"
proof -
  let ?a = "w_next w" and ?t = "\<lparr>tk_id = i, tk_timeout = d, tk_canceled = False, tk_cb = cb\<rparr>"
  let ?pos = "(w_tick w + unat d) mod 60"
  let ?w' = "w\<lparr>w_objs := (w_objs w)(?a \<mapsto> ?t), w_next := Suc ?a,
    w_slots := (w_slots w)[?pos := w_slots w ! ?pos @ [?a]], w_timers := (w_timers w)(i \<mapsto> ?a)\<rparr>"
  note D = wheel_wfD[OF wf] and fresh = wheel_fresh[OF wf]
  have pos: "unat ((of_nat (w_tick w) + d) mod of_nat (w_capacity w)) = ?pos"
    using D(1,3) d by (simp add: unat_mod unat_word_ariths unat_of_nat)
  have none: "w_timers w i = None" using new by (simp add: HasTimer_def)
  have mem: "b \<in> set (w_slots ?w' ! q) \<longleftrightarrow> b \<in> set (w_slots w ! q) \<or> q = ?pos \<and> b = ?a"
    if "q < 60" for q b
    using pushed_slots[OF D(2) _ that, of ?pos b ?a] by simp
  have ids: "tk_id t \<noteq> i" if "w_objs w b = Some t" for b t
    using D(10)[OF that] none by auto
  have wf': "wheel_wf ?w'"
  proof (rule wheel_wfI)
    fix b assume "w_objs ?w' b \<noteq> None"
    then show "\<exists>p<60. b \<in> set (w_slots ?w' ! p)"
      using D(4)[where a = b] mem by (cases "b = ?a") (auto intro: exI[of _ ?pos])
  next
    fix p b assume "p < 60" "b \<in> set (w_slots ?w' ! p)"
    then show "w_objs ?w' b \<noteq> None" using mem D(5) by auto
  next
    fix p b t assume *: "p < 60" "b \<in> set (w_slots ?w' ! p)" "w_objs ?w' b = Some t"
    show "ticks_to (w_tick ?w') p \<le> eff_delay (unat (tk_timeout t))"
    proof (cases "b = ?a")
      case True
      with * mem[of p ?a] fresh(2)[of p] have "p = ?pos" "t = ?t" by auto
      with D(3) show ?thesis by (simp add: ticks_to_add)
    qed (use * mem[of p b] D(6)[where p = p and a = b and t = t] in auto)
  next
    fix b t assume "w_objs ?w' b = Some t"
    then show "b < w_next ?w'" "unat (tk_timeout t) + 60 \<le> 2 ^ 31"
      using D(7,8)[where a = b and t = t] d by (auto split: if_splits)
  next
    fix j b
    show "w_timers ?w' j = Some b \<longleftrightarrow> (\<exists>t. w_objs ?w' b = Some t \<and> tk_id t = j)"
      using D(9)[where i = j and a = b] D(10)[where a = b] ids fresh(1) none by auto
  qed (use D in auto)
  have "expiry ?w' b = expiry w b" if "b \<noteq> ?a" for b
    using mem that by (intro expiry_cong) auto
  moreover have "expiry ?w' ?a = eff_delay (unat d)"
    using mem fresh(2) D(3) by (intro expiry_eqI[of ?pos]) (auto simp: ticks_to_add)
  ultimately have "wheel_abs ?w' = timers_add i (unat d) cb (wheel_abs w)"
    using ids fresh(1) wheel_abs_obj[OF wf] wheel_abs_None[OF wf]
    by (intro wheel_abs_eqI[OF wf']) (auto simp: timers_add_def split: if_splits)
  moreover have "TimerAddInLoop i d cb w = Inr ?w'"
    using D(2) by (simp add: TimerAddInLoop_def Let_def pos push_slot_def)
  ultimately show ?thesis using wf' by blast
qed

lemma sint_small_u32: "unat (x :: u32) < 2 ^ 31 \<Longrightarrow> sint x = int (unat x)"
  by (simp add: sint_uint signed_take_bit_int_eq_self uint_nat del: of_nat_unat)

lemma not_le_int_pow31: "n < 2 ^ 31 \<Longrightarrow> \<not> int n \<ge> 2 ^ 31"
  by simp

lemma TimerRefresh_simulates:
  assumes wf: "wheel_wf w"
  shows "\<exists>w'. TimerRefreshInLoop i w = Inr w' \<and> wheel_wf w'
           \<and> wheel_abs w' = timers_refresh i (wheel_abs w)"
proof (cases "w_timers w i")
  case None
  then show ?thesis
    using wf wheel_abs_None[OF wf, of i] by (auto simp: TimerRefreshInLoop_def timers_refresh_def)
next
  case (Some a)
  note D = wheel_wfD[OF wf]
  from D(9)[OF Some] obtain t where t: "w_objs w a = Some t" "tk_id t = i" by blast
  let ?d = "unat (tk_timeout t)"
  let ?pos = "(w_tick w + ?d) mod 60"
  let ?w' = "w\<lparr>w_slots := (w_slots w)[?pos := w_slots w ! ?pos @ [a]]\<rparr>"
  have s: "int (w_tick w) + sint (tk_timeout t) = int (w_tick w + ?d)"
    using D(8)[OF t(1)] by (simp add: sint_small_u32)
  have "w_tick w + ?d < 2 ^ 31" using D(3) D(8)[OF t(1)] by linarith
  then have small: "\<not> int (w_tick w + ?d) \<ge> 2 ^ 31" by (rule not_le_int_pow31)
  have pos: "nat (\<bar>int n\<bar> mod int 60) = n mod 60" for n by (simp add: nat_mod_distrib)
  have run: "TimerRefreshInLoop i w = Inr ?w'"
    using Some t D(1) push_slot_ok[OF wf, of ?pos a] small
    by (simp only: TimerRefreshInLoop_def option.case Let_def s pos if_False of_nat_less_0_iff
        simp_thms mod_less_divisor zero_less_numeral)
  have mem: "b \<in> set (w_slots ?w' ! q) \<longleftrightarrow> b \<in> set (w_slots w ! q) \<or> q = ?pos \<and> b = a"
    if "q < 60" for q b
    using pushed_slots[OF D(2) _ that, of ?pos b a] by simp
  have to_pos: "ticks_to (w_tick w) ?pos = eff_delay ?d" using D(3) by (rule ticks_to_add)
  have wf': "wheel_wf ?w'"
  proof (rule wheel_wfI)
    fix b assume "w_objs ?w' b \<noteq> None"
    then show "\<exists>p<60. b \<in> set (w_slots ?w' ! p)" using D(4)[where a = b] mem by auto
  next
    fix p b u assume *: "p < 60" "b \<in> set (w_slots ?w' ! p)" "w_objs ?w' b = Some u"
    then show "ticks_to (w_tick ?w') p \<le> eff_delay (unat (tk_timeout u))"
      using mem[of p b] D(6)[where p = p and a = b and t = u] t(1) to_pos by auto
  next
    fix p b assume "p < 60" "b \<in> set (w_slots ?w' ! p)"
    then show "w_objs ?w' b \<noteq> None" using mem D(5) t(1) by auto
  next
    fix j b
    show "w_timers ?w' j = Some b \<longleftrightarrow> (\<exists>t. w_objs ?w' b = Some t \<and> tk_id t = j)"
      using D(9)[where i = j and a = b] D(10)[where a = b] by auto
  qed (use D in auto)
  have other: "expiry ?w' b = expiry w b" if "b \<noteq> a" for b
    using mem that by (intro expiry_cong) auto
  have same: "expiry ?w' a = eff_delay ?d"
    using mem D(6)[where a = a and t = t] t(1) to_pos by (intro expiry_eqI[of ?pos]) auto
  have unique: "b = a" if "w_objs w b = Some u" "tk_id u = i" for b u
    using D(10)[OF that(1)] that(2) Some by simp
  have "wheel_abs ?w' = timers_refresh i (wheel_abs w)"
  proof (rule wheel_abs_eqI[OF wf'])
    fix b u assume "w_objs ?w' b = Some u"
    then have u: "w_objs w b = Some u" by simp
    show "timers_refresh i (wheel_abs w) (tk_id u)
      = Some \<lparr>remaining = expiry ?w' b, period = eff_delay (unat (tk_timeout u)),
              canceled = tk_canceled u, action = tk_cb u\<rparr>"
    proof (cases "b = a")
      case True
      then show ?thesis
        using same u t wheel_abs_obj[OF wf t(1)] by (simp add: timers_refresh_def)
    next
      case False
      with unique u have "tk_id u \<noteq> i" by blast
      then show ?thesis
        unfolding other[OF False] using wheel_abs_obj[OF wf u] by (simp add: timers_refresh_def)
    qed
  next
    fix j assume "w_timers ?w' j = None"
    then show "timers_refresh i (wheel_abs w) j = None"
      using wheel_abs_None[OF wf, of j] by (auto simp: timers_refresh_def)
  qed
  with run wf' show ?thesis by blast
qed

lemma TimerCancel_simulates:
  assumes wf: "wheel_wf w"
  shows "wheel_wf (TimerCancelInLoop i w)
       \<and> wheel_abs (TimerCancelInLoop i w) = timers_cancel i (wheel_abs w)"
proof (cases "w_timers w i")
  case None
  then show ?thesis
    using wf wheel_abs_None[OF wf, of i] by (auto simp: TimerCancelInLoop_def timers_cancel_def)
next
  case (Some a)
  note D = wheel_wfD[OF wf]
  from D(9)[OF Some] obtain t where t: "w_objs w a = Some t" "tk_id t = i" by blast
  let ?w' = "w\<lparr>w_objs := (w_objs w)(a \<mapsto> t\<lparr>tk_canceled := True\<rparr>)\<rparr>"
  have run: "TimerCancelInLoop i w = ?w'" using Some t by (simp add: TimerCancelInLoop_def)
  have wf': "wheel_wf ?w'"
  proof (rule wheel_wfI)
    fix j b
    show "w_timers ?w' j = Some b \<longleftrightarrow> (\<exists>t. w_objs ?w' b = Some t \<and> tk_id t = j)"
      using D(9)[where i = j and a = b] D(10)[where a = b] t by auto
  next
    fix b assume "w_objs ?w' b \<noteq> None"
    then show "\<exists>p<60. b \<in> set (w_slots ?w' ! p)" using D(4)[where a = b] t by (auto split: if_splits)
  next
    fix p b u assume "p < 60" "b \<in> set (w_slots ?w' ! p)" "w_objs ?w' b = Some u"
    then show "ticks_to (w_tick ?w') p \<le> eff_delay (unat (tk_timeout u))"
      using D(6)[where p = p and a = b] t by (auto split: if_splits)
  next
    fix b u assume "w_objs ?w' b = Some u"
    then show "b < w_next ?w'" "unat (tk_timeout u) + 60 \<le> 2 ^ 31"
      using D(7,8)[where a = b] t by (auto split: if_splits)
  qed (use D in auto)
  have expiry: "expiry ?w' b = expiry w b" for b by (intro expiry_cong) auto
  have unique: "b = a" if "w_objs w b = Some u" "tk_id u = i" for b u
    using D(10)[OF that(1)] that(2) Some by simp
  have "wheel_abs ?w' = timers_cancel i (wheel_abs w)"
  proof (rule wheel_abs_eqI[OF wf'])
    fix b u assume u': "w_objs ?w' b = Some u"
    show "timers_cancel i (wheel_abs w) (tk_id u)
      = Some \<lparr>remaining = expiry ?w' b, period = eff_delay (unat (tk_timeout u)),
              canceled = tk_canceled u, action = tk_cb u\<rparr>"
    proof (cases "b = a")
      case True
      with u' have "u = t\<lparr>tk_canceled := True\<rparr>" by simp
      then show ?thesis
        unfolding expiry using t wheel_abs_obj[OF wf t(1)] True by (simp add: timers_cancel_def)
    next
      case False
      with u' have u: "w_objs w b = Some u" by simp
      with False unique have "tk_id u \<noteq> i" by blast
      then show ?thesis
        unfolding expiry using wheel_abs_obj[OF wf u] by (simp add: timers_cancel_def)
    qed
  next
    fix j assume "w_timers ?w' j = None"
    then show "timers_cancel i (wheel_abs w) j = None"
      using wheel_abs_None[OF wf, of j] by (auto simp: timers_cancel_def)
  qed
  then show ?thesis unfolding run using wf' by blast
qed

text \<open>What destroying a list of pointers does, without assuming anything of the wheel.\<close>

definition dead_in :: "nat list \<Rightarrow> 'c wheel \<Rightarrow> nat \<Rightarrow> bool" where
  "dead_in as w a \<longleftrightarrow> a \<in> set as \<and> a \<notin> set (concat (w_slots w))"

definition task_result :: "'c wheel \<Rightarrow> nat \<Rightarrow> 'c list" where
  "task_result w a = (case w_objs w a of None \<Rightarrow> []
     | Some t \<Rightarrow> if tk_canceled t then [] else [tk_cb t])"

lemma RemoveTimer_eq: "RemoveTimer i w = w\<lparr>w_timers := (w_timers w)(i := None)\<rparr>"
  by (cases "w_timers w i") (auto simp: RemoveTimer_def fun_upd_idem)

lemma wheel_update_cong:
  "(\<And>a. f a = f' a) \<Longrightarrow> (\<And>i. g i = g' i) \<Longrightarrow>
   w\<lparr>w_objs := f, w_timers := g\<rparr> = w\<lparr>w_objs := f', w_timers := g'\<rparr>"
  by (metis ext)

lemma release_ptrs_eq:
  "release_ptrs as w =
     (w\<lparr>w_objs := (\<lambda>a. if dead_in as w a then None else w_objs w a),
        w_timers := (\<lambda>i. if \<exists>a t. dead_in as w a \<and> w_objs w a = Some t \<and> tk_id t = i
                         then None else w_timers w i)\<rparr>,
      concat (map (task_result w) (filter (dead_in as w) (remdups as))))"
proof (induction as arbitrary: w)
  case Nil
  then show ?case by (simp add: dead_in_def)
next
  case (Cons a as)
  show ?case
  proof (cases "a \<in> set as \<or> a \<in> set (concat (w_slots w))")
    case True
    then have "dead_in (a # as) w = dead_in as w" by (auto simp: dead_in_def fun_eq_iff)
    moreover have "filter (dead_in as w) (remdups (a # as)) = filter (dead_in as w) (remdups as)"
      using True by (auto simp: dead_in_def)
    ultimately show ?thesis using True Cons.IH[of w] by (simp del: set_concat)
  next
    case False
    define w1 where "w1 = fst (TimerTask_destroy a w)"
    have w1: "w_slots w1 = w_slots w" "w_objs w1 = (w_objs w)(a := None)"
      "w_timers w1 = (\<lambda>i. if \<exists>t. w_objs w a = Some t \<and> tk_id t = i then None else w_timers w i)"
      "w1 = w\<lparr>w_objs := w_objs w1, w_timers := w_timers w1\<rparr>"
      by (auto simp: w1_def TimerTask_destroy_def RemoveTimer_eq fun_eq_iff split: option.splits)
    have f1: "snd (TimerTask_destroy a w) = task_result w a"
      by (simp add: TimerTask_destroy_def task_result_def split: option.splits)
    have dead: "dead_in (a # as) w b \<longleftrightarrow> b = a \<or> dead_in as w b" "\<not> dead_in as w a"
      "dead_in as w1 b \<longleftrightarrow> dead_in as w b" for b
      using False w1(1) by (auto simp: dead_in_def)
    have "concat (map (task_result w1) (filter (dead_in as w) xs))
        = concat (map (task_result w) (filter (dead_in as w) xs))"
      for xs using dead(2) by (induction xs) (auto simp: task_result_def w1(2))
    moreover have "dead_in as w1 = dead_in as w" using dead(3) by blast
    ultimately have "snd (release_ptrs as w1) = concat (map (task_result w) (filter (dead_in as w) (remdups as)))"
      using Cons.IH[of w1] by simp
    moreover have flt: "filter (dead_in (a # as) w) (remdups (a # as)) = a # filter (dead_in as w) (remdups as)"
      using False dead by (auto intro!: filter_cong)
    moreover have "fst (release_ptrs as w1) =
      w\<lparr>w_objs := (\<lambda>b. if dead_in (a # as) w b then None else w_objs w b),
        w_timers := (\<lambda>i. if \<exists>b t. dead_in (a # as) w b \<and> w_objs w b = Some t \<and> tk_id t = i
                         then None else w_timers w i)\<rparr>"
    proof -
      have "w1\<lparr>w_objs := f, w_timers := g\<rparr> = w\<lparr>w_objs := f, w_timers := g\<rparr>" for f g
        by (subst w1(4)) simp
      note base = this
      show ?thesis
        unfolding Cons.IH[of w1] fst_conv dead
        by (rule trans[OF base], intro wheel_update_cong) (use dead(2) in \<open>auto simp: w1(2,3)\<close>)
    qed
    ultimately show ?thesis
      using False f1 flt by (simp add: case_prod_unfold Let_def w1_def prod_eq_iff)
  qed
qed

section \<open>One tick\<close>

text \<open>The actions a tick runs: those of the due timers, each once, in some order.\<close>

definition runs_due :: "'c timers \<Rightarrow> 'c list \<Rightarrow> bool" where
  "runs_due m fs \<longleftrightarrow>
     (\<exists>ids. distinct ids \<and> set ids = timers_due m \<and> fs = map (\<lambda>i. action (the (m i))) ids)"

definition advance :: "'c wheel \<Rightarrow> 'c wheel" where
  "advance w = (let tick = (w_tick w + 1) mod 60 in
     w\<lparr>w_tick := tick, w_slots := (w_slots w)[tick := []]\<rparr>)"

lemma RunTimerTask_eq:
  "wheel_wf w \<Longrightarrow> RunTimerTask w = Inr (release_ptrs (w_slots w ! ((w_tick w + 1) mod 60)) (advance w))"
  by (simp add: RunTimerTask_def advance_def Let_def wheel_wfD)

lemma advance_simps [simp]:
  "w_objs (advance w) = w_objs w" "w_timers (advance w) = w_timers w"
  "w_next (advance w) = w_next w" "w_capacity (advance w) = w_capacity w"
  "w_tick (advance w) = (w_tick w + 1) mod 60"
  by (simp_all add: advance_def Let_def)

lemma advance_slots:
  assumes "wheel_wf w"
  shows "length (w_slots (advance w)) = 60"
    and "p < 60 \<Longrightarrow> a \<in> set (w_slots (advance w) ! p) \<longleftrightarrow>
           p \<noteq> (w_tick w + 1) mod 60 \<and> a \<in> set (w_slots w ! p)"
  using wheel_wfD(2)[OF assms] by (auto simp: advance_def Let_def nth_list_update)

lemma in_slots:
  "length ss = 60 \<Longrightarrow> a \<in> set (concat ss) \<longleftrightarrow> (\<exists>p<60. a \<in> set (ss ! p))"
  by (metis in_set_conv_nth set_concat UN_iff)

text \<open>The objects that die in a tick are those whose last reference is in the cleared slot.\<close>

lemma dead_in_tick:
  assumes wf: "wheel_wf w" and t: "w_objs w a = Some t"
  shows "dead_in (w_slots w ! ((w_tick w + 1) mod 60)) (advance w) a \<longleftrightarrow> expiry w a = 1"
    (is "?dead \<longleftrightarrow> _")
proof -
  let ?k = "(w_tick w + 1) mod 60"
  obtain p where p: "p < 60" "a \<in> set (w_slots w ! p)" "ticks_to (w_tick w) p = expiry w a"
    using expiry_attained(1)[OF wf t] by blast
  note max = expiry_attained(2)[OF wf t]
  have one: "ticks_to (w_tick w) q = 1 \<longleftrightarrow> q = ?k" if "q < 60" for q
    using ticks_to_1[OF wheel_wfD(3)[OF wf] that] .
  have dead: "?dead \<longleftrightarrow> a \<in> set (w_slots w ! ?k) \<and> (\<forall>q<60. a \<in> set (w_slots w ! q) \<longrightarrow> q = ?k)"
    unfolding dead_in_def in_slots[OF advance_slots(1)[OF wf]] using advance_slots(2)[OF wf] by blast
  show ?thesis
  proof
    assume ?dead
    then have "p = ?k" using dead p by blast
    then show "expiry w a = 1" using one[OF p(1)] p(3) by simp
  next
    assume e: "expiry w a = 1"
    have "q = ?k" if "q < 60" "a \<in> set (w_slots w ! q)" for q
      using max[OF that] e one[OF that(1)] ticks_to_pos[of "w_tick w" q] by linarith
    then show ?dead using dead p by blast
  qed
qed

lemma expiry_tick:
  assumes wf: "wheel_wf w" and t: "w_objs w a = Some t" and e: "expiry w a \<noteq> 1"
    and s: "w_slots w' = w_slots (advance w)" "w_tick w' = w_tick (advance w)"
  shows "expiry w' a = expiry w a - 1" and "\<exists>p<60. a \<in> set (w_slots w' ! p)"
proof -
  let ?k = "(w_tick w + 1) mod 60"
  note tick = wheel_wfD(3)[OF wf]
  obtain p where p: "p < 60" "a \<in> set (w_slots w ! p)" "ticks_to (w_tick w) p = expiry w a"
    using expiry_attained(1)[OF wf t] by blast
  note max = expiry_attained(2)[OF wf t]
  have pk: "p \<noteq> ?k" using ticks_to_1[OF tick p(1)] p(3) e by auto
  then have mem: "a \<in> set (w_slots w' ! p)" using advance_slots(2)[OF wf p(1)] p(2) s by simp
  then show "\<exists>p<60. a \<in> set (w_slots w' ! p)" using p(1) by blast
  show "expiry w' a = expiry w a - 1"
  proof (rule expiry_eqI[OF p(1) mem])
    show "ticks_to (w_tick w') p = expiry w a - 1"
      using ticks_to_step[OF tick p(1) pk] p(3) s by simp
  next
    fix q assume q: "q < 60" "a \<in> set (w_slots w' ! q)"
    then have "q \<noteq> ?k" "a \<in> set (w_slots w ! q)" using advance_slots(2)[OF wf q(1)] s by auto
    then show "ticks_to (w_tick w') q \<le> expiry w a - 1"
      using ticks_to_step[OF tick q(1)] max[OF q(1)] s by fastforce
  qed
qed

text \<open>The state after a tick, with the objects that die written by their time to expiry.\<close>

lemma tick_state:
  assumes wf: "wheel_wf w"
  defines "as \<equiv> w_slots w ! ((w_tick w + 1) mod 60)"
  defines "w' \<equiv> fst (release_ptrs as (advance w))"
  shows "w_capacity w' = 60" and "w_slots w' = w_slots (advance w)"
    and "w_tick w' = w_tick (advance w)" and "w_next w' = w_next w"
    and "w_objs w' a = Some t \<longleftrightarrow> w_objs w a = Some t \<and> expiry w a \<noteq> 1"
    and "w_timers w' i = Some a \<longleftrightarrow> w_timers w i = Some a \<and> expiry w a \<noteq> 1"
proof -
  have w': "w' = (advance w)\<lparr>w_objs := (\<lambda>a. if dead_in as (advance w) a then None else w_objs w a),
      w_timers := (\<lambda>i. if \<exists>a t. dead_in as (advance w) a \<and> w_objs w a = Some t \<and> tk_id t = i
                       then None else w_timers w i)\<rparr>"
    by (simp only: w'_def release_ptrs_eq fst_conv advance_simps)
  show "w_capacity w' = 60" "w_slots w' = w_slots (advance w)"
    "w_tick w' = w_tick (advance w)" "w_next w' = w_next w"
    using wheel_wfD(1)[OF wf] by (simp_all add: w')
  note dead = dead_in_tick[OF wf, folded as_def]
  show "w_objs w' a = Some t \<longleftrightarrow> w_objs w a = Some t \<and> expiry w a \<noteq> 1"
    using dead by (auto simp: w')
  show "w_timers w' i = Some a \<longleftrightarrow> w_timers w i = Some a \<and> expiry w a \<noteq> 1"
  proof -
    have "(\<exists>b t. dead_in as (advance w) b \<and> w_objs w b = Some t \<and> tk_id t = i) \<longleftrightarrow> expiry w a = 1"
      if "w_timers w i = Some a"
    proof -
      from wheel_wfD(9)[OF wf that] obtain t where t: "w_objs w a = Some t" "tk_id t = i" by blast
      have "b = a" if "w_objs w b = Some u" "tk_id u = i" for b u
        using wheel_wfD(10)[OF wf that(1)] that(2) \<open>w_timers w i = Some a\<close> by simp
      then show ?thesis using dead t by blast
    qed
    then show ?thesis by (auto simp: w')
  qed
qed

lemma tick_wf:
  assumes wf: "wheel_wf w"
  shows "wheel_wf (fst (release_ptrs (w_slots w ! ((w_tick w + 1) mod 60)) (advance w)))"
    (is "wheel_wf ?w'")
proof (rule wheel_wfI)
  note S = tick_state[OF wf] and D = wheel_wfD[OF wf]
  show "w_capacity ?w' = 60" "length (w_slots ?w') = 60" "w_tick ?w' < 60"
    using S(1,2,3) advance_slots(1)[OF wf] by simp_all
  show "\<exists>p<60. a \<in> set (w_slots ?w' ! p)" if "w_objs ?w' a \<noteq> None" for a
    using that S(5) expiry_tick(2)[OF wf _ _ S(2,3)] by blast
  show "a < w_next ?w'" "unat (tk_timeout t) + 60 \<le> 2 ^ 31" if "w_objs ?w' a = Some t" for a t
    using that S(4,5) D(7,8) by auto
  show "w_timers ?w' i = Some a \<longleftrightarrow> (\<exists>t. w_objs ?w' a = Some t \<and> tk_id t = i)" for i a
    using S(5,6) D(9)[where i = i and a = a] D(10)[where a = a] by auto
  fix p a assume "p < 60" "a \<in> set (w_slots ?w' ! p)"
  then have p: "p < 60" "p \<noteq> (w_tick w + 1) mod 60" "a \<in> set (w_slots w ! p)"
    using S(2) advance_slots(2)[OF wf] by auto
  from D(5)[OF p(1,3)] obtain t where t: "w_objs w a = Some t" by blast
  note step = ticks_to_step[OF D(3) p(1,2)]
  show "w_objs ?w' a \<noteq> None"
    using S(5) t expiry_attained(2)[OF wf t p(1,3)] step ticks_to_pos[of "(w_tick w + 1) mod 60" p]
    by fastforce
  show "ticks_to (w_tick ?w') p \<le> eff_delay (unat (tk_timeout u))" if "w_objs ?w' a = Some u" for u
    using that S(3,5) D(6)[OF p(1,3)] step by simp
qed

lemma concat_map_singletons:
  "concat (map (\<lambda>a. if P a then [f a] else []) xs) = map f (filter P xs)"
  by (induction xs) auto

lemma tick_runs_due:
  assumes wf: "wheel_wf w"
  shows "runs_due (wheel_abs w)
     (snd (release_ptrs (w_slots w ! ((w_tick w + 1) mod 60)) (advance w)))"
proof -
  let ?as = "w_slots w ! ((w_tick w + 1) mod 60)"
  define obj where "obj a = the (w_objs w a)" for a
  define as where "as = filter (\<lambda>a. \<not> tk_canceled (obj a)) (filter (dead_in ?as (advance w)) (remdups ?as))"
  have live: "w_objs w a = Some (obj a)" if "a \<in> set ?as" for a
    using wheel_wfD(5)[OF wf _ that] by (auto simp: obj_def)
  have mem: "a \<in> set as \<longleftrightarrow> w_objs w a = Some (obj a) \<and> expiry w a = 1 \<and> \<not> tk_canceled (obj a)" for a
    using live dead_in_tick[OF wf] by (auto simp: as_def) (auto simp: dead_in_def)
  have fs: "snd (release_ptrs ?as (advance w)) = map (\<lambda>a. tk_cb (obj a)) as"
  proof -
    have "map (task_result (advance w)) (filter P (remdups ?as))
        = map (\<lambda>a. if \<not> tk_canceled (obj a) then [tk_cb (obj a)] else []) (filter P (remdups ?as))" for P
      using live by (auto simp: task_result_def)
    then show ?thesis unfolding release_ptrs_eq snd_conv as_def concat_map_singletons[symmetric] by simp
  qed
  have abs: "wheel_abs w (tk_id (obj a)) = Some \<lparr>remaining = 1, period = eff_delay (unat (tk_timeout (obj a))),
      canceled = False, action = tk_cb (obj a)\<rparr>" if "a \<in> set as" for a
    using that wheel_abs_obj[OF wf, of a "obj a"] by (simp add: mem)
  let ?ids = "map (\<lambda>a. tk_id (obj a)) as"
  have "inj_on (\<lambda>a. tk_id (obj a)) (set as)"
    by (rule inj_onI) (metis mem wheel_wfD(10)[OF wf] option.inject)
  then have "distinct ?ids" by (simp add: distinct_map as_def)
  moreover have "set ?ids = timers_due (wheel_abs w)"
  proof
    show "set ?ids \<subseteq> timers_due (wheel_abs w)" using abs by (auto simp: timers_due_def)
    show "timers_due (wheel_abs w) \<subseteq> set ?ids"
    proof
      fix i assume "i \<in> timers_due (wheel_abs w)"
      then obtain a u where a: "w_timers w i = Some a" and u: "wheel_abs w i = Some u" "remaining u \<le> 1" "\<not> canceled u"
        by (auto simp: timers_due_def wheel_abs_def split: option.splits)
      from wheel_wfD(9)[OF wf a] obtain t where t: "w_objs w a = Some t" "tk_id t = i" by blast
      then have o: "obj a = t" by (simp add: obj_def)
      have "a \<in> set as"
        using expiry_pos[OF wf t(1)] wheel_abs_obj[OF wf t(1)] t u o by (auto simp: mem)
      then show "i \<in> set ?ids" using t(2) o by force
    qed
  qed
  moreover have "snd (release_ptrs ?as (advance w)) = map (\<lambda>i. action (the (wheel_abs w i))) ?ids"
    unfolding fs using abs by simp
  ultimately show ?thesis unfolding runs_due_def by blast
qed

lemma RunTimerTask_simulates:
  assumes wf: "wheel_wf w"
  shows "\<exists>w' fs. RunTimerTask w = Inr (w', fs) \<and> wheel_wf w'
           \<and> wheel_abs w' = timers_tick (wheel_abs w) \<and> runs_due (wheel_abs w) fs"
proof -
  let ?as = "w_slots w ! ((w_tick w + 1) mod 60)"
  let ?w' = "fst (release_ptrs ?as (advance w))" and ?fs = "snd (release_ptrs ?as (advance w))"
  note S = tick_state[OF wf] and wf' = tick_wf[OF wf]
  have "wheel_abs ?w' = timers_tick (wheel_abs w)"
  proof (rule wheel_abs_eqI[OF wf'])
    fix a t assume "w_objs ?w' a = Some t"
    then have t: "w_objs w a = Some t" "expiry w a \<noteq> 1" using S(5) by auto
    show "timers_tick (wheel_abs w) (tk_id t)
      = Some \<lparr>remaining = expiry ?w' a, period = eff_delay (unat (tk_timeout t)),
              canceled = tk_canceled t, action = tk_cb t\<rparr>"
      using t(2) expiry_pos[OF wf t(1)] wheel_abs_obj[OF wf t(1)] expiry_tick(1)[OF wf t S(2,3)]
      by (simp add: timers_tick_def)
  next
    fix i assume *: "w_timers ?w' i = None"
    show "timers_tick (wheel_abs w) i = None"
    proof (cases "w_timers w i")
      case None
      then show ?thesis using wheel_abs_None[OF wf, of i] by (simp add: timers_tick_def)
    next
      case (Some a)
      with * S(6)[of i a] have "expiry w a = 1" by simp
      then show ?thesis
        using Some wheel_wfD(9)[OF wf Some] by (auto simp: timers_tick_def wheel_abs_def)
    qed
  qed
  moreover have "runs_due (wheel_abs w) ?fs" by (rule tick_runs_due[OF wf])
  ultimately show ?thesis using RunTimerTask_eq[OF wf] wf' by (metis prod.collapse)
qed

section \<open>Runs of the wheel\<close>

datatype 'c timer_op = Add u64 u32 'c | Refresh u64 | Cancel u64 | Tick

fun wheel_step :: "'c timer_op \<Rightarrow> 'c wheel \<Rightarrow> fault + ('c wheel \<times> 'c list)" where
  "wheel_step (Add i d cb) w = and_then (TimerAddInLoop i d cb w) (\<lambda>w. Inr (w, []))"
| "wheel_step (Refresh i) w = and_then (TimerRefreshInLoop i w) (\<lambda>w. Inr (w, []))"
| "wheel_step (Cancel i) w = Inr (TimerCancelInLoop i w, [])"
| "wheel_step Tick w = RunTimerTask w"

fun timers_step :: "'c timer_op \<Rightarrow> 'c timers \<Rightarrow> 'c timers" where
  "timers_step (Add i d cb) m = timers_add i (unat d) cb m"
| "timers_step (Refresh i) m = timers_refresh i m"
| "timers_step (Cancel i) m = timers_cancel i m"
| "timers_step Tick m = timers_tick m"

definition timer_spec :: "'c timer_op \<Rightarrow> 'c timers \<Rightarrow> 'c list \<Rightarrow> 'c timers \<Rightarrow> bool" where
  "timer_spec op m fs m' \<longleftrightarrow> m' = timers_step op m
     \<and> (case op of Tick \<Rightarrow> runs_due m fs | _ \<Rightarrow> fs = [])"

text \<open>A timer is added under an id not in use, with a delay the int arithmetic can hold.\<close>

definition timer_ok :: "'c timer_op \<Rightarrow> 'c timers \<Rightarrow> bool" where
  "timer_ok op m \<longleftrightarrow>
     (case op of Add i d cb \<Rightarrow> m i = None \<and> unat d + 60 \<le> 2 ^ 31 | _ \<Rightarrow> True)"

lemma wheel_step_simulates:
  assumes wf: "wheel_wf w" and ok: "timer_ok op (wheel_abs w)"
  shows "\<exists>w' fs. wheel_step op w = Inr (w', fs) \<and> wheel_wf w' \<and> timer_spec op (wheel_abs w) fs (wheel_abs w')"
proof (cases op)
  case (Add i d cb)
  with ok have "\<not> HasTimer i w" "unat d + 60 \<le> 2 ^ 31"
    by (simp_all add: timer_ok_def HasTimer_abs[OF wf])
  from TimerAdd_simulates[OF wf this, of cb] show ?thesis
    by (elim exE conjE) (simp add: Add timer_spec_def)
next
  case (Refresh i)
  from TimerRefresh_simulates[OF wf, of i] show ?thesis
    by (elim exE conjE) (simp add: Refresh timer_spec_def)
next
  case (Cancel i)
  from TimerCancel_simulates[OF wf, of i] show ?thesis by (simp add: Cancel timer_spec_def)
next
  case Tick
  from RunTimerTask_simulates[OF wf] show ?thesis
    by (elim exE conjE) (simp add: Tick timer_spec_def)
qed

interpretation wheel_timers: op_simulation wheel_step timer_spec timer_ok wheel_wf wheel_abs
  by (rule op_simulation.intro) (rule wheel_step_simulates)

abbreviation timers_run_ok :: "'c timer_op list \<Rightarrow> 'c timers \<Rightarrow> bool" where
  "timers_run_ok \<equiv> all_ok timer_spec timer_ok"

abbreviation wheel_run :: "'c timer_op list \<Rightarrow> 'c wheel \<Rightarrow> fault + ('c wheel \<times> 'c list list)" where
  "wheel_run \<equiv> run_steps wheel_step"

text \<open>The precondition of a run, followed along the abstract states it goes through.\<close>

fun timers_ok_along :: "'c timer_op list \<Rightarrow> 'c timers \<Rightarrow> bool" where
  "timers_ok_along [] m \<longleftrightarrow> True"
| "timers_ok_along (op # ops) m \<longleftrightarrow> timer_ok op m \<and> timers_ok_along ops (timers_step op m)"

lemma timers_ok_along: "timers_ok_along ops m \<Longrightarrow> timers_run_ok ops m"
  by (induction ops arbitrary: m) (auto simp: timer_spec_def)

lemma timer_spec_run:
  "spec_run timer_spec ops m outs m' \<Longrightarrow> m' = fold timers_step ops m"
  by (induction ops arbitrary: m outs)
     (auto simp: timer_spec_def elim: spec_run.elims(2))

section \<open>How long a timer lasts\<close>

fun touches :: "u64 \<Rightarrow> 'c timer_op \<Rightarrow> bool" where
  "touches i (Add j d cb) \<longleftrightarrow> j = i"
| "touches i (Refresh j) \<longleftrightarrow> j = i"
| "touches i (Cancel j) \<longleftrightarrow> j = i"
| "touches i Tick \<longleftrightarrow> False"

fun adds_action :: "'c \<Rightarrow> 'c timer_op \<Rightarrow> bool" where
  "adds_action x (Add j d cb) \<longleftrightarrow> cb = x"
| "adds_action x _ \<longleftrightarrow> False"

definition ticks_in :: "'c timer_op list \<Rightarrow> nat" where
  "ticks_in ops = length (filter (\<lambda>op. op = Tick) ops)"

lemma ticks_in_simps [simp]:
  "ticks_in [] = 0" "ticks_in (op # ops) = (if op = Tick then Suc (ticks_in ops) else ticks_in ops)"
  by (simp_all add: ticks_in_def)

lemmas timers_defs = timers_add_def timers_refresh_def timers_cancel_def timers_tick_def

lemma untouched_step:
  assumes "m i = Some t" "\<not> touches i op" "op = Tick \<Longrightarrow> 1 < remaining t"
  shows "timers_step op m i = Some (t\<lparr>remaining := remaining t - (if op = Tick then 1 else 0)\<rparr>)"
  using assms by (cases op) (auto simp: timers_defs)

lemma untouched_run:
  "m i = Some t \<Longrightarrow> (\<And>op. op \<in> set ops \<Longrightarrow> \<not> touches i op) \<Longrightarrow> ticks_in ops < remaining t \<Longrightarrow>
   fold timers_step ops m i = Some (t\<lparr>remaining := remaining t - ticks_in ops\<rparr>)"
proof (induction ops arbitrary: m t)
  case (Cons op ops)
  let ?t = "t\<lparr>remaining := remaining t - (if op = Tick then 1 else 0)\<rparr>"
  have "timers_step op m i = Some ?t"
    using Cons.prems by (intro untouched_step) (auto split: if_splits)
  with Cons.IH[of "timers_step op m" ?t] Cons.prems show ?case by (auto split: if_splits)
qed simp

lemma runs_due_action:
  "runs_due m fs \<Longrightarrow> x \<in> set fs \<Longrightarrow>
   \<exists>i t. m i = Some t \<and> remaining t \<le> 1 \<and> \<not> canceled t \<and> action t = x"
  by (force simp: runs_due_def timers_due_def)

text \<open>An action that no live timer will run keeps this property and is not run, unless added.\<close>

lemma action_source:
  assumes "timers_step op m j = Some t" "\<not> adds_action (action t) op"
  obtains t0 where "m j = Some t0" "action t0 = action t" "canceled t0 \<longrightarrow> canceled t"
    "\<not> touches j op \<longrightarrow> remaining t = remaining t0 - (if op = Tick then 1 else 0)"
  using assms by (cases op) (auto simp: timers_defs split: option.splits if_splits)

lemma cancelled_silent:
  "spec_run timer_spec ops m outs m' \<Longrightarrow> (\<And>op. op \<in> set ops \<Longrightarrow> \<not> adds_action x op) \<Longrightarrow>
   (\<And>j t. m j = Some t \<Longrightarrow> action t = x \<Longrightarrow> canceled t) \<Longrightarrow> x \<notin> set (concat outs)"
proof (induction ops arbitrary: m outs)
  case (Cons op ops)
  from Cons.prems(1) obtain fs os b where outs: "outs = fs # os"
    and b: "timer_spec op m fs b" "spec_run timer_spec ops b os m'"
    by (auto simp: spec_run_Cons)
  have "canceled t" if "b j = Some t" "action t = x" for j t
    using that b(1) Cons.prems(2)[of op] Cons.prems(3) by (auto simp: timer_spec_def elim!: action_source)
  then have "x \<notin> set (concat os)" using Cons.IH[OF b(2)] Cons.prems(2) by simp
  moreover have "x \<notin> set fs"
    using b(1) Cons.prems(3) runs_due_action[of m fs x]
    by (fastforce simp: timer_spec_def split: timer_op.splits)
  ultimately show ?case by (simp add: outs)
qed (simp add: spec_run_Nil)

lemma waiting_silent:
  "spec_run timer_spec ops m outs m' \<Longrightarrow> (\<And>op. op \<in> set ops \<Longrightarrow> \<not> adds_action x op \<and> \<not> touches i op) \<Longrightarrow>
   (\<And>j t. m j = Some t \<Longrightarrow> action t = x \<Longrightarrow> j = i \<and> ticks_in ops < remaining t) \<Longrightarrow>
   x \<notin> set (concat outs)"
proof (induction ops arbitrary: m outs)
  case (Cons op ops)
  from Cons.prems(1) obtain fs os b where outs: "outs = fs # os"
    and b: "timer_spec op m fs b" "spec_run timer_spec ops b os m'"
    by (auto simp: spec_run_Cons)
  have "j = i \<and> ticks_in ops < remaining t" if "b j = Some t" "action t = x" for j t
    using that b(1) Cons.prems(2)[of op] Cons.prems(3)[of j]
    by (auto simp: timer_spec_def elim!: action_source split: if_splits)
  then have "x \<notin> set (concat os)" using Cons.IH[OF b(2)] Cons.prems(2) by simp
  moreover have "x \<notin> set fs"
    using b(1) Cons.prems(3) runs_due_action[of m fs x]
    by (fastforce simp: timer_spec_def split: timer_op.splits)
  ultimately show ?case by (simp add: outs)
qed (simp add: spec_run_Nil)

lemma own_run:
  "spec_run timer_spec ops m outs m' \<Longrightarrow> (\<And>op. op \<in> set ops \<Longrightarrow> \<not> adds_action x op) \<Longrightarrow>
   m' j = Some u \<Longrightarrow> action u = x \<Longrightarrow> (\<And>k t. m k = Some t \<Longrightarrow> action t = x \<Longrightarrow> k = i) \<Longrightarrow> j = i"
proof (induction ops arbitrary: m outs)
  case (Cons op ops)
  from Cons.prems(1) obtain fs os b where b: "timer_spec op m fs b" "spec_run timer_spec ops b os m'"
    by (auto simp: spec_run_Cons)
  then have rest: "spec_run timer_spec ops (timers_step op m) os m'" by (simp add: timer_spec_def)
  have "k = i" if "timers_step op m k = Some t" "action t = x" for k t
    using that Cons.prems(2)[of op] Cons.prems(5) by (auto elim!: action_source)
  then show ?case using Cons.IH[OF rest] Cons.prems by auto
qed (simp add: spec_run_Nil)

text \<open>A timer left alone survives \<open>remaining - 1\<close> ticks and ends with the next one.\<close>

lemma timer_lasts:
  assumes wf: "wheel_wf w" and t: "wheel_abs w i = Some t" "remaining t = Suc (ticks_in ops)"
    and ok: "timers_ok_along ops (wheel_abs w)"
    and ops: "\<And>op. op \<in> set ops \<Longrightarrow> \<not> adds_action (action t) op \<and> \<not> touches i op"
    and own: "\<And>j u. wheel_abs w j = Some u \<Longrightarrow> action u = action t \<Longrightarrow> j = i"
  shows "\<exists>w2 outs w3 fs. wheel_run ops w = Inr (w2, outs) \<and> HasTimer i w2
     \<and> action t \<notin> set (concat outs) \<and> RunTimerTask w2 = Inr (w3, fs) \<and> \<not> HasTimer i w3
     \<and> (action t \<in> set fs \<longleftrightarrow> \<not> canceled t) \<and> wheel_wf w2 \<and> wheel_wf w3"
proof -
  from wheel_timers.run_simulates[OF wf timers_ok_along[OF ok]]
  obtain w2 outs where run: "wheel_run ops w = Inr (w2, outs)" "wheel_wf w2"
    "spec_run timer_spec ops (wheel_abs w) outs (wheel_abs w2)" by blast
  have t2: "wheel_abs w2 i = Some (t\<lparr>remaining := 1\<rparr>)"
    using untouched_run[of "wheel_abs w" i t ops] t(1) ops t(2) timer_spec_run[OF run(3)] by simp
  have silent: "action t \<notin> set (concat outs)"
  proof (rule waiting_silent[OF run(3) ops])
    fix j u assume u: "wheel_abs w j = Some u" "action u = action t"
    with own have "j = i" by blast
    with u t show "j = i \<and> ticks_in ops < remaining u" by simp
  qed
  from RunTimerTask_simulates[OF run(2)] obtain w3 fs where tick: "RunTimerTask w2 = Inr (w3, fs)"
    "wheel_wf w3" "wheel_abs w3 = timers_tick (wheel_abs w2)" "runs_due (wheel_abs w2) fs" by blast
  have own2: "j = i" if "wheel_abs w2 j = Some u" "action u = action t" for j u
    using own_run[OF run(3) _ that] ops own by blast
  have gone: "wheel_abs w3 i = None" by (simp add: tick(3) timers_tick_def t2)
  have "action t \<in> set fs \<longleftrightarrow> \<not> canceled t"
  proof
    assume "action t \<in> set fs"
    from runs_due_action[OF tick(4) this] obtain j u
      where "wheel_abs w2 j = Some u" "\<not> canceled u" "action u = action t" by blast
    with own2[of j u] t2 show "\<not> canceled t" by auto
  next
    assume "\<not> canceled t"
    with t2 have "i \<in> timers_due (wheel_abs w2)" by (simp add: timers_due_def)
    then show "action t \<in> set fs" using tick(4) t2 by (force simp: runs_due_def)
  qed
  then show ?thesis using run tick silent t2 gone HasTimer_abs by blast
qed

lemma wheel_abs_new: "wheel_abs TimerWheel_new = (\<lambda>_. None)"
  by (simp add: wheel_abs_def TimerWheel_new_def fun_eq_iff)

lemma timers_run_fold:
  assumes "wheel_wf w" "timers_ok_along ops (wheel_abs w)"
  shows "\<exists>w' outs. wheel_run ops w = Inr (w', outs) \<and> wheel_wf w'
    \<and> spec_run timer_spec ops (wheel_abs w) outs (wheel_abs w')
    \<and> wheel_abs w' = fold timers_step ops (wheel_abs w)"
  using wheel_timers.run_simulates[OF assms(1) timers_ok_along[OF assms(2)]] timer_spec_run by blast

section \<open>Properties\<close>

text \<open>
  C29. From the wheel the constructor builds, any sequence of additions (under ids not in use,
  with delays up to 2^31 - 60), refreshes, cancellations and ticks runs without a fault and does
  what the abstract timers do: each timer ends when its ticks are used up, refreshing restores
  its period, each tick runs the actions of exactly the due timers that were not cancelled, each
  once, and HasTimer tells which ids are still pending.
\<close>

theorem wheel_refines_timers:
  assumes "timers_ok_along ops (\<lambda>_. None)"
  shows "\<exists>w outs. wheel_run ops TimerWheel_new = Inr (w, outs) \<and> wheel_wf w
     \<and> spec_run timer_spec ops (\<lambda>_. None) outs (wheel_abs w)
     \<and> (\<forall>i. HasTimer i w \<longleftrightarrow> fold timers_step ops (\<lambda>_. None) i \<noteq> None)"
  using timers_run_fold[OF wheel_wf_new, of ops] assms HasTimer_abs
  unfolding wheel_abs_new by metis

theorem wheel_refines_timers_witness:
  defines "ops \<equiv> [Add 1 2 CHR ''a'', Tick, Refresh 1, Add 2 1 CHR ''b'', Cancel 2, Tick, Tick]"
  shows "\<exists>w outs. wheel_run ops TimerWheel_new = Inr (w, outs) \<and> wheel_wf w
     \<and> spec_run timer_spec ops (\<lambda>_. None) outs (wheel_abs w)
     \<and> (\<forall>i. HasTimer i w \<longleftrightarrow> fold timers_step ops (\<lambda>_. None) i \<noteq> None)"
  by (rule wheel_refines_timers) (simp add: ops_def timer_ok_def timers_defs)

text \<open>Operations that neither name the timer \<open>i\<close> nor bring in another timer with its action.\<close>

definition leaves_alone :: "u64 \<Rightarrow> 'c \<Rightarrow> 'c timer_op list \<Rightarrow> bool" where
  "leaves_alone i cb ops \<longleftrightarrow> list_all (\<lambda>op. \<not> touches i op \<and> \<not> adds_action cb op) ops"

lemma timer_lasts_alone:
  assumes wf: "wheel_wf w" and ok: "timers_ok_along ops (wheel_abs w)"
    and t: "wheel_abs w i = Some \<lparr>remaining = n, period = p, canceled = c, action = cb\<rparr>"
    and n: "n = Suc (ticks_in ops)" and alone: "leaves_alone i cb ops"
    and own: "\<forall>j u. wheel_abs w j = Some u \<longrightarrow> action u = cb \<longrightarrow> j = i"
  shows "\<exists>w2 outs w3 fs. wheel_run ops w = Inr (w2, outs) \<and> HasTimer i w2 \<and> cb \<notin> set (concat outs)
     \<and> RunTimerTask w2 = Inr (w3, fs) \<and> (cb \<in> set fs \<longleftrightarrow> \<not> c) \<and> \<not> HasTimer i w3"
proof -
  note L = timer_lasts[OF wf t _ ok, unfolded timer.select_convs, OF n]
  have "\<not> adds_action cb op \<and> \<not> touches i op" if "op \<in> set ops" for op
    using alone that by (simp add: leaves_alone_def list_all_iff)
  with L own show ?thesis by blast
qed

definition action_unused :: "'c \<Rightarrow> 'c wheel \<Rightarrow> bool" where
  "action_unused cb w \<longleftrightarrow> (\<forall>a t. w_objs w a = Some t \<longrightarrow> tk_cb t \<noteq> cb)"

lemma wheel_abs_source:
  assumes "wheel_wf w" "wheel_abs w j = Some u"
  shows "\<exists>a t. w_objs w a = Some t \<and> tk_id t = j \<and> action u = tk_cb t"
proof -
  from assms(2) obtain a where a: "w_timers w j = Some a"
    by (auto simp: wheel_abs_def split: option.splits)
  from wheel_wfD(9)[OF assms(1) a] obtain t where t: "w_objs w a = Some t" "tk_id t = j" by blast
  from wheel_abs_obj[OF assms(1) t(1)] assms(2) t show ?thesis by auto
qed

lemma action_unused_abs:
  "wheel_wf w \<Longrightarrow> action_unused cb w \<Longrightarrow> wheel_abs w i = Some t \<Longrightarrow> action t \<noteq> cb"
  using wheel_abs_source by (fastforce simp: action_unused_def)



text \<open>
  Refreshing a pending timer that was added with a delay of 1 to 60 starts its delay again: left
  alone from then on, it stays pending for delay - 1 more ticks without its callback running, and
  the next tick ends it and runs the callback unless it was cancelled.
\<close>

theorem refresh_restarts_delay:
  assumes "wheel_wf w" "w_objs w a = Some t" "tk_id t = i" "1 \<le> unat (tk_timeout t)" "unat (tk_timeout t) \<le> 60"
    and "action_unused (tk_cb t) (w\<lparr>w_objs := (w_objs w)(a := None)\<rparr>)"
    and "leaves_alone i (tk_cb t) ops" "unat (tk_timeout t) = Suc (ticks_in ops)"
    and "timers_ok_along (Refresh i # ops) (wheel_abs w)"
  shows "\<exists>w1 w2 outs w3 fs. TimerRefreshInLoop i w = Inr w1 \<and> wheel_run ops w1 = Inr (w2, outs)
     \<and> HasTimer i w2 \<and> tk_cb t \<notin> set (concat outs)
     \<and> RunTimerTask w2 = Inr (w3, fs) \<and> (tk_cb t \<in> set fs \<longleftrightarrow> \<not> tk_canceled t) \<and> \<not> HasTimer i w3"
proof -
  from TimerRefresh_simulates[OF assms(1), of i]
  obtain w1 where w1: "TimerRefreshInLoop i w = Inr w1" "wheel_wf w1"
    "wheel_abs w1 = timers_refresh i (wheel_abs w)" by auto
  have own0: "j = i" if "wheel_abs w j = Some u" "action u = tk_cb t" for j u
  proof -
    from wheel_abs_source[OF assms(1) that(1)] that(2) obtain b v
      where v: "w_objs w b = Some v" "tk_id v = j" "tk_cb v = tk_cb t" by auto
    with assms(6) have "b = a" by (auto simp: action_unused_def split: if_splits)
    then show ?thesis using v assms(2,3) by simp
  qed
  have own: "\<forall>j u. wheel_abs w1 j = Some u \<longrightarrow> action u = tk_cb t \<longrightarrow> j = i"
    using own0 by (auto simp: w1(3) timers_refresh_def split: if_splits)
  have "timers_ok_along ops (wheel_abs w1)" using assms(9) by (simp add: w1(3))
  moreover have "wheel_abs w1 i = Some \<lparr>remaining = unat (tk_timeout t), period = unat (tk_timeout t),
      canceled = tk_canceled t, action = tk_cb t\<rparr>"
    using assms(3-5) wheel_abs_obj[OF assms(1,2)] by (simp add: w1(3) timers_refresh_def eff_delay_range)
  ultimately show ?thesis
    using timer_lasts_alone[OF w1(2) _ _ assms(8,7) own] w1(1) by simp
qed

theorem refresh_restarts_delay_witness:
  defines "t \<equiv> \<lparr>tk_id = 1, tk_timeout = 2, tk_canceled = False, tk_cb = CHR ''a''\<rparr>"
  defines "w \<equiv> TimerWheel_new\<lparr>w_slots := (replicate 60 [])[1 := [0]], w_next := 1,
     w_objs := [0 \<mapsto> t], w_timers := [1 \<mapsto> 0]\<rparr>"
  shows "\<exists>w1 w2 outs w3 fs. TimerRefreshInLoop 1 w = Inr w1 \<and> wheel_run [Cancel 7, Tick] w1 = Inr (w2, outs)
     \<and> HasTimer 1 w2 \<and> tk_cb t \<notin> set (concat outs)
     \<and> RunTimerTask w2 = Inr (w3, fs) \<and> (tk_cb t \<in> set fs \<longleftrightarrow> \<not> tk_canceled t) \<and> \<not> HasTimer 1 w3"
proof (rule refresh_restarts_delay[where a = 0 and t = t])
  show "wheel_wf w"
    by (rule wheel_wfI)
       (auto simp: w_def t_def TimerWheel_new_def nth_list_update ticks_to_def eff_delay_def split: if_splits)
qed (simp_all add: w_def t_def TimerWheel_new_def action_unused_def leaves_alone_def timer_ok_def)

text \<open>
  A cancelled timer never runs: after TimerCancel of a pending timer, no run of additions
  (of other callbacks), refreshes (of any timer, the cancelled one included), cancellations and
  ticks calls its callback.
\<close>

theorem cancelled_timer_never_runs:
  assumes "wheel_wf w" "w_objs w a = Some t" "tk_id t = i"
    and "action_unused (tk_cb t) (w\<lparr>w_objs := (w_objs w)(a := None)\<rparr>)"
    and "list_all (\<lambda>op. \<not> adds_action (tk_cb t) op) ops"
    and "timers_ok_along (Cancel i # ops) (wheel_abs w)"
  shows "\<exists>w' outs. wheel_run ops (TimerCancelInLoop i w) = Inr (w', outs) \<and> wheel_wf w'
     \<and> tk_cb t \<notin> set (concat outs)"
proof -
  let ?w = "TimerCancelInLoop i w"
  from TimerCancel_simulates[OF assms(1), of i]
  have w1: "wheel_wf ?w" "wheel_abs ?w = timers_cancel i (wheel_abs w)" by auto
  from timers_run_fold[OF w1(1), of ops] assms(6) obtain w' outs
    where run: "wheel_run ops ?w = Inr (w', outs)" "wheel_wf w'"
      "spec_run timer_spec ops (wheel_abs ?w) outs (wheel_abs w')"
    by (auto simp: w1(2))
  have "canceled u" if u: "wheel_abs ?w j = Some u" "action u = tk_cb t" for j u
  proof (cases "j = i")
    case False
    with u w1(2) have "wheel_abs w j = Some u" by (simp add: timers_cancel_def)
    from wheel_abs_source[OF assms(1) this] u(2) obtain b v
      where v: "w_objs w b = Some v" "tk_id v = j" "tk_cb v = tk_cb t" by auto
    with assms(4) have "b = a" by (auto simp: action_unused_def split: if_splits)
    with v assms(2,3) False show ?thesis by simp
  qed (use u w1(2) in \<open>auto simp: timers_cancel_def\<close>)
  with run show ?thesis
    using cancelled_silent[OF run(3), of "tk_cb t"] assms(5) by (auto simp: list_all_iff)
qed

theorem cancelled_timer_never_runs_witness:
  defines "t \<equiv> \<lparr>tk_id = 1, tk_timeout = 2, tk_canceled = False, tk_cb = CHR ''a''\<rparr>"
  defines "w \<equiv> TimerWheel_new\<lparr>w_slots := (replicate 60 [])[1 := [0]], w_next := 1,
     w_objs := [0 \<mapsto> t], w_timers := [1 \<mapsto> 0]\<rparr>"
  shows "\<exists>w' outs. wheel_run [Refresh 1, Tick, Tick, Add 1 5 CHR ''b'', Tick] (TimerCancelInLoop 1 w)
       = Inr (w', outs) \<and> wheel_wf w' \<and> tk_cb t \<notin> set (concat outs)"
proof (rule cancelled_timer_never_runs[where a = 0])
  show "wheel_wf w"
    by (rule wheel_wfI)
       (auto simp: w_def t_def TimerWheel_new_def nth_list_update ticks_to_def eff_delay_def split: if_splits)
  have "timers_cancel 1 (wheel_abs w) 1 = Some u \<Longrightarrow> period u = 2" for u
    by (auto simp: timers_cancel_def wheel_abs_def w_def t_def TimerWheel_new_def eff_delay_def)
  then show "timers_ok_along [Cancel 1, Refresh 1, Tick, Tick, Add 1 5 CHR ''b'', Tick] (wheel_abs w)"
    by (cases "timers_cancel 1 (wheel_abs w) 1")
       (auto simp: timer_ok_def timers_refresh_def timers_tick_def split: option.splits)
qed (simp_all add: w_def t_def TimerWheel_new_def action_unused_def)

lemma run_timer_tasks_ok:
  "wheel_wf w \<Longrightarrow> \<exists>w' fs. run_timer_tasks k w = Inr (w', fs) \<and> wheel_wf w'
     \<and> wheel_abs w' = (timers_tick ^^ k) (wheel_abs w)"
proof (induction k arbitrary: w)
  case (Suc k)
  from RunTimerTask_simulates[OF Suc.prems] obtain w1 fs where w1: "RunTimerTask w = Inr (w1, fs)"
    "wheel_wf w1" "wheel_abs w1 = timers_tick (wheel_abs w)" by blast
  from Suc.IH[OF w1(2)] show ?case by (auto simp: w1 funpow_swap1)
qed simp

lemma OnTime_wf: "wheel_wf w \<Longrightarrow> \<exists>w' fs. OnTime n w = Inr (w', fs) \<and> wheel_wf w'"
  using run_timer_tasks_ok by (fastforce simp: OnTime_def)

text \<open>
  A late timer event catches up: when the timerfd reports n expirations (n below 2^31), OnTime
  moves the wheel n ticks on, so no timer is lost or delayed by a slow event loop.
\<close>

theorem on_time_catches_up:
  assumes "wheel_wf w" "unat n < 2 ^ 31"
  shows "\<exists>w' fs. OnTime n w = Inr (w', fs) \<and> wheel_wf w'
     \<and> wheel_abs w' = (timers_tick ^^ unat n) (wheel_abs w)"
proof -
  have "unat (ucast n :: u32) = unat n"
    using assms(2) by (simp add: unsigned_ucast_eq take_bit_nat_eq_self)
  then have "nat (sint (ucast n :: u32)) = unat n"
    using assms(2) by (subst sint_small_u32) auto
  with run_timer_tasks_ok[OF assms(1)] show ?thesis by (simp add: OnTime_def)
qed

theorem on_time_catches_up_witness:
  "\<exists>w' fs. OnTime 3 (TimerWheel_new :: char wheel) = Inr (w', fs) \<and> wheel_wf w'
     \<and> wheel_abs w' = (timers_tick ^^ unat (3 :: u64)) (wheel_abs TimerWheel_new)"
  by (rule on_time_catches_up[OF wheel_wf_new]) simp

text \<open>Other delays are taken modulo the 60 slots: 0 and 60 wait a whole turn, 61 waits one tick.\<close>

theorem timer_delay_wraps:
  assumes "wheel_wf w" "\<not> HasTimer i w" "unat d + 60 \<le> 2 ^ 31"
  shows "\<exists>w' t. TimerAddInLoop i d cb w = Inr w' \<and> wheel_abs w' i = Some t \<and> \<not> canceled t
     \<and> remaining t = (if unat d mod 60 = 0 then 60 else unat d mod 60)"
  using TimerAdd_simulates[OF assms, of cb] by (auto simp: timers_add_def eff_delay_if)

end
