(* ===== verification/RegexLine.thy ===== *)
theory RegexLine
  imports ServerPrelude
begin

text \<open>
  The part of std::regex (ECMAScript grammar, icase) that the request line of source/http.hpp
  uses, and its regular expression.  The matcher returns all ways to match a prefix, in the
  order in which a backtracking matcher tries them (an alternative before the next, a longer
  repetition before a shorter one); \<open>regex_match\<close> takes the first that uses the whole text.
\<close>

section \<open>Regular expressions\<close>

text \<open>\<open>Many\<close> is the greedy star of a character class, \<open>Opt\<close> the greedy question mark.\<close>

datatype rx =
    Cls "char \<Rightarrow> bool"
  | Many "char \<Rightarrow> bool"
  | Seq rx rx
  | Alt rx rx
  | Opt rx
  | Group nat rx

type_synonym captures = "nat \<Rightarrow> string option"

fun match_results :: "rx \<Rightarrow> string \<times> captures \<Rightarrow> (string \<times> captures) list" where
  "match_results (Cls P) (s, m) = (case s of c # cs \<Rightarrow> if P c then [(cs, m)] else [] | [] \<Rightarrow> [])"
| "match_results (Many P) (s, m) =
     map (\<lambda>n. (drop n s, m)) (rev [0..<Suc (length (takeWhile P s))])"
| "match_results (Seq a b) st = concat (map (match_results b) (match_results a st))"
| "match_results (Alt a b) st = match_results a st @ match_results b st"
| "match_results (Opt a) st = match_results a st @ [st]"
| "match_results (Group n a) (s, m) =
     map (\<lambda>(s', m'). (s', m'(n \<mapsto> take (length s - length s') s))) (match_results a (s, m))"

definition regex_match :: "rx \<Rightarrow> string \<Rightarrow> captures option" where
  "regex_match r s = (case filter (\<lambda>(s', m). s' = []) (match_results r (s, \<lambda>_. None)) of
     [] \<Rightarrow> None | (s', m) # _ \<Rightarrow> Some m)"

section \<open>The regular expression of the request line\<close>

definition toupper :: "char \<Rightarrow> char" where
  "toupper c = (let n = of_char c :: nat in if 97 \<le> n \<and> n \<le> 122 then char_of (n - 32) else c)"

definition tolower :: "char \<Rightarrow> char" where
  "tolower c = (let n = of_char c :: nat in if 65 \<le> n \<and> n \<le> 90 then char_of (n + 32) else c)"

text \<open>A literal under icase, and a literal string.\<close>

definition lit :: "char \<Rightarrow> rx" where
  "lit c = Cls (\<lambda>x. tolower x = tolower c)"

fun lits :: "string \<Rightarrow> rx" where
  "lits [] = Many (\<lambda>_. False)"
| "lits [c] = lit c"
| "lits (c # cs) = Seq (lit c) (lits cs)"

text \<open>\<open>.\<close> matches all but the line terminators; under icase \<open>[^?]\<close> and \<open>[01]\<close> are as usual.\<close>

definition not_line_end :: "char \<Rightarrow> bool" where
  "not_line_end c \<longleftrightarrow> c \<noteq> CHR 0x0A \<and> c \<noteq> CHR 0x0D"

definition method_rx :: rx where
  "method_rx = Alt (lits ''GET'') (Alt (lits ''HEAD'') (Alt (lits ''POST'') (Alt (lits ''PUT'') (lits ''DELETE''))))"

definition query_rx :: rx where
  "query_rx = Seq (lit CHR ''?'') (Group 3 (Many not_line_end))"

definition version_rx :: rx where
  "version_rx = Seq (lits ''HTTP/1.'') (Cls (\<lambda>c. c = CHR ''0'' \<or> c = CHR ''1''))"

definition line_end_rx :: rx where
  "line_end_rx = Alt (lit CHR 0x0A) (Seq (lit CHR 0x0D) (lit CHR 0x0A))"

definition request_line_rx :: rx where
  "request_line_rx =
     Seq (Group 1 method_rx) (Seq (lit CHR '' '') (Seq (Group 2 (Many (\<lambda>c. c \<noteq> CHR ''?'')))
    (Seq (Opt query_rx) (Seq (lit CHR '' '') (Seq (Group 4 version_rx) (Opt line_end_rx))))))"

section \<open>What the matcher accepts\<close>

lemma drop_takeWhile_mem:
  "(\<exists>n \<le> length (takeWhile P s). s' = drop n s) \<longleftrightarrow> (\<exists>w. s = w @ s' \<and> (\<forall>c \<in> set w. P c))"
proof
  assume "\<exists>n \<le> length (takeWhile P s). s' = drop n s"
  then obtain n where n: "n \<le> length (takeWhile P s)" "s' = drop n s" by blast
  have "take n s = take n (takeWhile P s)"
    using n(1) by (metis append_take_drop_id append_eq_append_conv_if takeWhile_eq_take takeWhile_dropWhile_id
        take_append diff_is_0_eq' take0 append_Nil2)
  then have "\<forall>c \<in> set (take n s). P c" by (metis in_set_takeD set_takeWhileD)
  then show "\<exists>w. s = w @ s' \<and> (\<forall>c \<in> set w. P c)" using n(2) by (metis append_take_drop_id)
next
  assume "\<exists>w. s = w @ s' \<and> (\<forall>c \<in> set w. P c)"
  then obtain w where w: "s = w @ s'" "\<forall>c \<in> set w. P c" by blast
  then show "\<exists>n \<le> length (takeWhile P s). s' = drop n s"
    by (intro exI[of _ "length w"]) (simp add: takeWhile_append2)
qed

text \<open>A result is a suffix of the text; what was used is the rest of it.\<close>

lemma in_Cls: "(s', m') \<in> set (match_results (Cls P) (s, m)) \<longleftrightarrow> (\<exists>c. s = c # s' \<and> P c \<and> m' = m)"
  by (auto split: list.splits)

lemma in_Many:
  "(s', m') \<in> set (match_results (Many P) (s, m)) \<longleftrightarrow> (\<exists>w. s = w @ s' \<and> (\<forall>c \<in> set w. P c) \<and> m' = m)"
proof -
  have "(s', m') \<in> set (match_results (Many P) (s, m)) \<longleftrightarrow>
      (\<exists>n \<le> length (takeWhile P s). s' = drop n s) \<and> m' = m"
    by (simp only: match_results.simps set_map set_rev set_upt image_iff)
       (auto simp: less_Suc_eq_le)
  then show ?thesis unfolding drop_takeWhile_mem by blast
qed

lemma in_Seq:
  "(s', m') \<in> set (match_results (Seq a b) (s, m)) \<longleftrightarrow>
     (\<exists>t n. (t, n) \<in> set (match_results a (s, m)) \<and> (s', m') \<in> set (match_results b (t, n)))"
  by auto

lemma in_Alt:
  "(s', m') \<in> set (match_results (Alt a b) (s, m)) \<longleftrightarrow>
     (s', m') \<in> set (match_results a (s, m)) \<or> (s', m') \<in> set (match_results b (s, m))"
  by auto

lemma in_Opt:
  "(s', m') \<in> set (match_results (Opt a) (s, m)) \<longleftrightarrow>
     (s', m') \<in> set (match_results a (s, m)) \<or> s' = s \<and> m' = m"
  by auto

lemma in_Group:
  "(s', m') \<in> set (match_results (Group n a) (s, m)) \<longleftrightarrow>
     (\<exists>m0. (s', m0) \<in> set (match_results a (s, m)) \<and> m' = m0(n \<mapsto> take (length s - length s') s))"
  by (simp add: image_iff) force

text \<open>An expression without groups matches a set of texts and leaves the captures alone.\<close>

fun lang :: "rx \<Rightarrow> string \<Rightarrow> bool" where
  "lang (Cls P) w \<longleftrightarrow> (\<exists>c. w = [c] \<and> P c)"
| "lang (Many P) w \<longleftrightarrow> (\<forall>c \<in> set w. P c)"
| "lang (Seq a b) w \<longleftrightarrow> (\<exists>u v. w = u @ v \<and> lang a u \<and> lang b v)"
| "lang (Alt a b) w \<longleftrightarrow> lang a w \<or> lang b w"
| "lang (Opt a) w \<longleftrightarrow> lang a w \<or> w = []"
| "lang (Group n a) w \<longleftrightarrow> lang a w"

fun group_free :: "rx \<Rightarrow> bool" where
  "group_free (Seq a b) \<longleftrightarrow> group_free a \<and> group_free b"
| "group_free (Alt a b) \<longleftrightarrow> group_free a \<and> group_free b"
| "group_free (Opt a) \<longleftrightarrow> group_free a"
| "group_free (Group n a) \<longleftrightarrow> False"
| "group_free _ \<longleftrightarrow> True"

lemma in_group_free:
  "group_free r \<Longrightarrow> (s', m') \<in> set (match_results r (s, m)) \<longleftrightarrow> (\<exists>w. s = w @ s' \<and> lang r w \<and> m' = m)"
proof (induction r arbitrary: s m s' m')
  case (Seq a b)
  then have "group_free a" "group_free b" by simp_all
  note IH = Seq.IH(1)[OF this(1)] Seq.IH(2)[OF this(2)]
  show ?case unfolding in_Seq IH lang.simps by (metis append.assoc)
next
  case (Alt a b)
  then show ?case by (simp only: in_Alt group_free.simps lang.simps) blast
next
  case (Opt a)
  then show ?case by (simp only: in_Opt group_free.simps lang.simps) auto
qed (auto simp: in_Cls in_Many simp del: match_results.simps)

lemma in_Group_free:
  assumes "group_free a"
  shows "(s', m') \<in> set (match_results (Group n a) (s, m)) \<longleftrightarrow>
     (\<exists>w. s = w @ s' \<and> lang a w \<and> m' = m(n \<mapsto> w))"
  unfolding in_Group in_group_free[OF assms] by auto

lemma in_Group_Many:
  "(s', m') \<in> set (match_results (Group n (Many P)) (s, m)) \<longleftrightarrow>
     (\<exists>w. s = w @ s' \<and> (\<forall>c \<in> set w. P c) \<and> m' = m(n \<mapsto> w))"
  using in_Group_free[of "Many P"] by (simp del: match_results.simps)

lemma regex_match_Some:
  assumes "regex_match r s = Some m"
  shows "([], m) \<in> set (match_results r (s, \<lambda>_. None))"
proof -
  let ?full = "filter (\<lambda>(s', m). s' = []) (match_results r (s, \<lambda>_. None))"
  from assms obtain s' ms where "?full = (s', m) # ms"
    by (auto simp: regex_match_def split: list.splits)
  then have "(s', m) \<in> set ?full" by simp
  then show ?thesis by auto
qed

lemma regex_match_None:
  "regex_match r s = None \<longleftrightarrow> (\<forall>m. ([], m) \<notin> set (match_results r (s, \<lambda>_. None)))"
proof -
  let ?full = "filter (\<lambda>(s', m). s' = []) (match_results r (s, \<lambda>_. None))"
  have "regex_match r s = None \<longleftrightarrow> ?full = []"
    by (auto simp: regex_match_def split: list.splits)
  then show ?thesis by (auto simp: filter_empty_conv)
qed

section \<open>The form of a request line\<close>

definition request_line_form ::
  "string \<Rightarrow> string \<Rightarrow> string \<Rightarrow> string option \<Rightarrow> string \<Rightarrow> string \<Rightarrow> bool" where
  "request_line_form line m p q v eol \<longleftrightarrow>
     line = m @ '' '' @ p @ (case q of None \<Rightarrow> [] | Some w \<Rightarrow> CHR ''?'' # w) @ '' '' @ v @ eol
   \<and> lang method_rx m \<and> CHR ''?'' \<notin> set p \<and> (case q of None \<Rightarrow> True | Some w \<Rightarrow> \<forall>c \<in> set w. not_line_end c)
   \<and> lang version_rx v \<and> (eol = [] \<or> eol = [CHR 0x0A] \<or> eol = [CHR 0x0D, CHR 0x0A])"

definition line_captures :: "string \<Rightarrow> string \<Rightarrow> string option \<Rightarrow> string \<Rightarrow> captures" where
  "line_captures m p q v =
     (case q of None \<Rightarrow> [1 \<mapsto> m, 2 \<mapsto> p, 4 \<mapsto> v] | Some w \<Rightarrow> [1 \<mapsto> m, 2 \<mapsto> p, 3 \<mapsto> w, 4 \<mapsto> v])"

lemma tolower_other: "\<not> (65 \<le> (of_char c :: nat) \<and> (of_char c :: nat) \<le> 90) \<Longrightarrow> tolower c = c"
  by (auto simp: tolower_def Let_def)

lemma tolower_eq_other:
  assumes "tolower x = c" "\<not> (97 \<le> (of_char c :: nat) \<and> (of_char c :: nat) \<le> 122)"
  shows "x = c"
proof (rule ccontr)
  assume "x \<noteq> c"
  with assms(1) have "65 \<le> (of_char x :: nat)" "(of_char x :: nat) \<le> 90" "c = char_of (of_char x + 32 :: nat)"
    by (auto simp: tolower_def Let_def split: if_splits)
  with assms(2) show False by simp
qed

lemma lang_lit_other:
  "\<not> (65 \<le> (of_char c :: nat) \<and> (of_char c :: nat) \<le> 90) \<Longrightarrow>
   \<not> (97 \<le> (of_char c :: nat) \<and> (of_char c :: nat) \<le> 122) \<Longrightarrow> lang (lit c) w \<longleftrightarrow> w = [c]"
proof -
  assume c: "\<not> (65 \<le> (of_char c :: nat) \<and> (of_char c :: nat) \<le> 90)"
    "\<not> (97 \<le> (of_char c :: nat) \<and> (of_char c :: nat) \<le> 122)"
  have "tolower x = tolower c \<longleftrightarrow> x = c" for x
    using tolower_eq_other[of x c] c(2) unfolding tolower_other[OF c(1)] by (metis tolower_other[OF c(1)])
  then show ?thesis by (simp add: lit_def)
qed

lemma lang_lit_Seq:
  "lang (Seq (lit c) r) x \<longleftrightarrow> (\<exists>a y. x = a # y \<and> tolower a = tolower c \<and> lang r y)"
  by (auto simp: lit_def) (metis append_Cons append_Nil)

lemma lang_lits: "lang (lits w) x \<longleftrightarrow> map tolower x = map tolower w"
proof (induction w arbitrary: x rule: lits.induct)
  case 1
  then show ?case by (cases x) auto
next
  case (2 c)
  then show ?case by (cases x) (auto simp: lit_def)
next
  case (3 c d w)
  then show ?case
    by (cases x) (simp_all only: lits.simps lang_lit_Seq, auto)
qed

lemma group_free_lits: "group_free (lits w)"
  by (induction w rule: lits.induct) (auto simp: lit_def)

lemma group_free_parts [simp]:
  "group_free method_rx" "group_free version_rx" "group_free line_end_rx" "group_free (lit c)"
  by (simp_all add: method_rx_def version_rx_def line_end_rx_def lit_def group_free_lits del: lits.simps)

lemma lang_line_end: "lang line_end_rx w \<longleftrightarrow> w = [CHR 0x0A] \<or> w = [CHR 0x0D, CHR 0x0A]"
  by (auto simp: line_end_rx_def lang_lit_other)

lemma lang_space: "lang (lit CHR '' '') w \<longleftrightarrow> w = '' ''"
  by (simp add: lang_lit_other)

lemma lang_question: "lang (lit CHR ''?'') w \<longleftrightarrow> w = ''?''"
  by (simp add: lang_lit_other)

lemmas in_free = in_group_free[OF group_free_parts(3)] in_group_free[OF group_free_parts(4)]
  in_Group_free[OF group_free_parts(1)] in_Group_free[OF group_free_parts(2)] in_Group_Many

lemma in_query:
  "(s', m') \<in> set (match_results query_rx (s, m)) \<longleftrightarrow>
     (\<exists>w. s = CHR ''?'' # w @ s' \<and> (\<forall>c \<in> set w. not_line_end c) \<and> m' = m(3 \<mapsto> w))"
  unfolding query_rx_def in_Seq in_free lang_question by simp blast

text \<open>The part after the path and the query, matched to the end of the text.\<close>

lemma in_line_tail:
  "([], c) \<in> set (match_results (Seq (lit CHR '' '') (Seq (Group 4 version_rx) (Opt line_end_rx))) (t, k))
     \<longleftrightarrow> (\<exists>v eol. t = CHR '' '' # v @ eol \<and> lang version_rx v
           \<and> (eol = [] \<or> eol = [CHR 0x0A] \<or> eol = [CHR 0x0D, CHR 0x0A]) \<and> c = k(4 \<mapsto> v))"
  unfolding in_Seq in_Opt in_free lang_space lang_line_end by simp blast

lemma in_request_line:
  "([], c) \<in> set (match_results request_line_rx (line, \<lambda>_. None)) \<longleftrightarrow>
     (\<exists>m p q v eol. request_line_form line m p q v eol \<and> c = line_captures m p q v)"
  (is "?mem \<longleftrightarrow> ?form")
proof
  assume ?mem
  then obtain m p t k t' k' where m: "line = m @ CHR '' '' # p @ t" "lang method_rx m" "\<forall>c \<in> set p. c \<noteq> CHR ''?''"
    "k = [1 \<mapsto> m, 2 \<mapsto> p]"
    and q: "(\<exists>w. t = CHR ''?'' # w @ t' \<and> (\<forall>c \<in> set w. not_line_end c) \<and> k' = k(3 \<mapsto> w)) \<or> t' = t \<and> k' = k"
    and tail: "([], c) \<in> set (match_results (Seq (lit CHR '' '') (Seq (Group 4 version_rx) (Opt line_end_rx))) (t', k'))"
    unfolding request_line_rx_def in_Seq[of _ _ "Group 1 method_rx"] in_Seq[of _ _ "lit CHR '' ''" "Seq (Group 2 a) b" for a b]
      in_Seq[of _ _ "Group 2 a" for a] in_Seq[of _ _ "Opt query_rx"] in_free lang_space in_Opt in_query
    by (elim exE conjE) simp
  from tail obtain v eol where v: "t' = CHR '' '' # v @ eol" "lang version_rx v"
    "eol = [] \<or> eol = [CHR 0x0A] \<or> eol = [CHR 0x0D, CHR 0x0A]" "c = k'(4 \<mapsto> v)"
    unfolding in_line_tail by blast
  from q show ?form
  proof
    assume "\<exists>w. t = CHR ''?'' # w @ t' \<and> (\<forall>c \<in> set w. not_line_end c) \<and> k' = k(3 \<mapsto> w)"
    then obtain w where "t = CHR ''?'' # w @ t'" "\<forall>c \<in> set w. not_line_end c" "k' = k(3 \<mapsto> w)" by blast
    with m v have "request_line_form line m p (Some w) v eol \<and> c = line_captures m p (Some w) v"
      unfolding request_line_form_def line_captures_def by auto
    then show ?form by blast
  next
    assume "t' = t \<and> k' = k"
    with m v have "request_line_form line m p None v eol \<and> c = line_captures m p None v"
      unfolding request_line_form_def line_captures_def by auto
    then show ?form by blast
  qed
next
  assume ?form
  then obtain m p q v eol where f: "request_line_form line m p q v eol" and c: "c = line_captures m p q v" by blast
  define t' where "t' = CHR '' '' # v @ eol"
  define k' :: captures where "k' = (case q of None \<Rightarrow> [1 \<mapsto> m, 2 \<mapsto> p] | Some w \<Rightarrow> [1 \<mapsto> m, 2 \<mapsto> p, 3 \<mapsto> w])"
  define t where "t = (case q of None \<Rightarrow> t' | Some w \<Rightarrow> CHR ''?'' # w @ t')"
  have tail: "([], c) \<in> set (match_results (Seq (lit CHR '' '') (Seq (Group 4 version_rx) (Opt line_end_rx))) (t', k'))"
    unfolding in_line_tail using f c
    by (auto simp: request_line_form_def line_captures_def t'_def k'_def split: option.splits)
  have opt: "(t', k') \<in> set (match_results (Opt query_rx) (t, [1 \<mapsto> m, 2 \<mapsto> p]))"
    unfolding in_Opt in_query using f
    by (auto simp: request_line_form_def t_def k'_def split: option.splits)
  have path: "(t, [1 \<mapsto> m, 2 \<mapsto> p]) \<in> set (match_results (Group 2 (Many (\<lambda>c. c \<noteq> CHR ''?''))) (p @ t, [1 \<mapsto> m]))"
    unfolding in_Group_Many using f by (auto simp: request_line_form_def)
  have sp: "(p @ t, [1 \<mapsto> m]) \<in> set (match_results (lit CHR '' '') (CHR '' '' # p @ t, [1 \<mapsto> m]))"
    unfolding in_free lang_space by simp
  have line: "line = m @ CHR '' '' # p @ t" "lang method_rx m"
    using f by (auto simp: request_line_form_def t_def t'_def split: option.splits)
  then have "(CHR '' '' # p @ t, [1 \<mapsto> m]) \<in> set (match_results (Group 1 method_rx) (line, \<lambda>_. None))"
    unfolding in_free by blast
  then show ?mem
    unfolding request_line_rx_def in_Seq[of _ _ "Group 1 method_rx"]
      in_Seq[of _ _ "lit CHR '' ''" "Seq (Group 2 a) b" for a b] in_Seq[of _ _ "Group 2 a" for a]
      in_Seq[of _ _ "Opt query_rx"]
    using sp path opt tail by blast
qed

section \<open>A request line is parsed in one way only\<close>

definition methods :: "string list" where
  "methods = [''GET'', ''HEAD'', ''POST'', ''PUT'', ''DELETE'']"

lemma lang_method: "lang method_rx m \<longleftrightarrow> (\<exists>w \<in> set methods. map tolower m = map tolower w)"
  by (auto simp: method_rx_def methods_def lang_lits simp del: lits.simps list.map)

lemma split_last_char:
  "(\<exists>u x. v = u @ x \<and> A u \<and> (\<exists>c. x = [c] \<and> P c)) \<longleftrightarrow> (\<exists>u c. v = u @ [c] \<and> A u \<and> P c)"
  by blast

lemma lang_version:
  "lang version_rx v \<longleftrightarrow>
     (\<exists>u c. v = u @ [c] \<and> map tolower u = ''http/1.'' \<and> (c = CHR ''0'' \<or> c = CHR ''1''))"
proof -
  have "map tolower ''HTTP/1.'' = ''http/1.''" by (simp add: tolower_def char_of_eq_iff)
  then show ?thesis
    unfolding version_rx_def lang.simps(1,3) lang_lits split_last_char by (simp only:)
qed

lemma method_no_space:
  assumes "lang method_rx m" shows "CHR '' '' \<notin> set m"
proof
  assume "CHR '' '' \<in> set m"
  then have "tolower CHR '' '' \<in> set (map tolower m)" by simp
  moreover from assms obtain w where "w \<in> set methods" "map tolower m = map tolower w"
    unfolding lang_method by blast
  ultimately have "w \<in> set methods" "tolower CHR '' '' \<in> set (map tolower w)" by simp_all
  then show False by (auto simp: methods_def tolower_def char_of_eq_iff dest!: sym[of "CHR '' ''"])
qed

lemma version_last:
  assumes "lang version_rx v"
  shows "length v = 8" "v \<noteq> []" "last v = CHR ''0'' \<or> last v = CHR ''1''"
proof -
  from assms obtain u c where v: "v = u @ [c]" "c = CHR ''0'' \<or> c = CHR ''1''"
    and u: "map tolower u = ''http/1.''"
    unfolding lang_version by (elim exE conjE)
  have "length (map tolower u) = 7" unfolding u by simp
  then have "length u = 7" by (simp only: length_map)
  then show "length v = 8" "v \<noteq> []" unfolding v(1) by simp_all
  show "last v = CHR ''0'' \<or> last v = CHR ''1''" using v(2) unfolding v(1) by (simp only: last_snoc)
qed

lemma tail_unique:
  assumes eq: "x @ CHR '' '' # v @ eol = x' @ CHR '' '' # v' @ eol'"
    and v: "lang version_rx v" "lang version_rx v'"
    and e: "eol = [] \<or> eol = [CHR 0x0A] \<or> eol = [CHR 0x0D, CHR 0x0A]"
    and e': "eol' = [] \<or> eol' = [CHR 0x0A] \<or> eol' = [CHR 0x0D, CHR 0x0A]"
  shows "x = x' \<and> v = v' \<and> eol = eol'"
proof -
  note l = version_last[OF v(1)] and l' = version_last[OF v(2)]
  obtain w c where w: "v = w @ [c]" "c = CHR ''0'' \<or> c = CHR ''1''" using l by (metis append_butlast_last_id)
  obtain w' c' where w': "v' = w' @ [c']" "c' = CHR ''0'' \<or> c' = CHR ''1''" using l' by (metis append_butlast_last_id)
  have "rev eol @ c # rev (x @ CHR '' '' # w) = rev eol' @ c' # rev (x' @ CHR '' '' # w')"
    using arg_cong[OF eq, of rev] w w' by simp
  with e e' w(2) w'(2) have "eol = eol'" by (elim disjE) auto
  with eq have "(x @ '' '') @ v = (x' @ '' '') @ v'" by simp
  with l(1) l'(1) show ?thesis using \<open>eol = eol'\<close> by (metis append_eq_append_conv append1_eq_conv)
qed

lemma first_char_unique:
  "u @ c # x = u' @ c # x' \<Longrightarrow> c \<notin> set u \<Longrightarrow> c \<notin> set u' \<Longrightarrow> u = u' \<and> x = x'"
proof (induction u arbitrary: u')
  case Nil
  then show ?case by (cases u') auto
next
  case (Cons a u)
  then show ?case by (cases u') auto
qed

lemma request_line_unique:
  assumes f: "request_line_form line m p q v eol" and f': "request_line_form line m' p' q' v' eol'"
  shows "m = m' \<and> p = p' \<and> q = q' \<and> v = v'"
proof -
  let ?q = "case q of None \<Rightarrow> [] | Some w \<Rightarrow> CHR ''?'' # w"
    and ?q' = "case q' of None \<Rightarrow> [] | Some w \<Rightarrow> CHR ''?'' # w"
  note F = f[unfolded request_line_form_def] and F' = f'[unfolded request_line_form_def]
  have "(m @ CHR '' '' # p @ ?q) @ CHR '' '' # v @ eol = (m' @ CHR '' '' # p' @ ?q') @ CHR '' '' # v' @ eol'"
    using F F' by simp
  then have "m @ CHR '' '' # p @ ?q = m' @ CHR '' '' # p' @ ?q' \<and> v = v' \<and> eol = eol'"
    by (rule tail_unique) (use F F' in blast)+
  then have t: "m @ CHR '' '' # p @ ?q = m' @ CHR '' '' # p' @ ?q'" "v = v'" by simp_all
  from t(1) have "m = m' \<and> p @ ?q = p' @ ?q'"
    by (rule first_char_unique) (use F F' method_no_space in blast)+
  then have m: "m = m'" and pq: "p @ ?q = p' @ ?q'" by simp_all
  have np: "CHR ''?'' \<notin> set p" "CHR ''?'' \<notin> set p'" using F F' by blast+
  have "p = p' \<and> q = q'"
  proof (cases q)
    case None
    with pq np(1) show ?thesis by (cases q') auto
  next
    case (Some w)
    with pq np(2) obtain w' where "q' = Some w'" by (cases q') auto
    with Some pq first_char_unique[OF _ np, of w w'] show ?thesis by simp
  qed
  with m t(2) show ?thesis by blast
qed

lemma regex_match_request_line:
  "regex_match request_line_rx line = Some c \<longleftrightarrow>
     (\<exists>m p q v eol. request_line_form line m p q v eol \<and> c = line_captures m p q v)"
proof
  assume "regex_match request_line_rx line = Some c"
  from regex_match_Some[OF this] show "\<exists>m p q v eol. request_line_form line m p q v eol \<and> c = line_captures m p q v"
    unfolding in_request_line .
next
  assume "\<exists>m p q v eol. request_line_form line m p q v eol \<and> c = line_captures m p q v"
  then obtain m p q v eol where f: "request_line_form line m p q v eol" "c = line_captures m p q v" by blast
  show "regex_match request_line_rx line = Some c"
  proof (cases "regex_match request_line_rx line")
    case None
    with f show ?thesis unfolding regex_match_None in_request_line by blast
  next
    case (Some d)
    from regex_match_Some[OF this] obtain m' p' q' v' eol'
      where f': "request_line_form line m' p' q' v' eol'" "d = line_captures m' p' q' v'"
      unfolding in_request_line by blast
    from request_line_unique[OF f(1) f'(1)] f(2) f'(2) Some show ?thesis by simp
  qed
qed

lemma toupper_tolower: "toupper (tolower c) = toupper c"
  by (auto simp: toupper_def tolower_def Let_def)

lemma method_upper: "lang method_rx m \<longleftrightarrow> map toupper m \<in> set methods"
proof -
  have up: "map toupper (map tolower w) = w" if "w \<in> set methods" for w
    using that by (auto simp: methods_def toupper_def tolower_def char_of_eq_iff)
  have low: "tolower (toupper c) = tolower c" for c
    by (auto simp: toupper_def tolower_def Let_def)
  have 1: "map toupper m = w" if "w \<in> set methods" "map tolower m = map tolower w" for w
    using up[OF that(1)] unfolding that(2)[symmetric] by (simp add: toupper_tolower comp_def)
  have 2: "map tolower m = map tolower (map toupper m)" by (simp add: low comp_def)
  show ?thesis unfolding lang_method
  proof
    assume "\<exists>w\<in>set methods. map tolower m = map tolower w"
    with 1 show "map toupper m \<in> set methods" by blast
  next
    assume "map toupper m \<in> set methods"
    with 2 show "\<exists>w\<in>set methods. map tolower m = map tolower w" by blast
  qed
qed

end
