(* ===== verification/DecimalText.thy ===== *)
theory DecimalText
  imports ServerPrelude
begin

text \<open>
  Numbers in decimal text, as the sources print them (std::to_string, the %d and %u of snprintf) and
  read them (std::stol).
\<close>

section \<open>Printing\<close>

text \<open>\<open>std::to_string\<close> in decimal.\<close>

fun decimal :: "nat \<Rightarrow> string" where
  "decimal n = (if n < 10 then [char_of (48 + n)] else decimal (n div 10) @ [char_of (48 + n mod 10)])"

declare decimal.simps [simp del]

definition to_string :: "int \<Rightarrow> string" where
  "to_string n = (if n < 0 then CHR ''-'' # decimal (nat (- n)) else decimal (nat n))"

section \<open>Reading\<close>

text \<open>
  \<open>std::stol\<close> of a decimal text: leading white space, an optional sign, then the digits up to the
  first other character; no digit is std::invalid_argument, a value that does not fit a long
  std::out_of_range.
\<close>

definition isspace :: "char \<Rightarrow> bool" where
  "isspace c \<longleftrightarrow> (let n = of_char c :: nat in n = 32 \<or> 9 \<le> n \<and> n \<le> 13)"

definition isdigit :: "char \<Rightarrow> bool" where
  "isdigit c \<longleftrightarrow> (let n = of_char c :: nat in 48 \<le> n \<and> n \<le> 57)"

definition digits_value :: "string \<Rightarrow> int" where
  "digits_value ds = foldl (\<lambda>n c. n * 10 + (int (of_char c) - 48)) 0 ds"

definition stol :: "string \<Rightarrow> fault + int" where
  "stol str =
     (let s = dropWhile isspace str;
          neg = (s \<noteq> [] \<and> hd s = CHR ''-'');
          t = (if s \<noteq> [] \<and> (hd s = CHR ''-'' \<or> hd s = CHR ''+'') then tl s else s);
          ds = takeWhile isdigit t;
          n = (if neg then - digits_value ds else digits_value ds) in
      if ds = [] then Inl InvalidArgument
      else if n < - (2 ^ 63) \<or> 2 ^ 63 \<le> n then Inl OutOfRange
      else Inr n)"

section \<open>What is printed is read back\<close>

lemma digit_of: "d < 10 \<Longrightarrow> (of_char (char_of (48 + d :: nat) :: char) :: nat) = 48 + d"
  by simp

lemma digits_value_snoc: "digits_value (ds @ [c]) = digits_value ds * 10 + (int (of_char c) - 48)"
  by (simp add: digits_value_def)

lemma decimal_digits: "decimal n \<noteq> [] \<and> (\<forall>c \<in> set (decimal n). isdigit c) \<and> digits_value (decimal n) = int n"
proof (induction n rule: decimal.induct)
  case (1 n)
  show ?case
  proof (cases "n < 10")
    case True
    then show ?thesis using digit_of[OF True] by (simp add: decimal.simps[of n] isdigit_def Let_def digits_value_def)
  next
    case False
    have d: "n mod 10 < 10" by simp
    have "int (n div 10) * 10 + int (n mod 10) = int n"
      by (metis div_mult_mod_eq of_nat_add of_nat_mult of_nat_numeral)
    with 1[OF False] digit_of[OF d] d False show ?thesis
      by (simp add: decimal.simps[of n] isdigit_def Let_def digits_value_snoc)
  qed
qed

lemma digit_facts: "isdigit c \<Longrightarrow> \<not> isspace c \<and> c \<noteq> CHR ''-'' \<and> c \<noteq> CHR ''+''"
  by (auto simp: isdigit_def isspace_def Let_def)

lemma stol_to_string:
  assumes "n < 2 ^ 63"
  shows "stol (to_string (int n)) = Inr (int n)"
proof -
  note D = decimal_digits[of n]
  then obtain c ds where ds: "decimal n = c # ds" by (cases "decimal n") auto
  have all: "takeWhile isdigit (decimal n) = decimal n" using D by (simp add: takeWhile_eq_all_conv)
  have "isdigit c" using D ds by simp
  from digit_facts[OF this] have "dropWhile isspace (decimal n) = decimal n" "hd (decimal n) \<noteq> CHR ''-''" "hd (decimal n) \<noteq> CHR ''+''"
    by (simp_all add: ds)
  moreover have "int n < 2 ^ 63" using of_nat_less_iff[of n "2 ^ 63", where 'a = int] assms by simp
  ultimately show ?thesis using D by (simp add: all stol_def to_string_def Let_def)
qed

lemma decimal_inj: "decimal m = decimal n \<Longrightarrow> m = n"
  using decimal_digits by (metis of_nat_eq_iff)

lemma to_string_inj:
  assumes "to_string m = to_string n"
  shows "m = n"
proof -
  have minus: "decimal k \<noteq> CHR ''-'' # s" for k s
  proof
    assume "decimal k = CHR ''-'' # s"
    then have "isdigit (CHR ''-'')" using decimal_digits[of k] by simp
    then show False by (simp add: isdigit_def)
  qed
  consider "m < 0" "n < 0" | "0 \<le> m" "0 \<le> n" | "m < 0" "0 \<le> n" | "0 \<le> m" "n < 0" by linarith
  then show ?thesis
  proof cases
    case 1
    then show ?thesis using assms decimal_inj[of "nat (- m)" "nat (- n)"] by (simp add: to_string_def)
  next
    case 2
    then show ?thesis using assms decimal_inj[of "nat m" "nat n"] by (simp add: to_string_def)
  next
    case 3
    then show ?thesis using assms minus[of "nat n" "decimal (nat (- m))"] by (simp add: to_string_def)
  next
    case 4
    then show ?thesis using assms minus[of "nat m" "decimal (nat (- n))"] by (simp add: to_string_def)
  qed
qed

text \<open>A number of at most k digits is printed with at most k characters.\<close>

lemma length_decimal: "n < 10 ^ Suc k \<Longrightarrow> length (decimal n) \<le> Suc k"
proof (induction k arbitrary: n)
  case (Suc k)
  show ?case
  proof (cases "n < 10")
    case False
    with Suc.prems have "n div 10 < 10 ^ Suc k" by (simp add: less_mult_imp_div_less mult.commute)
    from Suc.IH[OF this] False show ?thesis by (simp add: decimal.simps[of n])
  qed (simp add: decimal.simps[of n])
qed (subst decimal.simps, simp)

end
