(* ===== verification/HttpMessage.thy ===== *)
theory HttpMessage
  imports DecimalText ServerPrelude
begin

text \<open>
  The classes HttpRequest and HttpResponse of source/http.hpp.  A
  \<open>std::unordered_map<string, string>\<close> is the list of its entries; \<open>insert\<close> leaves an existing
  key as it is, so the keys stay distinct.  The order in which a hash map is iterated is not
  fixed by the language; where it matters it is a parameter.
\<close>

section \<open>String maps\<close>

type_synonym str_map = "(string \<times> string) list"

definition map_insert :: "string \<Rightarrow> string \<Rightarrow> str_map \<Rightarrow> str_map" where
  "map_insert k v m = (case map_of m k of None \<Rightarrow> m @ [(k, v)] | Some _ \<Rightarrow> m)"

definition map_has :: "string \<Rightarrow> str_map \<Rightarrow> bool" where
  "map_has k m = (case map_of m k of None \<Rightarrow> False | Some _ \<Rightarrow> True)"

definition map_get :: "string \<Rightarrow> str_map \<Rightarrow> string" where
  "map_get k m = (case map_of m k of None \<Rightarrow> [] | Some v \<Rightarrow> v)"

section \<open>Requests\<close>

text \<open>The captures of the route that matched are the list of the submatches.\<close>

record http_request =
  rq_method :: string
  rq_path :: string
  rq_version :: string
  rq_body :: string
  rq_matches :: "string list"
  rq_headers :: str_map
  rq_params :: str_map

definition HttpRequest_new :: http_request where
  "HttpRequest_new = \<lparr>rq_method = [], rq_path = [], rq_version = ''HTTP/1.1'', rq_body = [],
     rq_matches = [], rq_headers = [], rq_params = []\<rparr>"

definition HttpRequest_ReSet :: "http_request \<Rightarrow> http_request" where
  "HttpRequest_ReSet r = r\<lparr>rq_method := [], rq_path := [], rq_version := ''HTTP/1.1'', rq_body := [],
     rq_matches := [], rq_headers := [], rq_params := []\<rparr>"

definition SetHeader :: "string \<Rightarrow> string \<Rightarrow> http_request \<Rightarrow> http_request" where
  "SetHeader k v r = r\<lparr>rq_headers := map_insert k v (rq_headers r)\<rparr>"

definition HasHeader :: "string \<Rightarrow> http_request \<Rightarrow> bool" where
  "HasHeader k r = map_has k (rq_headers r)"

definition GetHeader :: "string \<Rightarrow> http_request \<Rightarrow> string" where
  "GetHeader k r = map_get k (rq_headers r)"

definition SetParam :: "string \<Rightarrow> string \<Rightarrow> http_request \<Rightarrow> http_request" where
  "SetParam k v r = r\<lparr>rq_params := map_insert k v (rq_params r)\<rparr>"

definition HasParam :: "string \<Rightarrow> http_request \<Rightarrow> bool" where
  "HasParam k r = map_has k (rq_params r)"

definition GetParam :: "string \<Rightarrow> http_request \<Rightarrow> string" where
  "GetParam k r = map_get k (rq_params r)"

definition ContentLength :: "http_request \<Rightarrow> fault + u64" where
  "ContentLength r =
     (if HasHeader ''Content-Length'' r
      then and_then (stol (GetHeader ''Content-Length'' r)) (\<lambda>n. Inr (of_int n))
      else Inr 0)"

lemma ContentLength_cong: "rq_headers r = rq_headers r' \<Longrightarrow> ContentLength r = ContentLength r'"
  by (simp only: ContentLength_def HasHeader_def GetHeader_def)

definition Request_Close :: "http_request \<Rightarrow> bool" where
  "Request_Close r \<longleftrightarrow>
     \<not> (HasHeader ''Connection'' r \<and> GetHeader ''Connection'' r = ''keep-alive'')"

section \<open>Responses\<close>

record http_response =
  rs_statu :: int
  rs_redirect_flag :: bool
  rs_body :: string
  rs_redirect_url :: string
  rs_headers :: str_map

definition HttpResponse_new :: "int \<Rightarrow> http_response" where
  "HttpResponse_new statu = \<lparr>rs_statu = statu, rs_redirect_flag = False, rs_body = [],
     rs_redirect_url = [], rs_headers = []\<rparr>"

definition HttpResponse_ReSet :: "http_response \<Rightarrow> http_response" where
  "HttpResponse_ReSet r = r\<lparr>rs_statu := 200, rs_redirect_flag := False, rs_body := [],
     rs_redirect_url := [], rs_headers := []\<rparr>"

definition rs_SetHeader :: "string \<Rightarrow> string \<Rightarrow> http_response \<Rightarrow> http_response" where
  "rs_SetHeader k v r = r\<lparr>rs_headers := map_insert k v (rs_headers r)\<rparr>"

definition rs_HasHeader :: "string \<Rightarrow> http_response \<Rightarrow> bool" where
  "rs_HasHeader k r = map_has k (rs_headers r)"

definition rs_GetHeader :: "string \<Rightarrow> http_response \<Rightarrow> string" where
  "rs_GetHeader k r = map_get k (rs_headers r)"

definition SetContent :: "string \<Rightarrow> string \<Rightarrow> http_response \<Rightarrow> http_response" where
  "SetContent body type r = rs_SetHeader ''Content-Type'' type (r\<lparr>rs_body := body\<rparr>)"

definition SetRedirect :: "string \<Rightarrow> int \<Rightarrow> http_response \<Rightarrow> http_response" where
  "SetRedirect url statu r = r\<lparr>rs_statu := statu, rs_redirect_flag := True, rs_redirect_url := url\<rparr>"

definition Response_Close :: "http_response \<Rightarrow> bool" where
  "Response_Close r \<longleftrightarrow>
     \<not> (rs_HasHeader ''Connection'' r \<and> rs_GetHeader ''Connection'' r = ''keep-alive'')"

section \<open>The map interface\<close>

text \<open>
  What the callers rely on: a map whose first insertion under a key stays, with membership and
  a lookup that gives the empty string for a missing key.
\<close>

locale first_wins_map =
  fixes ins :: "string \<Rightarrow> string \<Rightarrow> 'm \<Rightarrow> 'm"
    and has :: "string \<Rightarrow> 'm \<Rightarrow> bool"
    and get :: "string \<Rightarrow> 'm \<Rightarrow> string"
    and look :: "'m \<Rightarrow> string \<Rightarrow> string option"
  assumes look_ins: "look (ins k v m) = (case look m k of None \<Rightarrow> (look m)(k \<mapsto> v) | Some _ \<Rightarrow> look m)"
    and has_look: "has k m \<longleftrightarrow> look m k \<noteq> None"
    and get_look: "get k m = (case look m k of None \<Rightarrow> [] | Some v \<Rightarrow> v)"
begin

lemma has_ins: "has j (ins k v m) \<longleftrightarrow> j = k \<or> has j m"
  by (auto simp: has_look look_ins split: option.splits)

lemma get_ins: "get j (ins k v m) = (if j = k \<and> \<not> has k m then v else get j m)"
  by (auto simp: has_look get_look look_ins split: option.splits)

lemma look_fold:
  "look (fold (\<lambda>(k, v). ins k v) kvs m) k = (case look m k of Some v \<Rightarrow> Some v | None \<Rightarrow> map_of kvs k)"
  by (induction kvs arbitrary: m) (auto simp: look_ins split: option.splits)

end

interpretation str_maps: first_wins_map map_insert map_has map_get map_of
proof
  show "map_of (map_insert k v m) = (case map_of m k of None \<Rightarrow> (map_of m)(k \<mapsto> v) | Some _ \<Rightarrow> map_of m)" for k v m
    by (auto simp: map_insert_def map_add_def fun_eq_iff split: option.splits)
qed (auto simp: map_has_def map_get_def split: option.splits)

interpretation request_headers: first_wins_map SetHeader HasHeader GetHeader "\<lambda>r. map_of (rq_headers r)"
  by unfold_locales
     (simp_all add: SetHeader_def HasHeader_def GetHeader_def str_maps.look_ins str_maps.has_look str_maps.get_look)

interpretation request_params: first_wins_map SetParam HasParam GetParam "\<lambda>r. map_of (rq_params r)"
  by unfold_locales
     (simp_all add: SetParam_def HasParam_def GetParam_def str_maps.look_ins str_maps.has_look str_maps.get_look)

interpretation response_headers: first_wins_map rs_SetHeader rs_HasHeader rs_GetHeader "\<lambda>r. map_of (rs_headers r)"
  by unfold_locales
     (simp_all add: rs_SetHeader_def rs_HasHeader_def rs_GetHeader_def str_maps.look_ins str_maps.has_look
       str_maps.get_look)

lemma map_insert_distinct: "distinct (map fst m) \<Longrightarrow> distinct (map fst (map_insert k v m))"
  by (auto simp: map_insert_def map_of_eq_None_iff split: option.splits)

end
