(* ===== verification/HttpContextModel.thy ===== *)
theory HttpContextModel
  imports ByteBuffer UrlUtil RegexLine HttpMessage
begin

text \<open>
  The class HttpContext of source/http.hpp: the state machine that takes a request off the
  connection's buffer, line by line and then the body, however the bytes arrive.
\<close>

section \<open>State and operations\<close>

datatype HttpRecvStatu =
  RECV_HTTP_ERROR | RECV_HTTP_LINE | RECV_HTTP_HEAD | RECV_HTTP_BODY | RECV_HTTP_OVER

record http_context =
  resp_statu :: int
  recv_statu :: HttpRecvStatu
  request :: http_request

definition HttpContext_new :: http_context where
  "HttpContext_new = \<lparr>resp_statu = 200, recv_statu = RECV_HTTP_LINE, request = HttpRequest_new\<rparr>"

definition HttpContext_ReSet :: "http_context \<Rightarrow> http_context" where
  "HttpContext_ReSet c = c\<lparr>resp_statu := 200, recv_statu := RECV_HTTP_LINE,
     request := HttpRequest_ReSet (request c)\<rparr>"

definition MAX_LINE :: nat where
  "MAX_LINE = 8192"

text \<open>\<open>_recv_statu = RECV_HTTP_ERROR; _resp_statu = code;\<close>\<close>

definition bad :: "int \<Rightarrow> http_context \<Rightarrow> http_context" where
  "bad code c = c\<lparr>recv_statu := RECV_HTTP_ERROR, resp_statu := code\<rparr>"

text \<open>\<open>matches[n]\<close> as a string: empty for a group that took no part.\<close>

definition capture :: "nat \<Rightarrow> captures \<Rightarrow> string" where
  "capture n m = (case m n of None \<Rightarrow> [] | Some w \<Rightarrow> w)"

text \<open>The loop over the pieces of the query string; the second component is the result of the call.\<close>

fun query_params :: "string list \<Rightarrow> http_context \<Rightarrow> http_context \<times> bool" where
  "query_params [] c = (c, True)"
| "query_params (str # strs) c =
     (case str_find str ''='' 0 of
        None \<Rightarrow> (bad 400 c, False)
      | Some pos \<Rightarrow>
          (let key = UrlDecode (take pos str) True; val = UrlDecode (drop (pos + 1) str) True in
           query_params strs (c\<lparr>request := SetParam key val (request c)\<rparr>)))"

definition ParseHttpLine :: "string \<Rightarrow> http_context \<Rightarrow> fault + (http_context \<times> bool)" where
  "ParseHttpLine line c =
     (case regex_match request_line_rx line of
        None \<Rightarrow> Inr (bad 400 c, False)
      | Some m \<Rightarrow>
          (let c = c\<lparr>request := (request c)\<lparr>rq_method := map toupper (capture 1 m),
                 rq_path := UrlDecode (capture 2 m) False, rq_version := capture 4 m\<rparr>\<rparr> in
           case Split (capture 3 m) ''&'' [] of
             None \<Rightarrow> Inl OutOfFuel
           | Some query_string_arry \<Rightarrow> Inr (query_params query_string_arry c)))"

definition RecvHttpLine :: "buffer \<Rightarrow> http_context \<Rightarrow> fault + (bool \<times> http_context \<times> buffer)" where
  "RecvHttpLine buf c =
     (if recv_statu c \<noteq> RECV_HTTP_LINE then Inr (False, c, buf)
      else and_then (GetLineAndPop buf) (\<lambda>(line, buf).
        if line = [] then
          if unat (ReadAbleSize buf) > MAX_LINE then Inr (False, bad 414 c, buf) else Inr (True, c, buf)
        else if length line > MAX_LINE then Inr (False, bad 414 c, buf)
        else and_then (ParseHttpLine line c) (\<lambda>(c, ret).
          if \<not> ret then Inr (False, c, buf)
          else Inr (True, c\<lparr>recv_statu := RECV_HTTP_HEAD\<rparr>, buf))))"

text \<open>\<open>if (line.back() == ch) line.pop_back();\<close>, where \<open>back\<close> of an empty string is undefined.\<close>

definition strip_back :: "char \<Rightarrow> string \<Rightarrow> fault + string" where
  "strip_back ch line =
     (if line = [] then Inl OutOfBounds else Inr (if last line = ch then butlast line else line))"

definition ParseHttpHead :: "string \<Rightarrow> http_context \<Rightarrow> fault + (http_context \<times> bool)" where
  "ParseHttpHead line c =
     and_then (strip_back CHR 0x0A line) (\<lambda>line.
     and_then (strip_back CHR 0x0D line) (\<lambda>line.
       case str_find line '': '' 0 of
         None \<Rightarrow> Inr (bad 400 c, False)
       | Some pos \<Rightarrow>
           Inr (c\<lparr>request := SetHeader (take pos line) (drop (pos + 2) line) (request c)\<rparr>, True)))"

text \<open>
  The loop of RecvHttpHead.  Every round but the last takes at least one byte off the buffer, so
  one more round than there are readable bytes is enough fuel.
\<close>

fun head_loop :: "nat \<Rightarrow> buffer \<Rightarrow> http_context \<Rightarrow> fault + (bool \<times> http_context \<times> buffer)" where
  "head_loop 0 buf c = Inl OutOfFuel"
| "head_loop (Suc fuel) buf c =
     and_then (GetLineAndPop buf) (\<lambda>(line, buf).
       if line = [] then
         if unat (ReadAbleSize buf) > MAX_LINE then Inr (False, bad 414 c, buf) else Inr (True, c, buf)
       else if length line > MAX_LINE then Inr (False, bad 414 c, buf)
       else if line = [CHR 0x0A] \<or> line = [CHR 0x0D, CHR 0x0A]
       then Inr (True, c\<lparr>recv_statu := RECV_HTTP_BODY\<rparr>, buf)
       else and_then (ParseHttpHead line c) (\<lambda>(c, ret).
         if \<not> ret then Inr (False, c, buf) else head_loop fuel buf c))"

definition RecvHttpHead :: "buffer \<Rightarrow> http_context \<Rightarrow> fault + (bool \<times> http_context \<times> buffer)" where
  "RecvHttpHead buf c =
     (if recv_statu c \<noteq> RECV_HTTP_HEAD then Inr (False, c, buf)
      else head_loop (Suc (unat (ReadAbleSize buf))) buf c)"

text \<open>\<open>_request._body.append(buf->ReadPosition(), len); buf->MoveReadOffset(len);\<close>\<close>

definition body_append :: "u64 \<Rightarrow> buffer \<Rightarrow> http_context \<Rightarrow> fault + (http_context \<times> buffer)" where
  "body_append len buf c =
     and_then (peek_bytes len buf) (\<lambda>d.
       if length (rq_body (request c)) + length d > max_size then Inl LengthError
       else and_then (MoveReadOffset len buf) (\<lambda>buf.
         Inr (c\<lparr>request := (request c)\<lparr>rq_body := rq_body (request c) @ d\<rparr>\<rparr>, buf)))"

definition RecvHttpBody :: "buffer \<Rightarrow> http_context \<Rightarrow> fault + (bool \<times> http_context \<times> buffer)" where
  "RecvHttpBody buf c =
     (if recv_statu c \<noteq> RECV_HTTP_BODY then Inr (False, c, buf)
      else and_then (ContentLength (request c)) (\<lambda>content_length.
        if content_length = 0 then Inr (True, c\<lparr>recv_statu := RECV_HTTP_OVER\<rparr>, buf)
        else let real_len = content_length - of_nat (length (rq_body (request c))) in
          if real_len \<le> ReadAbleSize buf
          then and_then (body_append real_len buf c) (\<lambda>(c, buf).
                 Inr (True, c\<lparr>recv_statu := RECV_HTTP_OVER\<rparr>, buf))
          else and_then (body_append (ReadAbleSize buf) buf c) (\<lambda>(c, buf). Inr (True, c, buf))))"

text \<open>The switch falls through from each case to the next; what the calls return is ignored.\<close>

definition RecvHttpRequest :: "buffer \<Rightarrow> http_context \<Rightarrow> fault + (http_context \<times> buffer)" where
  "RecvHttpRequest buf c =
     (let body = (\<lambda>buf c. and_then (RecvHttpBody buf c) (\<lambda>(_, c, buf). Inr (c, buf)));
          head = (\<lambda>buf c. and_then (RecvHttpHead buf c) (\<lambda>(_, c, buf). body buf c));
          line = (\<lambda>buf c. and_then (RecvHttpLine buf c) (\<lambda>(_, c, buf). head buf c)) in
      case recv_statu c of
        RECV_HTTP_LINE \<Rightarrow> line buf c
      | RECV_HTTP_HEAD \<Rightarrow> head buf c
      | RECV_HTTP_BODY \<Rightarrow> body buf c
      | _ \<Rightarrow> Inr (c, buf))"

section \<open>The parser on byte strings\<close>

text \<open>
  The same parser as functions on the bytes received and not yet used: no buffer, no fuel, no
  64-bit arithmetic.  They return the new context and the bytes left over.
\<close>

definition bytes_line :: "string \<Rightarrow> http_context \<Rightarrow> fault + (http_context \<times> string)" where
  "bytes_line s c =
     (let line = first_line s; rest = drop (length line) s in
      if line = [] then Inr (if length s > MAX_LINE then bad 414 c else c, s)
      else if length line > MAX_LINE then Inr (bad 414 c, rest)
      else and_then (ParseHttpLine line c) (\<lambda>(c, ret).
        Inr (if ret then c\<lparr>recv_statu := RECV_HTTP_HEAD\<rparr> else c, rest)))"

function bytes_head :: "string \<Rightarrow> http_context \<Rightarrow> fault + (http_context \<times> string)" where
  "bytes_head s c =
     (let line = first_line s; rest = drop (length line) s in
      if line = [] then Inr (if length s > MAX_LINE then bad 414 c else c, s)
      else if length line > MAX_LINE then Inr (bad 414 c, rest)
      else if line = [CHR 0x0A] \<or> line = [CHR 0x0D, CHR 0x0A]
      then Inr (c\<lparr>recv_statu := RECV_HTTP_BODY\<rparr>, rest)
      else and_then (ParseHttpHead line c) (\<lambda>(c, ret).
        if ret then bytes_head rest c else Inr (c, rest)))"
  by pat_completeness auto
termination
proof (relation "measure (\<lambda>(s, c). length s)")
  fix s :: string and line rest
  assume "line = first_line s" "rest = drop (length line) s" "line \<noteq> []"
  then show "((rest, b), s, c) \<in> measure (\<lambda>(s, c). length s)" for b c :: http_context
    using first_line_eq_Nil[of s] by (cases s) (auto simp: first_line_def)
qed simp

declare bytes_head.simps [simp del]

definition bytes_body :: "string \<Rightarrow> http_context \<Rightarrow> fault + (http_context \<times> string)" where
  "bytes_body s c =
     and_then (ContentLength (request c)) (\<lambda>cl.
       if cl = 0 then Inr (c\<lparr>recv_statu := RECV_HTTP_OVER\<rparr>, s)
       else let n = unat cl - length (rq_body (request c));
                c' = c\<lparr>request := (request c)\<lparr>rq_body := rq_body (request c) @ take n s\<rparr>\<rparr> in
         if length (rq_body (request c')) > max_size then Inl LengthError
         else if n \<le> length s then Inr (c'\<lparr>recv_statu := RECV_HTTP_OVER\<rparr>, drop n s)
         else Inr (c', []))"

definition bytes_rest :: "(string \<Rightarrow> http_context \<Rightarrow> fault + (http_context \<times> string)) \<Rightarrow> HttpRecvStatu
    \<Rightarrow> http_context \<times> string \<Rightarrow> fault + (http_context \<times> string)" where
  "bytes_rest f st = (\<lambda>(c, s). if recv_statu c = st then f s c else Inr (c, s))"

definition recv_bytes :: "string \<Rightarrow> http_context \<Rightarrow> fault + (http_context \<times> string)" where
  "recv_bytes s c =
     and_then (bytes_rest bytes_line RECV_HTTP_LINE (c, s)) (\<lambda>cs.
     and_then (bytes_rest bytes_head RECV_HTTP_HEAD cs) (\<lambda>cs.
       bytes_rest bytes_body RECV_HTTP_BODY cs))"

text \<open>While a body is being received, it is shorter than the length announced.\<close>

definition context_wf :: "http_context \<Rightarrow> bool" where
  "context_wf c \<longleftrightarrow> length (rq_body (request c)) \<le> max_size \<and>
     (case recv_statu c of
        RECV_HTTP_LINE \<Rightarrow> rq_body (request c) = []
      | RECV_HTTP_HEAD \<Rightarrow> rq_body (request c) = []
      | RECV_HTTP_BODY \<Rightarrow> rq_body (request c) = [] \<or>
          (\<exists>n. ContentLength (request c) = Inr n \<and> length (rq_body (request c)) < unat n)
      | _ \<Rightarrow> True)"

section \<open>The buffer version computes what the byte version does\<close>

definition recv_sim ::
  "u64 \<Rightarrow> fault + (http_context \<times> string) \<Rightarrow> fault + (http_context \<times> buffer) \<Rightarrow> bool" where
  "recv_sim w a b \<longleftrightarrow>
     (case a of Inl e \<Rightarrow> b = Inl e
      | Inr (c, s) \<Rightarrow> \<exists>buf. b = Inr (c, buf) \<and> buf_wf buf \<and> content buf = s \<and> writer_idx buf = w)"

definition void :: "fault + (bool \<times> http_context \<times> buffer) \<Rightarrow> fault + (http_context \<times> buffer)" where
  "void r = and_then r (\<lambda>(_, c, buf). Inr (c, buf))"

lemma void_simps [simp]: "void (Inl e) = Inl e" "void (Inr (r, c, buf)) = Inr (c, buf)"
  by (simp_all add: void_def)

lemma recv_sim_Inr [simp]:
  "recv_sim w (Inr (c, s)) b \<longleftrightarrow> (\<exists>buf. b = Inr (c, buf) \<and> buf_wf buf \<and> content buf = s \<and> writer_idx buf = w)"
  by (simp add: recv_sim_def)

lemma recv_sim_Inl [simp]: "recv_sim w (Inl e) b \<longleftrightarrow> b = Inl e"
  by (simp add: recv_sim_def)

lemma RecvHttpLine_sim:
  assumes wf: "buf_wf buf" and st: "recv_statu c = RECV_HTTP_LINE"
  shows "recv_sim (writer_idx buf) (bytes_line (content buf) c) (void (RecvHttpLine buf c))"
proof -
  let ?l = "first_line (content buf)"
  from GetLineAndPop_ok[OF wf] obtain b where b: "GetLineAndPop buf = Inr (?l, b)" "buf_wf b"
    "content b = drop (length ?l) (content buf)" "writer_idx b = writer_idx buf" by blast
  show ?thesis
  proof (cases "ParseHttpLine ?l c")
    case (Inl e)
    then show ?thesis using b st by (auto simp: bytes_line_def RecvHttpLine_def Let_def unat_ReadAbleSize)
  next
    case (Inr r)
    then show ?thesis using b st
      by (cases r) (auto simp: bytes_line_def RecvHttpLine_def Let_def unat_ReadAbleSize)
  qed
qed

lemma head_loop_sim:
  assumes "buf_wf buf" "length (content buf) < fuel"
  shows "recv_sim (writer_idx buf) (bytes_head (content buf) c) (void (head_loop fuel buf c))"
  using assms
proof (induction fuel arbitrary: buf c)
  case (Suc fuel)
  let ?l = "first_line (content buf)"
  from GetLineAndPop_ok[OF Suc.prems(1)] obtain b where b: "GetLineAndPop buf = Inr (?l, b)" "buf_wf b"
    "content b = drop (length ?l) (content buf)" "writer_idx b = writer_idx buf" by blast
  note eqs = bytes_head.simps[of "content buf" c] head_loop.simps(2)
  show ?case
  proof (cases "?l = [] \<or> length ?l > MAX_LINE \<or> ?l = [CHR 0x0A] \<or> ?l = [CHR 0x0D, CHR 0x0A]")
    case True
    then show ?thesis using b by (auto simp: eqs Let_def unat_ReadAbleSize)
  next
    case False
    show ?thesis
    proof (cases "ParseHttpHead ?l c")
      case (Inl e)
      then show ?thesis using False b by (simp add: eqs Let_def)
    next
      case (Inr r)
      obtain c' ret where r: "r = (c', ret)" by force
      have "length (content b) < fuel"
        using False Suc.prems(2) length_first_line_le[of "content buf"]
        by (cases ?l) (auto simp: b(3))
      from Suc.IH[OF b(2) this, of c'] show ?thesis
        using False b Inr r by (simp add: eqs Let_def)
    qed
  qed
qed simp

lemma RecvHttpHead_sim:
  assumes wf: "buf_wf buf" and st: "recv_statu c = RECV_HTTP_HEAD"
  shows "recv_sim (writer_idx buf) (bytes_head (content buf) c) (void (RecvHttpHead buf c))"
  using head_loop_sim[OF wf, of "Suc (unat (ReadAbleSize buf))" c] st
  by (simp add: RecvHttpHead_def unat_ReadAbleSize[OF wf])

lemma body_append_ok:
  assumes wf: "buf_wf buf" and n: "unat len \<le> length (content buf)"
  shows "\<exists>buf'. body_append len buf c =
      (if length (rq_body (request c)) + unat len > max_size then Inl LengthError
       else Inr (c\<lparr>request := (request c)\<lparr>rq_body := rq_body (request c) @ take (unat len) (content buf)\<rparr>\<rparr>, buf'))
     \<and> buf_wf buf' \<and> content buf' = drop (unat len) (content buf) \<and> writer_idx buf' = writer_idx buf"
  using MoveReadOffset_ok[OF wf n] n peek_bytes_content[OF wf n] by (auto simp: body_append_def)

lemma RecvHttpBody_sim:
  assumes wf: "buf_wf buf" and st: "recv_statu c = RECV_HTTP_BODY" and c: "context_wf c"
  shows "recv_sim (writer_idx buf) (bytes_body (content buf) c) (void (RecvHttpBody buf c))"
proof (cases "ContentLength (request c)")
  case (Inl e)
  then show ?thesis using st by (simp add: bytes_body_def RecvHttpBody_def)
next
  case (Inr cl)
  let ?b = "length (rq_body (request c))"
  show ?thesis
  proof (cases "cl = 0")
    case True
    then show ?thesis using st wf Inr by (simp add: bytes_body_def RecvHttpBody_def)
  next
    case False
    define real where "real = cl - of_nat ?b"
    have b: "?b \<le> max_size" "?b < unat cl"
      using c st Inr False unat_gt_0[of cl] by (auto simp: context_wf_def)
    then have real: "unat real = unat cl - ?b"
      unfolding real_def by (simp add: unat_diff_u64 unat_of_nat_u64)
    have le: "real \<le> ReadAbleSize buf \<longleftrightarrow> unat cl - ?b \<le> length (content buf)"
      by (simp add: word_le_nat_alt real unat_ReadAbleSize[OF wf])
    note eqs = bytes_body_def RecvHttpBody_def Let_def
    show ?thesis
    proof (cases "unat cl - ?b \<le> length (content buf)")
      case True
      from body_append_ok[OF wf, of real c, unfolded real, OF True] obtain buf' where
        "body_append real buf c = (if ?b + (unat cl - ?b) > max_size then Inl LengthError
           else Inr (c\<lparr>request := (request c)\<lparr>rq_body := rq_body (request c) @ take (unat cl - ?b) (content buf)\<rparr>\<rparr>, buf'))"
        "buf_wf buf'" "content buf' = drop (unat cl - ?b) (content buf)" "writer_idx buf' = writer_idx buf"
        by blast
      then show ?thesis
        using True False st Inr le by (simp add: eqs real_def[symmetric] min_absorb2)
    next
      case long: False
      have all: "unat (ReadAbleSize buf) = length (content buf)" by (rule unat_ReadAbleSize[OF wf])
      from body_append_ok[OF wf, of "ReadAbleSize buf" c, unfolded all take_all[OF order_refl] drop_all[OF order_refl]]
      obtain buf' where
        "body_append (ReadAbleSize buf) buf c = (if ?b + length (content buf) > max_size then Inl LengthError
           else Inr (c\<lparr>request := (request c)\<lparr>rq_body := rq_body (request c) @ content buf\<rparr>\<rparr>, buf'))"
        "buf_wf buf'" "content buf' = []" "writer_idx buf' = writer_idx buf"
        by blast
      then show ?thesis
        using long False st Inr le by (simp add: eqs real_def[symmetric] min_absorb1)
    qed
  qed
qed

text \<open>What the steps leave alone: the body, and on success the state.\<close>

lemma query_params_keeps:
  "query_params strs c = (c', r) \<Longrightarrow> rq_body (request c') = rq_body (request c)
     \<and> rq_headers (request c') = rq_headers (request c)
     \<and> recv_statu c' = (if r then recv_statu c else RECV_HTTP_ERROR)"
  by (induction strs arbitrary: c) (auto simp: bad_def SetParam_def Let_def split: option.splits)

lemma ParseHttpLine_keeps:
  "ParseHttpLine line c = Inr (c', r) \<Longrightarrow> rq_body (request c') = rq_body (request c)
     \<and> rq_headers (request c') = rq_headers (request c)
     \<and> recv_statu c' = (if r then recv_statu c else RECV_HTTP_ERROR)"
  by (auto simp: ParseHttpLine_def bad_def Let_def split: option.splits dest!: query_params_keeps)

lemma ParseHttpHead_keeps:
  "ParseHttpHead line c = Inr (c', r) \<Longrightarrow> rq_body (request c') = rq_body (request c)
     \<and> recv_statu c' = (if r then recv_statu c else RECV_HTTP_ERROR)"
  by (auto simp: ParseHttpHead_def bad_def SetHeader_def and_then_eq_Inr split: option.splits)

lemma bad_simps [simp]:
  "request (bad code c) = request c" "recv_statu (bad code c) = RECV_HTTP_ERROR" "resp_statu (bad code c) = code"
  by (simp_all add: bad_def)

lemma bytes_line_keeps:
  "bytes_line s c = Inr (c', s') \<Longrightarrow> recv_statu c = RECV_HTTP_LINE \<Longrightarrow>
   rq_body (request c') = rq_body (request c) \<and>
   recv_statu c' \<in> {RECV_HTTP_LINE, RECV_HTTP_HEAD, RECV_HTTP_ERROR}"
  by (auto simp: bytes_line_def Let_def and_then_eq_Inr split: if_splits dest!: ParseHttpLine_keeps)

lemma bytes_head_keeps:
  "bytes_head s c = Inr (c', s') \<Longrightarrow> recv_statu c = RECV_HTTP_HEAD \<Longrightarrow>
   rq_body (request c') = rq_body (request c) \<and>
   recv_statu c' \<in> {RECV_HTTP_HEAD, RECV_HTTP_BODY, RECV_HTTP_ERROR}"
proof (induction s c rule: bytes_head.induct)
  case (1 s c)
  let ?l = "first_line s"
  show ?case
  proof (cases "?l = [] \<or> length ?l > MAX_LINE \<or> ?l = [CHR 0x0A] \<or> ?l = [CHR 0x0D, CHR 0x0A]")
    case True
    then show ?thesis using 1(2,3) by (auto simp: bytes_head.simps[of s c] Let_def split: if_splits)
  next
    case False
    then obtain d r where d: "ParseHttpHead ?l c = Inr (d, r)"
      using 1(2) by (auto simp: bytes_head.simps[of s c] Let_def and_then_eq_Inr)
    note K = ParseHttpHead_keeps[OF d]
    show ?thesis
    proof (cases r)
      case True
      with False 1(2) d have "bytes_head (drop (length ?l) s) d = Inr (c', s')"
        by (simp add: bytes_head.simps[of s c] Let_def)
      with 1(1)[OF refl refl _ _ _ d refl True] False 1(3) K True show ?thesis by auto
    next
      case False
      then show ?thesis using 1(2) d K \<open>\<not> (?l = [] \<or> _)\<close>
        by (auto simp: bytes_head.simps[of s c] Let_def)
    qed
  qed
qed

lemma bytes_body_keeps:
  assumes run: "bytes_body s c = Inr (c', s')" and st: "recv_statu c = RECV_HTTP_BODY" and wf: "context_wf c"
  shows "context_wf c'"
proof -
  from run obtain cl where cl: "ContentLength (request c) = Inr cl" by (auto simp: bytes_body_def and_then_eq_Inr)
  have same: "ContentLength ((request c)\<lparr>rq_body := b\<rparr>) = Inr cl" for b
    using cl ContentLength_cong[of "(request c)\<lparr>rq_body := b\<rparr>" "request c"] by simp
  show ?thesis
    using run st wf cl same unat_gt_0[of cl]
    by (auto simp: bytes_body_def Let_def context_wf_def split: if_splits)
qed

lemma recv_bytes_wf:
  assumes "recv_bytes s c = Inr (c', s')" "context_wf c"
  shows "context_wf c'"
proof -
  from assms(1) obtain c1 s1 c2 s2 where
    1: "bytes_rest bytes_line RECV_HTTP_LINE (c, s) = Inr (c1, s1)" and
    2: "bytes_rest bytes_head RECV_HTTP_HEAD (c1, s1) = Inr (c2, s2)" and
    3: "bytes_rest bytes_body RECV_HTTP_BODY (c2, s2) = Inr (c', s')"
    by (auto simp: recv_bytes_def and_then_eq_Inr)
  have "context_wf c1"
    using 1 assms(2) bytes_line_keeps[of s c c1 s1]
    by (auto simp: bytes_rest_def context_wf_def split: if_splits)
  then have "context_wf c2"
    using 2 bytes_head_keeps[of s1 c1 c2 s2]
    by (auto simp: bytes_rest_def context_wf_def split: if_splits)
  then show ?thesis
    using 3 bytes_body_keeps[of s2 c2 c' s'] by (auto simp: bytes_rest_def split: if_splits)
qed

lemma context_wf_new: "context_wf HttpContext_new" "context_wf (HttpContext_ReSet c)"
  by (simp_all add: context_wf_def HttpContext_new_def HttpRequest_new_def HttpContext_ReSet_def
      HttpRequest_ReSet_def)

section \<open>Receiving from a buffer refines receiving bytes\<close>

lemma recv_sim_then:
  assumes "recv_sim w a b" and "\<And>c s buf. a = Inr (c, s) \<Longrightarrow> b = Inr (c, buf) \<Longrightarrow> buf_wf buf \<Longrightarrow>
     content buf = s \<Longrightarrow> writer_idx buf = w \<Longrightarrow> recv_sim w (f (c, s)) (g (c, buf))"
  shows "recv_sim w (and_then a f) (and_then b g)"
proof (cases a)
  case (Inl e)
  with assms(1) show ?thesis by simp
next
  case (Inr cs)
  obtain c s where cs: "cs = (c, s)" by force
  from assms(1) Inr cs obtain buf where "b = Inr (c, buf)" "buf_wf buf" "content buf = s" "writer_idx buf = w"
    by auto
  with assms(2)[of c s buf] Inr cs show ?thesis by simp
qed

text \<open>The three calls in the order of the switch; a call in another state does nothing.\<close>

lemma Recv_other_state:
  "recv_statu c \<noteq> RECV_HTTP_LINE \<Longrightarrow> RecvHttpLine buf c = Inr (False, c, buf)"
  "recv_statu c \<noteq> RECV_HTTP_HEAD \<Longrightarrow> RecvHttpHead buf c = Inr (False, c, buf)"
  "recv_statu c \<noteq> RECV_HTTP_BODY \<Longrightarrow> RecvHttpBody buf c = Inr (False, c, buf)"
  by (simp_all add: RecvHttpLine_def RecvHttpHead_def RecvHttpBody_def)

lemma RecvHttpRequest_steps:
  "RecvHttpRequest buf c =
     and_then (void (RecvHttpLine buf c)) (\<lambda>(c, buf).
     and_then (void (RecvHttpHead buf c)) (\<lambda>(c, buf). void (RecvHttpBody buf c)))"
proof -
  show ?thesis
    by (cases "recv_statu c")
       (simp_all add: RecvHttpRequest_def Recv_other_state void_def Let_def and_then_assoc case_prod_unfold)
qed

lemma bytes_rest_sim:
  assumes "recv_statu c = st \<Longrightarrow> recv_sim w (f s c) (void (g buf c))"
    and "recv_statu c \<noteq> st \<Longrightarrow> g buf c = Inr (False, c, buf)"
    and "buf_wf buf" "content buf = s" "writer_idx buf = w"
  shows "recv_sim w (bytes_rest f st (c, s)) (void (g buf c))"
  using assms by (auto simp: bytes_rest_def)

lemma RecvHttpRequest_sim:
  assumes wf: "buf_wf buf" and c: "context_wf c"
  shows "recv_sim (writer_idx buf) (recv_bytes (content buf) c) (RecvHttpRequest buf c)"
proof -
  let ?w = "writer_idx buf"
  have line: "recv_sim ?w (bytes_rest bytes_line RECV_HTTP_LINE (c, content buf)) (void (RecvHttpLine buf c))"
    using RecvHttpLine_sim[OF wf] Recv_other_state wf by (intro bytes_rest_sim) auto
  have head: "recv_sim ?w (bytes_rest bytes_head RECV_HTTP_HEAD (d, s)) (void (RecvHttpHead b d))"
    if "buf_wf b" "content b = s" "writer_idx b = ?w" for b d s
    using RecvHttpHead_sim[OF that(1)] Recv_other_state that by (intro bytes_rest_sim) auto
  have body: "recv_sim ?w (bytes_rest bytes_body RECV_HTTP_BODY (d, s)) (void (RecvHttpBody b d))"
    if "buf_wf b" "content b = s" "writer_idx b = ?w" "context_wf d" for b d s
    using RecvHttpBody_sim[OF that(1)] Recv_other_state that by (intro bytes_rest_sim) auto
  show ?thesis
    unfolding recv_bytes_def RecvHttpRequest_steps
  proof (rule recv_sim_then[OF line], unfold prod.case)
    fix d s b
    assume 1: "bytes_rest bytes_line RECV_HTTP_LINE (c, content buf) = Inr (d, s)"
      and b: "buf_wf b" "content b = s" "writer_idx b = ?w"
    have d: "context_wf d"
      using 1 c bytes_line_keeps[of "content buf" c d s]
      by (auto simp: bytes_rest_def context_wf_def split: if_splits)
    show "recv_sim ?w (and_then (bytes_rest bytes_head RECV_HTTP_HEAD (d, s)) (bytes_rest bytes_body RECV_HTTP_BODY))
       (and_then (void (RecvHttpHead b d)) (\<lambda>(c, buf). void (RecvHttpBody buf c)))"
    proof (rule recv_sim_then[OF head[OF b]], unfold prod.case)
      fix d' s' b'
      assume 2: "bytes_rest bytes_head RECV_HTTP_HEAD (d, s) = Inr (d', s')"
        and b': "buf_wf b'" "content b' = s'" "writer_idx b' = ?w"
      from 2 d have "context_wf d'"
        using bytes_head_keeps[of s d d' s'] by (auto simp: bytes_rest_def context_wf_def split: if_splits)
      with body[OF b'] show "recv_sim ?w (bytes_rest bytes_body RECV_HTTP_BODY (d', s')) (void (RecvHttpBody b' d'))" .
    qed
  qed
qed

section \<open>How the bytes are cut into reads does not matter\<close>

text \<open>Equal faults, or equal contexts and, unless the context is in error, equal bytes left over.\<close>

definition same_outcome ::
  "fault + (http_context \<times> string) \<Rightarrow> fault + (http_context \<times> string) \<Rightarrow> bool" where
  "same_outcome a b \<longleftrightarrow>
     (case (a, b) of
        (Inl e, Inl e') \<Rightarrow> e = e'
      | (Inr (c, r), Inr (c', r')) \<Rightarrow> c = c' \<and> (recv_statu c = RECV_HTTP_ERROR \<or> r = r')
      | _ \<Rightarrow> False)"

lemma same_outcome_refl [simp]: "same_outcome a a"
  by (auto simp: same_outcome_def split: sum.splits)

lemma same_outcome_simps [simp]:
  "same_outcome (Inl e) (Inl e') \<longleftrightarrow> e = e'"
  "same_outcome (Inr (c, r)) (Inr (c', r')) \<longleftrightarrow> c = c' \<and> (recv_statu c = RECV_HTTP_ERROR \<or> r = r')"
  "\<not> same_outcome (Inl e) (Inr x)" "\<not> same_outcome (Inr x) (Inl e)"
  by (auto simp: same_outcome_def split: prod.splits)

text \<open>
  One stage of the parser on \<open>s\<close> and on \<open>s @ t\<close>: it fails alike, it errs alike, it waits and the
  rest goes on from where it stopped, or it is done and leaves \<open>t\<close> after the same rest.
\<close>

definition stage_on :: "(string \<Rightarrow> http_context \<Rightarrow> fault + (http_context \<times> string)) \<Rightarrow> HttpRecvStatu
    \<Rightarrow> HttpRecvStatu \<Rightarrow> string \<Rightarrow> string \<Rightarrow> http_context \<Rightarrow> bool" where
  "stage_on f st nx s t c \<longleftrightarrow>
     (case f s c of
        Inl e \<Rightarrow> f (s @ t) c = Inl e
      | Inr (c', r) \<Rightarrow>
          recv_statu c' = RECV_HTTP_ERROR \<and> (\<exists>r'. f (s @ t) c = Inr (c', r'))
        \<or> recv_statu c' = st \<and> f (s @ t) c = f (r @ t) c'
        \<or> recv_statu c' = nx \<and> f (s @ t) c = Inr (c', r @ t))"

lemma first_line_long:
  assumes "first_line s = []" "first_line (s @ t) \<noteq> []"
  shows "length s < length (first_line (s @ t))"
proof -
  have s: "newline \<notin> set s" using assms(1) by (simp add: first_line_eq_Nil)
  then have "takeWhile (\<lambda>c. c \<noteq> newline) (s @ t) = s @ takeWhile (\<lambda>c. c \<noteq> newline) t"
    by (subst takeWhile_append2) auto
  then show ?thesis using assms by (auto simp: first_line_def split: if_splits)
qed

lemma first_line_more:
  assumes "first_line s \<noteq> []"
  shows "first_line (s @ t) = first_line s"
    and "drop (length (first_line s)) (s @ t) = drop (length (first_line s)) s @ t"
  using assms length_first_line_le[of s] by (auto simp: first_line_eq_Nil first_line_append)

lemma stage_line:
  assumes st: "recv_statu c = RECV_HTTP_LINE"
  shows "stage_on bytes_line RECV_HTTP_LINE RECV_HTTP_HEAD s t c"
proof (cases "first_line s = []")
  case True
  show ?thesis
  proof (cases "length s > MAX_LINE")
    case long: True
    have "first_line (s @ t) \<noteq> [] \<Longrightarrow> length (first_line (s @ t)) > MAX_LINE"
      using first_line_long[OF True] long by fastforce
    then show ?thesis using True long by (auto simp: stage_on_def bytes_line_def Let_def)
  next
    case False
    then show ?thesis using True st by (simp add: stage_on_def bytes_line_def)
  qed
next
  case False
  note L = first_line_more[OF False, of t]
  show ?thesis
  proof (cases "length (first_line s) > MAX_LINE")
    case True
    then show ?thesis using False L by (simp add: stage_on_def bytes_line_def Let_def)
  next
    case short: False
    show ?thesis
    proof (cases "ParseHttpLine (first_line s) c")
      case (Inl e)
      then show ?thesis using False short L by (simp add: stage_on_def bytes_line_def Let_def)
    next
      case (Inr cr)
      then obtain c' r where p: "ParseHttpLine (first_line s) c = Inr (c', r)" by (cases cr) auto
      then show ?thesis using False short L ParseHttpLine_keeps[OF p]
        by (cases r) (auto simp: stage_on_def bytes_line_def Let_def)
    qed
  qed
qed

lemma bytes_head_step:
  assumes "first_line s \<noteq> []" "\<not> length (first_line s) > MAX_LINE"
    "first_line s \<noteq> [CHR 0x0A]" "first_line s \<noteq> [CHR 0x0D, CHR 0x0A]"
  shows "bytes_head s c = and_then (ParseHttpHead (first_line s) c)
    (\<lambda>(c, ret). if ret then bytes_head (drop (length (first_line s)) s) c
                else Inr (c, drop (length (first_line s)) s))"
  using assms by (subst bytes_head.simps) (simp add: Let_def)

lemma stage_head:
  assumes "recv_statu c = RECV_HTTP_HEAD"
  shows "stage_on bytes_head RECV_HTTP_HEAD RECV_HTTP_BODY s t c"
  using assms
proof (induction s c rule: bytes_head.induct)
  case (1 s c)
  let ?l = "first_line s"
  show ?case
  proof (cases "?l = []")
    case True
    show ?thesis
    proof (cases "length s > MAX_LINE")
      case long: True
      have "first_line (s @ t) \<noteq> [] \<Longrightarrow> length (first_line (s @ t)) > MAX_LINE"
        using first_line_long[OF True] long by fastforce
      then show ?thesis
        using True long by (auto simp: stage_on_def bytes_head.simps[of s c] bytes_head.simps[of "s @ t" c] Let_def)
    next
      case False
      then show ?thesis using True 1(2) by (simp add: stage_on_def bytes_head.simps[of s c])
    qed
  next
    case False
    note L = first_line_more[OF False, of t]
    show ?thesis
    proof (cases "length ?l > MAX_LINE \<or> ?l = [CHR 0x0A] \<or> ?l = [CHR 0x0D, CHR 0x0A]")
      case True
      then show ?thesis
        using False L by (auto simp: stage_on_def bytes_head.simps[of s c] bytes_head.simps[of "s @ t" c] Let_def)
    next
      case go: False
      then have step: "bytes_head s c = and_then (ParseHttpHead ?l c) (\<lambda>(c, ret).
            if ret then bytes_head (drop (length ?l) s) c else Inr (c, drop (length ?l) s))"
        and step': "bytes_head (s @ t) c = and_then (ParseHttpHead ?l c) (\<lambda>(c, ret).
            if ret then bytes_head (drop (length ?l) s @ t) c else Inr (c, drop (length ?l) s @ t))"
        using False bytes_head_step[of s c] bytes_head_step[of "s @ t" c, unfolded L] by simp_all
      show ?thesis
      proof (cases "ParseHttpHead ?l c")
        case (Inl e)
        then show ?thesis by (simp add: stage_on_def step step')
      next
        case (Inr dr)
        then obtain d r where p: "ParseHttpHead ?l c = Inr (d, r)" by (cases dr) auto
        note K = ParseHttpHead_keeps[OF p]
        show ?thesis
        proof (cases r)
          case True
          have "stage_on bytes_head RECV_HTTP_HEAD RECV_HTTP_BODY (drop (length ?l) s) t d"
            using 1(1)[OF refl refl False _ _ p refl True] go K True 1(2) by auto
          moreover have "bytes_head s c = bytes_head (drop (length ?l) s) d"
            "bytes_head (s @ t) c = bytes_head (drop (length ?l) s @ t) d"
            unfolding step step' p by (simp_all add: True)
          ultimately show ?thesis by (simp only: stage_on_def)
        next
          case False
          then show ?thesis using p K by (simp add: stage_on_def step step')
        qed
      qed
    qed
  qed
qed

lemma stage_body:
  assumes "recv_statu c = RECV_HTTP_BODY"
  shows "stage_on bytes_body RECV_HTTP_BODY RECV_HTTP_OVER s t c"
proof (cases "ContentLength (request c)")
  case (Inl e)
  then show ?thesis by (simp add: stage_on_def bytes_body_def)
next
  case (Inr cl)
  let ?n = "unat cl - length (rq_body (request c))"
  have cl: "ContentLength ((request c)\<lparr>rq_body := b\<rparr>) = Inr cl" for b
    using Inr ContentLength_cong[of "(request c)\<lparr>rq_body := b\<rparr>" "request c"] by simp
  consider "cl = 0" | "cl \<noteq> 0" "?n \<le> length s" | "cl \<noteq> 0" "length s < ?n" by linarith
  then show ?thesis
  proof cases
    case 3
    then have "?n - length s = unat cl - length (rq_body (request c) @ s)" by simp
    with 3 show ?thesis
      using assms Inr cl by (auto simp: stage_on_def bytes_body_def Let_def)
  qed (use Inr in \<open>simp_all add: stage_on_def bytes_body_def Let_def\<close>)
qed

text \<open>A pipeline of stages, on the states it may be in, gives the same outcome in two pieces as in one.\<close>

definition chunky :: "HttpRecvStatu set \<Rightarrow> (http_context \<times> string \<Rightarrow> fault + (http_context \<times> string)) \<Rightarrow> bool" where
  "chunky S P \<longleftrightarrow> (\<forall>c s t. recv_statu c \<in> S \<longrightarrow>
     same_outcome (P (c, s @ t)) (and_then (P (c, s)) (\<lambda>(c', r). P (c', r @ t)))
     \<and> (\<forall>c' r. P (c, s) = Inr (c', r) \<longrightarrow> recv_statu c' \<in> S))"

lemma chunkyD:
  assumes "chunky S P" "recv_statu c \<in> S"
  shows "same_outcome (P (c, s @ t)) (and_then (P (c, s)) (\<lambda>(c', r). P (c', r @ t)))"
    and "P (c, s) = Inr (c', r) \<Longrightarrow> recv_statu c' \<in> S"
  using assms unfolding chunky_def by blast+

lemma chunky_stage:
  assumes stage: "\<And>s t c. recv_statu c = st \<Longrightarrow> stage_on f st nx s t c"
    and P: "chunky S P" and S: "st \<notin> S" "nx \<in> S" "RECV_HTTP_ERROR \<in> S"
    and idle: "\<And>c s. recv_statu c = st \<or> recv_statu c = RECV_HTTP_ERROR \<Longrightarrow> P (c, s) = Inr (c, s)"
  shows "chunky (insert st S) (\<lambda>cs. and_then (bytes_rest f st cs) P)"
  unfolding chunky_def
proof (intro allI impI)
  fix c :: http_context and s t assume c: "recv_statu c \<in> insert st S"
  let ?Q = "\<lambda>cs. and_then (bytes_rest f st cs) P"
  have late: "?Q (d, x) = P (d, x)" if "recv_statu d \<in> S" for d x
    using that S(1) by (auto simp: bytes_rest_def)
  have P': "same_outcome (P (d, x @ t)) (and_then (P (d, x)) (\<lambda>(c', r). ?Q (c', r @ t)))
      \<and> (\<forall>c' r. P (d, x) = Inr (c', r) \<longrightarrow> recv_statu c' \<in> S)" if "recv_statu d \<in> S" for d x
  proof (cases "P (d, x)")
    case (Inl e)
    then show ?thesis using chunkyD(1)[OF P that, of x t] by simp
  next
    case (Inr cr)
    then obtain c' r where r: "P (d, x) = Inr (c', r)" by (cases cr) auto
    from chunkyD(2)[OF P that r] have "recv_statu c' \<in> S" .
    with r chunkyD(1)[OF P that, of x t] late show ?thesis by simp
  qed
  show "same_outcome (?Q (c, s @ t)) (and_then (?Q (c, s)) (\<lambda>(c', r). ?Q (c', r @ t)))
     \<and> (\<forall>c' r. ?Q (c, s) = Inr (c', r) \<longrightarrow> recv_statu c' \<in> insert st S)"
  proof (cases "recv_statu c = st")
    case False
    with c have "recv_statu c \<in> S" by simp
    from P'[OF this, of s] late[OF this] show ?thesis by auto
  next
    case True
    have Q: "?Q (c, x) = and_then (f x c) P" for x using True by (simp add: bytes_rest_def)
    show ?thesis
    proof (cases "f s c")
      case (Inl e)
      then show ?thesis using stage[OF True, of s t] by (simp add: Q stage_on_def)
    next
      case (Inr cr)
      then obtain c' r where r: "f s c = Inr (c', r)" by (cases cr) auto
      from stage[OF True, of s t] r consider
          (err) r' where "recv_statu c' = RECV_HTTP_ERROR" "f (s @ t) c = Inr (c', r')"
        | (wait) "recv_statu c' = st" "f (s @ t) c = f (r @ t) c'"
        | (advance) "recv_statu c' = nx" "f (s @ t) c = Inr (c', r @ t)"
        by (auto simp: stage_on_def)
      then show ?thesis
      proof cases
        case err
        then have "recv_statu c' \<in> S" using S(3) by simp
        from late[OF this] err show ?thesis by (auto simp: Q r idle S(3))
      next
        case wait
        then have "?Q (c', r @ t) = and_then (f (s @ t) c) P" by (simp add: bytes_rest_def)
        then show ?thesis using wait(1) by (simp add: Q r idle)
      next
        case advance
        then show ?thesis using P'[of c' r] S(2) by (auto simp: Q r)
      qed
    qed
  qed
qed

lemma chunky_none: "chunky {RECV_HTTP_OVER, RECV_HTTP_ERROR} Inr"
  by (auto simp: chunky_def)

lemma chunky_recv: "chunky UNIV (\<lambda>(c, s). recv_bytes s c)"
proof -
  let ?body = "\<lambda>cs. and_then (bytes_rest bytes_body RECV_HTTP_BODY cs) Inr"
  let ?head = "\<lambda>cs. and_then (bytes_rest bytes_head RECV_HTTP_HEAD cs) ?body"
  let ?line = "\<lambda>cs. and_then (bytes_rest bytes_line RECV_HTTP_LINE cs) ?head"
  have 1: "chunky {RECV_HTTP_BODY, RECV_HTTP_OVER, RECV_HTTP_ERROR} ?body"
    by (rule chunky_stage[OF stage_body chunky_none]) auto
  have 2: "chunky {RECV_HTTP_HEAD, RECV_HTTP_BODY, RECV_HTTP_OVER, RECV_HTTP_ERROR} ?head"
    by (rule chunky_stage[OF stage_head 1]) (auto simp: bytes_rest_def)
  have 3: "chunky {RECV_HTTP_LINE, RECV_HTTP_HEAD, RECV_HTTP_BODY, RECV_HTTP_OVER, RECV_HTTP_ERROR} ?line"
    by (rule chunky_stage[OF stage_line 2]) (auto simp: bytes_rest_def)
  have all: "{RECV_HTTP_LINE, RECV_HTTP_HEAD, RECV_HTTP_BODY, RECV_HTTP_OVER, RECV_HTTP_ERROR} = UNIV"
    using HttpRecvStatu.exhaust by blast
  have unit: "and_then m Inr = m" for m :: "fault + (http_context \<times> string)" by (cases m) auto
  have "?line = (\<lambda>(c, s). recv_bytes s c)" by (auto simp: recv_bytes_def unit fun_eq_iff)
  with 3 all show ?thesis by simp
qed

lemma recv_bytes_split:
  "same_outcome (recv_bytes (s @ t) c) (and_then (recv_bytes s c) (\<lambda>(c', r). recv_bytes (r @ t) c'))"
  using chunky_recv by (simp add: chunky_def)

text \<open>Whole reads: each piece is written to the buffer and the parser called.\<close>

fun recv_chunks :: "string list \<Rightarrow> buffer \<Rightarrow> http_context \<Rightarrow> fault + (http_context \<times> buffer)" where
  "recv_chunks [] buf c = Inr (c, buf)"
| "recv_chunks (d # ds) buf c =
     and_then (WriteAndPush d buf) (\<lambda>buf.
     and_then (RecvHttpRequest buf c) (\<lambda>(c, buf). recv_chunks ds buf c))"

fun bytes_chunks :: "string list \<Rightarrow> string \<Rightarrow> http_context \<Rightarrow> fault + (http_context \<times> string)" where
  "bytes_chunks [] s c = Inr (c, s)"
| "bytes_chunks (d # ds) s c = and_then (recv_bytes (s @ d) c) (\<lambda>(c, r). bytes_chunks ds r c)"

lemma recv_chunks_bytes:
  assumes "buf_wf buf" "has_room buf (length (concat ds))" "context_wf c"
  shows "case bytes_chunks ds (content buf) c of Inl e \<Rightarrow> recv_chunks ds buf c = Inl e
     | Inr (c', s) \<Rightarrow> \<exists>buf'. recv_chunks ds buf c = Inr (c', buf') \<and> buf_wf buf' \<and> content buf' = s \<and> context_wf c'"
  using assms
proof (induction ds arbitrary: buf c)
  case (Cons d ds)
  then have "has_room buf (length d)" by (simp add: has_room_def)
  from WriteAndPush_ok[OF Cons.prems(1) this] obtain b where b: "WriteAndPush d buf = Inr b" "buf_wf b"
    "content b = content buf @ d" "unat (writer_idx b) \<le> unat (writer_idx buf) + length d" by blast
  note sim = RecvHttpRequest_sim[OF b(2) Cons.prems(3), unfolded b(3)]
  show ?case
  proof (cases "recv_bytes (content buf @ d) c")
    case (Inl e)
    with sim b(1) show ?thesis by simp
  next
    case (Inr cs)
    then obtain c1 s1 where r: "recv_bytes (content buf @ d) c = Inr (c1, s1)" by (cases cs) auto
    with sim obtain b1 where b1: "RecvHttpRequest b c = Inr (c1, b1)" "buf_wf b1" "content b1 = s1"
      "writer_idx b1 = writer_idx b" by auto
    have "has_room b1 (length (concat ds))" "context_wf c1"
      using Cons.prems(2) b(4) b1(4) recv_bytes_wf[OF r Cons.prems(3)] by (simp_all add: has_room_def)
    from Cons.IH[OF b1(2) this] show ?thesis using r b(1) b1(1,3) by (simp split: sum.splits prod.splits)
  qed
qed simp

lemma same_outcome_then:
  assumes "same_outcome a (and_then b f)" and "\<And>c r. same_outcome (f (c, r)) (g (c, r))"
  shows "same_outcome a (and_then b g)"
proof (cases b)
  case (Inr cr)
  obtain c r where cr: "cr = (c, r)" by force
  show ?thesis using assms(1) assms(2)[of c r] Inr cr
    by (auto simp: same_outcome_def split: sum.splits)
qed (use assms in simp)

lemma bytes_chunks_concat: "ds \<noteq> [] \<Longrightarrow> same_outcome (recv_bytes (s @ concat ds) c) (bytes_chunks ds s c)"
proof (induction ds arbitrary: s c)
  case (Cons d ds)
  show ?case
  proof (cases "ds = []")
    case True
    have "and_then m (\<lambda>(c, r). Inr (c, r)) = m" for m :: "fault + (http_context \<times> string)"
      by (cases m) auto
    with True show ?thesis by simp
  next
    case False
    have "same_outcome (recv_bytes (s @ d @ concat ds) c)
        (and_then (recv_bytes (s @ d) c) (\<lambda>(c', r). recv_bytes (r @ concat ds) c'))"
      using recv_bytes_split[of "s @ d" "concat ds" c] by simp
    from same_outcome_then[OF this, of "\<lambda>(c', r). bytes_chunks ds r c'"] Cons.IH[OF False]
    show ?thesis by simp
  qed
qed simp

section \<open>Printing a request\<close>

definition crlf :: string where
  "crlf = [CHR 0x0D, CHR 0x0A]"

definition print_param :: "string \<times> string \<Rightarrow> string" where
  "print_param = (\<lambda>(k, v). UrlEncode k True @ ''='' @ UrlEncode v True)"

text \<open>
  A request line with the path \<open>p\<close> in whatever way the client encodes it and the version \<open>v\<close>; in
  print_line every reserved character of the path is encoded.
\<close>

definition raw_line :: "string \<Rightarrow> string \<Rightarrow> string \<Rightarrow> (string \<times> string) list \<Rightarrow> string" where
  "raw_line m p v params = m @ '' '' @ p
     @ (if params = [] then [] else CHR ''?'' # join ''&'' (map print_param params)) @ '' '' @ v @ crlf"

definition print_line :: "string \<Rightarrow> string \<Rightarrow> (string \<times> string) list \<Rightarrow> string" where
  "print_line m path params = raw_line m (UrlEncode path False) ''HTTP/1.1'' params"

definition print_header :: "string \<times> string \<Rightarrow> string" where
  "print_header = (\<lambda>(k, v). k @ '': '' @ v @ crlf)"

definition raw_request ::
  "string \<Rightarrow> string \<Rightarrow> string \<Rightarrow> (string \<times> string) list \<Rightarrow> (string \<times> string) list \<Rightarrow> string \<Rightarrow> string" where
  "raw_request m p v params hs body = raw_line m p v params @ concat (map print_header hs) @ crlf @ body"

definition print_request ::
  "string \<Rightarrow> string \<Rightarrow> (string \<times> string) list \<Rightarrow> (string \<times> string) list \<Rightarrow> string \<Rightarrow> string" where
  "print_request m path params hs body =
     print_line m path params @ concat (map print_header hs) @ crlf @ body"

definition ascii :: "string \<Rightarrow> bool" where
  "ascii s \<longleftrightarrow> (\<forall>c \<in> set s. (of_char c :: nat) < 128)"

text \<open>What a client must keep to: ASCII path and parameters, headers on one line each and no longer
  than MAX_LINE, and a Content-Length that is the length of the body (it may be left out without a body).\<close>

definition header_ok :: "string \<times> string \<Rightarrow> bool" where
  "header_ok = (\<lambda>(k, v). find_sub '': '' k = None \<and> newline \<notin> set k \<and> newline \<notin> set v
     \<and> length k + length v + 4 \<le> MAX_LINE)"

definition length_ok :: "(string \<times> string) list \<Rightarrow> string \<Rightarrow> bool" where
  "length_ok hs body \<longleftrightarrow> length body \<le> max_size
     \<and> (case map_of hs ''Content-Length'' of None \<Rightarrow> body = [] | Some v \<Rightarrow> stol v = Inr (int (length body)))"

definition raw_ok ::
  "string \<Rightarrow> string \<Rightarrow> string \<Rightarrow> (string \<times> string) list \<Rightarrow> (string \<times> string) list \<Rightarrow> string \<Rightarrow> bool" where
  "raw_ok m p v params hs body \<longleftrightarrow>
     m \<in> set methods \<and> CHR ''?'' \<notin> set p \<and> newline \<notin> set p \<and> (v = ''HTTP/1.0'' \<or> v = ''HTTP/1.1'')
   \<and> (\<forall>(k, v) \<in> set params. ascii k \<and> ascii v)
   \<and> length (raw_line m p v params) \<le> MAX_LINE \<and> (\<forall>h \<in> set hs. header_ok h) \<and> length_ok hs body"

definition request_ok ::
  "string \<Rightarrow> string \<Rightarrow> (string \<times> string) list \<Rightarrow> (string \<times> string) list \<Rightarrow> string \<Rightarrow> bool" where
  "request_ok m path params hs body \<longleftrightarrow>
     m \<in> set methods \<and> ascii path \<and> (\<forall>(k, v) \<in> set params. ascii k \<and> ascii v)
   \<and> length (print_line m path params) \<le> MAX_LINE \<and> (\<forall>h \<in> set hs. header_ok h)
   \<and> length body \<le> max_size
   \<and> (case map_of hs ''Content-Length'' of None \<Rightarrow> body = [] | Some v \<Rightarrow> stol v = Inr (int (length body)))"

lemma UrlDecode_ascii: "ascii s \<Longrightarrow> (p \<longrightarrow> q) \<Longrightarrow> UrlDecode (UrlEncode s p) q = s"
  by (simp add: UrlDecode_UrlEncode ascii_def coded_def map_idI)

lemma not_in_UrlEncode:
  "\<not> unreserved c \<Longrightarrow> c \<noteq> CHR ''%'' \<Longrightarrow> c \<noteq> CHR ''+'' \<Longrightarrow> c \<notin> set (UrlEncode s p)"
  using UrlEncode_chars[of s p] by blast

lemma reserved:
  "\<not> unreserved CHR ''?''" "\<not> unreserved CHR ''&''" "\<not> unreserved CHR ''=''" "\<not> unreserved CHR 0x0A"
  "\<not> unreserved CHR 0x0D" "\<not> unreserved CHR '' ''"
  by (simp_all add: unreserved_def isalnum_def)

lemmas not_encoded = reserved[THEN not_in_UrlEncode, simplified]

lemma find_sub_char: "c \<notin> set u \<Longrightarrow> find_sub [c] (u @ c # x) = Some (length u)"
  by (induction u) auto

lemma find_sub_char_None: "c \<notin> set u \<Longrightarrow> find_sub [c] u = None"
  by (induction u) auto

lemma split_fields_join:
  "ws \<noteq> [] \<Longrightarrow> (\<forall>w \<in> set ws. c \<notin> set w) \<Longrightarrow> split_fields [c] (join [c] ws) = ws"
proof (induction ws)
  case (Cons w ws)
  show ?case
  proof (cases "ws = []")
    case True
    then show ?thesis using Cons.prems by (simp add: split_fields.simps find_sub_char_None)
  next
    case False
    then show ?thesis using Cons by (simp add: split_fields.simps[of "[c]" "w @ c # _"] join_Cons find_sub_char)
  qed
qed simp

lemma query_params_print:
  assumes "\<forall>(k, v) \<in> set ps. ascii k \<and> ascii v"
  shows "query_params (map print_param ps) c
       = (c\<lparr>request := fold (\<lambda>(k, v). SetParam k v) ps (request c)\<rparr>, True)"
  using assms
proof (induction ps arbitrary: c)
  case (Cons kv ps)
  obtain k v where kv: "kv = (k, v)" by force
  have "str_find (print_param kv) ''='' 0 = Some (length (UrlEncode k True))"
    using find_sub_char[OF not_encoded(3)] by (simp add: str_find_def print_param_def kv)
  then show ?case using Cons UrlDecode_ascii[of k True True] UrlDecode_ascii[of v True True]
    by (simp add: kv print_param_def)
qed simp

lemma join_chars: "x \<in> set (join [c] ws) \<Longrightarrow> x = c \<or> (\<exists>w \<in> set ws. x \<in> set w)"
  by (induction "[c]" ws rule: join.induct) auto

lemma print_param_chars:
  "CHR ''&'' \<notin> set (print_param p)" "CHR 0x0A \<notin> set (print_param p)" "CHR 0x0D \<notin> set (print_param p)"
  "print_param p \<noteq> []"
  using not_encoded by (auto simp: print_param_def split: prod.splits)

lemma version_1: "lang version_rx ''HTTP/1.0''" "lang version_rx ''HTTP/1.1''"
proof -
  show "lang version_rx ''HTTP/1.0''"
    unfolding lang_version by (intro exI[of _ "''HTTP/1.''"] exI[of _ "CHR ''0''"]) (simp add: tolower_def char_of_eq_iff)
  show "lang version_rx ''HTTP/1.1''"
    unfolding lang_version by (intro exI[of _ "''HTTP/1.''"] exI[of _ "CHR ''1''"]) (simp add: tolower_def char_of_eq_iff)
qed

lemmas version_11 = version_1(2)

lemma method_as_is: "m \<in> set methods \<Longrightarrow> map toupper m = m"
  by (auto simp: methods_def toupper_def)

definition query_of :: "(string \<times> string) list \<Rightarrow> string option" where
  "query_of params = (if params = [] then None else Some (join ''&'' (map print_param params)))"

lemma raw_line_form:
  assumes "m \<in> set methods" "CHR ''?'' \<notin> set p" "v = ''HTTP/1.0'' \<or> v = ''HTTP/1.1''"
  shows "request_line_form (raw_line m p v params) m p (query_of params) v crlf"
proof -
  have "lang method_rx m" using assms(1) by (simp add: method_upper method_as_is)
  moreover have "\<forall>c \<in> set (join ''&'' (map print_param params)). not_line_end c"
    using join_chars[of _ "CHR ''&''" "map print_param params"] print_param_chars(2,3)
    by (fastforce simp: not_line_end_def)
  ultimately show ?thesis
    using version_1 assms(2,3) by (auto simp: request_line_form_def raw_line_def query_of_def crlf_def)
qed

definition parsed_line :: "string \<Rightarrow> string \<Rightarrow> string \<Rightarrow> (string \<times> string) list \<Rightarrow> http_context \<Rightarrow> http_context" where
  "parsed_line m path v params c = c\<lparr>request := fold (\<lambda>(k, v). SetParam k v) params
     ((request c)\<lparr>rq_method := m, rq_path := path, rq_version := v\<rparr>)\<rparr>"

lemma Split_query: "Split (capture 3 (line_captures m p (query_of params) v)) ''&'' [] = Some (map print_param params)"
proof (cases "params = []")
  case True
  then show ?thesis
    by (simp add: query_of_def line_captures_def capture_def Split_fields split_fields.simps)
next
  case False
  have "split_fields ''&'' (join ''&'' (map print_param params)) = map print_param params"
    using False print_param_chars(1) by (intro split_fields_join) auto
  moreover have "filter (\<lambda>f. f \<noteq> []) (map print_param params) = map print_param params"
    using print_param_chars(4) by (simp add: filter_id_conv)
  ultimately show ?thesis
    using False by (simp add: query_of_def line_captures_def capture_def Split_fields)
qed

lemma ParseHttpLine_raw:
  assumes "m \<in> set methods" "CHR ''?'' \<notin> set p" "v = ''HTTP/1.0'' \<or> v = ''HTTP/1.1''" "\<forall>(k, v) \<in> set params. ascii k \<and> ascii v"
  shows "ParseHttpLine (raw_line m p v params) c = Inr (parsed_line m (UrlDecode p False) v params c, True)"
proof -
  let ?caps = "line_captures m p (query_of params) v"
  have "regex_match request_line_rx (raw_line m p v params) = Some ?caps"
    unfolding regex_match_request_line using raw_line_form[OF assms(1-3)] by blast
  moreover have "capture 1 ?caps = m" "capture 2 ?caps = p" "capture 4 ?caps = v"
    by (simp_all add: capture_def line_captures_def split: option.splits)
  ultimately show ?thesis
    using Split_query
    by (simp add: ParseHttpLine_def query_params_print[OF assms(4)] method_as_is[OF assms(1)] parsed_line_def)
qed

lemma find_sub_header: "find_sub '': '' k = None \<Longrightarrow> find_sub '': '' (k @ '': '' @ v) = Some (length k)"
proof (induction k)
  case (Cons x k)
  then have "\<not> starts_with '': '' (x # k)" "find_sub '': '' k = None" by (auto split: if_splits)
  moreover from this have "\<not> starts_with '': '' (x # k @ '': '' @ v)" by (cases k) auto
  ultimately show ?case using Cons.IH by simp
qed simp

lemma strip_back_snoc: "strip_back c (l @ [c]) = Inr l"
  by (simp add: strip_back_def)

lemma ParseHttpHead_print:
  assumes "find_sub '': '' k = None"
  shows "ParseHttpHead (print_header (k, v)) c = Inr (c\<lparr>request := SetHeader k v (request c)\<rparr>, True)"
proof -
  have line: "print_header (k, v) = ((k @ '': '' @ v) @ [CHR 0x0D]) @ [CHR 0x0A]"
    by (simp add: print_header_def crlf_def)
  have strip: "strip_back CHR 0x0A (print_header (k, v)) = Inr ((k @ '': '' @ v) @ [CHR 0x0D])"
    unfolding line by (rule strip_back_snoc)
  have strip': "strip_back CHR 0x0D ((k @ '': '' @ v) @ [CHR 0x0D]) = Inr (k @ '': '' @ v)"
    by (rule strip_back_snoc)
  have find: "str_find (k @ '': '' @ v) '': '' 0 = Some (length k)"
    using find_sub_header[OF assms] by (simp add: str_find_def)
  have "take (length k) (k @ '': '' @ v) = k" "drop (length k + 2) (k @ '': '' @ v) = v" by simp_all
  then show ?thesis
    unfolding ParseHttpHead_def strip and_then_Inr strip' find option.case by simp
qed

lemma first_line_crlf: "newline \<notin> set l \<Longrightarrow> first_line (l @ crlf @ t) = l @ crlf"
  using first_line_line[of "l @ [CHR 0x0D]" t] by (simp add: crlf_def newline_def)

lemma bytes_head_print:
  assumes "\<forall>h \<in> set hs. header_ok h"
  shows "bytes_head (concat (map print_header hs) @ crlf @ rest) c
    = Inr (c\<lparr>request := fold (\<lambda>(k, v). SetHeader k v) hs (request c), recv_statu := RECV_HTTP_BODY\<rparr>, rest)"
  using assms
proof (induction hs arbitrary: c)
  case Nil
  have "first_line (crlf @ rest) = crlf" using first_line_crlf[of "[]"] by simp
  then show ?case by (simp add: bytes_head.simps crlf_def MAX_LINE_def)
next
  case (Cons h hs)
  obtain k v where h: "h = (k, v)" by force
  let ?t = "concat (map print_header hs) @ crlf @ rest"
  from Cons.prems h have ok: "find_sub '': '' k = None" "newline \<notin> set (k @ '': '' @ v)"
    "length (print_header h) \<le> MAX_LINE"
    by (auto simp: header_ok_def print_header_def crlf_def newline_def)
  have line: "first_line (print_header h @ ?t) = print_header h"
    using first_line_crlf[OF ok(2), of ?t] by (simp add: h print_header_def)
  have long: "length (print_header h) \<ge> 4" by (simp add: h print_header_def crlf_def)
  have "bytes_head (print_header h @ ?t) c = bytes_head ?t (c\<lparr>request := SetHeader k v (request c)\<rparr>)"
    using bytes_head_step[of "print_header h @ ?t" c] ok(3) long
      ParseHttpHead_print[OF ok(1), of v c] by (fastforce simp: line h[symmetric])
  then show ?case using Cons.IH Cons.prems by (simp add: h)
qed

lemma fold_SetParam_keeps:
  "rq_headers (fold (\<lambda>(k, v). SetParam k v) ps r) = rq_headers r"
  "rq_method (fold (\<lambda>(k, v). SetParam k v) ps r) = rq_method r"
  "rq_path (fold (\<lambda>(k, v). SetParam k v) ps r) = rq_path r"
  "rq_version (fold (\<lambda>(k, v). SetParam k v) ps r) = rq_version r"
  "rq_body (fold (\<lambda>(k, v). SetParam k v) ps r) = rq_body r"
  by (induction ps arbitrary: r) (auto simp: SetParam_def)

lemma fold_SetHeader_keeps:
  "rq_params (fold (\<lambda>(k, v). SetHeader k v) hs r) = rq_params r"
  "rq_method (fold (\<lambda>(k, v). SetHeader k v) hs r) = rq_method r"
  "rq_path (fold (\<lambda>(k, v). SetHeader k v) hs r) = rq_path r"
  "rq_version (fold (\<lambda>(k, v). SetHeader k v) hs r) = rq_version r"
  "rq_body (fold (\<lambda>(k, v). SetHeader k v) hs r) = rq_body r"
  by (induction hs arbitrary: r) (auto simp: SetHeader_def)

text \<open>The request a client meant, as the parser's result.\<close>

definition received ::
  "string \<Rightarrow> string \<Rightarrow> string \<Rightarrow> (string \<times> string) list \<Rightarrow> (string \<times> string) list \<Rightarrow> string \<Rightarrow> http_context \<Rightarrow> bool" where
  "received m path v params hs body c \<longleftrightarrow>
     recv_statu c = RECV_HTTP_OVER \<and> resp_statu c = 200 \<and> rq_method (request c) = m
   \<and> rq_path (request c) = path \<and> rq_version (request c) = v
   \<and> map_of (rq_params (request c)) = map_of params \<and> map_of (rq_headers (request c)) = map_of hs
   \<and> rq_body (request c) = body"

lemma bytes_line_raw:
  assumes "m \<in> set methods" "CHR ''?'' \<notin> set p" "newline \<notin> set p" "v = ''HTTP/1.0'' \<or> v = ''HTTP/1.1''"
    and "\<forall>(k, v) \<in> set params. ascii k \<and> ascii v" and "length (raw_line m p v params) \<le> MAX_LINE"
  shows "bytes_line (raw_line m p v params @ t) c
       = Inr ((parsed_line m (UrlDecode p False) v params c)\<lparr>recv_statu := RECV_HTTP_HEAD\<rparr>, t)"
proof -
  define l where "l = m @ '' '' @ p
     @ (if params = [] then [] else CHR ''?'' # join ''&'' (map print_param params)) @ '' '' @ v"
  have line: "raw_line m p v params = l @ crlf" by (simp add: raw_line_def l_def)
  have "CHR 0x0A \<notin> set m" using assms(1) by (auto simp: methods_def)
  moreover have "CHR 0x0A \<notin> set (join ''&'' (map print_param params))"
    using join_chars[of "CHR 0x0A" "CHR ''&''" "map print_param params"] print_param_chars(2) by auto
  ultimately have "newline \<notin> set l"
    using assms(3,4) by (auto simp: l_def newline_def)
  then have "first_line (raw_line m p v params @ t) = raw_line m p v params"
    using first_line_crlf[of l t] by (simp add: line)
  then show ?thesis
    using assms(6) ParseHttpLine_raw[OF assms(1,2,4,5), of c]
    by (simp add: bytes_line_def Let_def) (simp add: line crlf_def)
qed

text \<open>The context in which the parser leaves a request.\<close>

definition parsed_context ::
  "string \<Rightarrow> string \<Rightarrow> string \<Rightarrow> (string \<times> string) list \<Rightarrow> (string \<times> string) list \<Rightarrow> string \<Rightarrow> http_context" where
  "parsed_context m path v params hs body =
     (let c = parsed_line m path v params HttpContext_new in
      c\<lparr>recv_statu := RECV_HTTP_OVER, request := (fold (\<lambda>(k, v). SetHeader k v) hs (request c))\<lparr>rq_body := body\<rparr>\<rparr>)"

lemma parsed_headers: "map_of (rq_headers (fold (\<lambda>(k, v). SetHeader k v) hs (request (parsed_line m path v params HttpContext_new)))) = map_of hs"
  using request_headers.look_fold[of hs "request (parsed_line m path v params HttpContext_new)"]
  by (simp add: parsed_line_def fold_SetParam_keeps HttpContext_new_def HttpRequest_new_def fun_eq_iff)

lemma received_parsed: "received m path v params hs body (parsed_context m path v params hs body)"
  using request_params.look_fold[of params] parsed_headers[of hs m path v params]
  by (simp add: received_def parsed_context_def Let_def parsed_line_def fold_SetHeader_keeps fold_SetParam_keeps
      HttpContext_new_def HttpRequest_new_def fun_eq_iff)

text \<open>With the head received, what follows is the body's.\<close>

definition headed_context :: "string \<Rightarrow> string \<Rightarrow> string \<Rightarrow> (string \<times> string) list \<Rightarrow> (string \<times> string) list \<Rightarrow> http_context" where
  "headed_context m path v params hs = (parsed_context m path v params hs [])\<lparr>recv_statu := RECV_HTTP_BODY\<rparr>"

lemma headed_context_facts:
  "rq_body (request (headed_context m path v params hs)) = []" "resp_statu (headed_context m path v params hs) = 200"
  "(headed_context m path v params hs)\<lparr>recv_statu := RECV_HTTP_OVER, request := (request (headed_context m path v params hs))\<lparr>rq_body := body\<rparr>\<rparr>
     = parsed_context m path v params hs body"
  "ContentLength (request (headed_context m path v params hs))
     = (case map_of hs ''Content-Length'' of None \<Rightarrow> Inr 0 | Some n \<Rightarrow> and_then (stol n) (\<lambda>k. Inr (of_int k)))"
  using parsed_headers[of hs m path v params]
  by (simp_all add: headed_context_def parsed_context_def Let_def parsed_line_def HttpContext_new_def ContentLength_def
      HasHeader_def GetHeader_def str_maps.has_look str_maps.get_look split: option.splits)

lemma recv_bytes_head:
  assumes "m \<in> set methods" "CHR ''?'' \<notin> set p" "newline \<notin> set p" "v = ''HTTP/1.0'' \<or> v = ''HTTP/1.1''"
    and "\<forall>(k, v) \<in> set params. ascii k \<and> ascii v" and "length (raw_line m p v params) \<le> MAX_LINE" and "\<forall>h \<in> set hs. header_ok h"
  shows "recv_bytes (raw_request m p v params hs data) HttpContext_new = bytes_body data (headed_context m (UrlDecode p False) v params hs)"
proof -
  let ?path = "UrlDecode p False"
  let ?c1 = "(parsed_line m ?path v params HttpContext_new)\<lparr>recv_statu := RECV_HTTP_HEAD\<rparr>"
  have printed: "raw_request m p v params hs data = raw_line m p v params @ concat (map print_header hs) @ crlf @ data"
    by (simp add: raw_request_def)
  have 1: "bytes_line (raw_request m p v params hs data) HttpContext_new = Inr (?c1, concat (map print_header hs) @ crlf @ data)"
    unfolding printed by (rule bytes_line_raw[OF assms(1-6)])
  have "?c1\<lparr>request := fold (\<lambda>(k, v). SetHeader k v) hs (request ?c1), recv_statu := RECV_HTTP_BODY\<rparr> = headed_context m ?path v params hs"
    by (simp add: headed_context_def parsed_context_def Let_def parsed_line_def fold_SetParam_keeps fold_SetHeader_keeps
        HttpContext_new_def HttpRequest_new_def)
  with bytes_head_print[OF assms(7), of data ?c1]
  have 2: "bytes_head (concat (map print_header hs) @ crlf @ data) ?c1 = Inr (headed_context m ?path v params hs, data)" by simp
  have "recv_statu HttpContext_new = RECV_HTTP_LINE" "recv_statu (headed_context m ?path v params hs) = RECV_HTTP_BODY"
    by (simp_all add: HttpContext_new_def headed_context_def)
  with 1 2 show ?thesis by (simp add: recv_bytes_def bytes_rest_def)
qed

lemma recv_bytes_raw:
  assumes ok: "raw_ok m p v params hs body"
  shows "recv_bytes (raw_request m p v params hs body @ rest) HttpContext_new
     = Inr (parsed_context m (UrlDecode p False) v params hs body, rest)"
proof -
  let ?c = "headed_context m (UrlDecode p False) v params hs"
  from ok have a: "m \<in> set methods" "CHR ''?'' \<notin> set p" "newline \<notin> set p" "v = ''HTTP/1.0'' \<or> v = ''HTTP/1.1''"
    "\<forall>(k, v) \<in> set params. ascii k \<and> ascii v"
    "length (raw_line m p v params) \<le> MAX_LINE" "\<forall>h \<in> set hs. header_ok h" "length body \<le> max_size"
    and cl: "case map_of hs ''Content-Length'' of None \<Rightarrow> body = [] | Some v \<Rightarrow> stol v = Inr (int (length body))"
    by (auto simp: raw_ok_def length_ok_def)
  have clen: "ContentLength (request ?c) = Inr (of_nat (length body))"
    using cl by (auto simp: headed_context_facts split: option.splits)
  have "bytes_body (body @ rest) ?c = Inr (parsed_context m (UrlDecode p False) v params hs body, rest)"
  proof (cases "body = []")
    case True
    then show ?thesis using clen by (simp add: bytes_body_def headed_context_def parsed_context_def Let_def)
  next
    case False
    then have "(of_nat (length body) :: u64) \<noteq> 0" "unat (of_nat (length body) :: u64) = length body"
      using a(8) by (simp_all add: of_nat_eq_0_u64 unat_of_nat_u64)
    with clen a(8) show ?thesis by (simp add: bytes_body_def Let_def headed_context_facts) (simp flip: headed_context_facts(3))
  qed
  moreover have "raw_request m p v params hs body @ rest = raw_request m p v params hs (body @ rest)" by (simp add: raw_request_def)
  ultimately show ?thesis using recv_bytes_head[OF a(1-7)] by simp
qed

text \<open>A body shorter than announced is waited for.\<close>

lemma recv_bytes_short:
  assumes "m \<in> set methods" "CHR ''?'' \<notin> set p" "newline \<notin> set p" "v = ''HTTP/1.0'' \<or> v = ''HTTP/1.1''"
    and "\<forall>(k, v) \<in> set params. ascii k \<and> ascii v" and "length (raw_line m p v params) \<le> MAX_LINE" and "\<forall>h \<in> set hs. header_ok h"
    and "map_of hs ''Content-Length'' = Some n" and "stol n = Inr (int k)" and "length body < k" and "k \<le> max_size"
  shows "\<exists>c. recv_bytes (raw_request m p v params hs body) HttpContext_new = Inr (c, []) \<and> recv_statu c = RECV_HTTP_BODY
     \<and> resp_statu c = 200 \<and> rq_body (request c) = body"
proof -
  let ?c = "headed_context m (UrlDecode p False) v params hs"
  have clen: "ContentLength (request ?c) = Inr (of_nat k)" using assms(8,9) by (simp add: headed_context_facts)
  have k: "(of_nat k :: u64) \<noteq> 0" "unat (of_nat k :: u64) = k"
    using assms(10,11) by (simp_all add: of_nat_eq_0_u64 unat_of_nat_u64)
  have "length body \<le> max_size" using assms(10,11) by simp
  with clen k assms(10) recv_bytes_head[OF assms(1-7), of body] show ?thesis
    by (auto simp: bytes_body_def Let_def headed_context_facts) (simp add: headed_context_def)
qed

text \<open>A line without the form of a request line is refused.\<close>

lemma ParseHttpLine_refused:
  assumes "\<nexists>m p q v eol. request_line_form line m p q v eol"
  shows "ParseHttpLine line c = Inr (bad 400 c, False)"
proof -
  have "regex_match request_line_rx line = None"
    using assms unfolding regex_match_None in_request_line by blast
  then show ?thesis by (simp add: ParseHttpLine_def)
qed

lemma no_method_refused:
  assumes "map toupper (takeWhile (\<lambda>c. c \<noteq> CHR '' '') line) \<notin> set methods"
  shows "\<nexists>m p q v eol. request_line_form line m p q v eol"
proof clarify
  fix m p q v eol assume "request_line_form line m p q v eol"
  then have line: "\<exists>x. line = m @ CHR '' '' # x" and m: "map toupper m \<in> set methods"
    by (auto simp: request_line_form_def method_upper)
  have "toupper (CHR '' '') = CHR '' ''" by (simp add: toupper_def)
  then have "CHR '' '' \<notin> set m" using m by (auto simp: methods_def)
  then have "takeWhile (\<lambda>c. c \<noteq> CHR '' '') line = m" using line by (elim exE, simp) (subst takeWhile_append2, auto)
  with m assms show False by simp
qed

lemma recv_bytes_refused:
  assumes "newline \<notin> set l" and "length l + 2 \<le> MAX_LINE" and "\<nexists>m p q v eol. request_line_form (l @ crlf) m p q v eol"
  shows "recv_bytes (l @ crlf @ rest) HttpContext_new = Inr (bad 400 HttpContext_new, rest)"
proof -
  have "bytes_line (l @ crlf @ rest) HttpContext_new = Inr (bad 400 HttpContext_new, rest)"
    using first_line_crlf[OF assms(1), of rest] assms(2) ParseHttpLine_refused[OF assms(3)]
    by (simp add: bytes_line_def Let_def) (simp add: crlf_def)
  then show ?thesis by (simp add: recv_bytes_def bytes_rest_def bad_def HttpContext_new_def)
qed

text \<open>A printed request is one of these, and its path is decoded again.\<close>

lemma print_request_raw: "print_request m path params hs body = raw_request m (UrlEncode path False) ''HTTP/1.1'' params hs body"
  by (simp add: print_request_def print_line_def raw_request_def)

lemma request_ok_raw: "request_ok m path params hs body \<Longrightarrow> raw_ok m (UrlEncode path False) ''HTTP/1.1'' params hs body"
  using not_encoded(1,4)[of path False]
  by (simp add: request_ok_def raw_ok_def length_ok_def print_line_def newline_def)

lemma recv_bytes_print:
  assumes "request_ok m path params hs body"
  shows "recv_bytes (print_request m path params hs body @ rest) HttpContext_new
     = Inr (parsed_context m path ''HTTP/1.1'' params hs body, rest)"
proof -
  have "ascii path" using assms by (simp add: request_ok_def)
  with recv_bytes_raw[OF request_ok_raw[OF assms], of rest] show ?thesis by (simp add: print_request_raw UrlDecode_ascii)
qed

section \<open>Properties\<close>

text \<open>Two receptions that end alike: the same fault, or the same context and, unless it is in
  error, the same bytes left in the buffer.\<close>

definition same_reception ::
  "fault + (http_context \<times> buffer) \<Rightarrow> fault + (http_context \<times> buffer) \<Rightarrow> bool" where
  "same_reception a b \<longleftrightarrow>
     (case (a, b) of
        (Inl e, Inl e') \<Rightarrow> e = e'
      | (Inr (c, buf), Inr (c', buf')) \<Rightarrow>
          c = c' \<and> (recv_statu c = RECV_HTTP_ERROR \<or> content buf = content buf')
      | _ \<Rightarrow> False)"

text \<open>
  C11. RecvHttpRequest on a well-formed buffer does on the buffer's readable bytes exactly what the
  parser on byte strings does: the same fault if there is one, and otherwise the same context,
  with the buffer left well-formed and holding exactly the bytes the parser did not use.  In
  particular the header loop of RecvHttpHead ends, and no 64-bit computation wraps.
\<close>

theorem recv_request_refines_bytes:
  assumes "buf_wf buf" and "context_wf c"
  shows "case recv_bytes (content buf) c of Inl e \<Rightarrow> RecvHttpRequest buf c = Inl e
     | Inr (c', s) \<Rightarrow> \<exists>buf'. RecvHttpRequest buf c = Inr (c', buf') \<and> buf_wf buf' \<and> content buf' = s \<and> context_wf c'"
  using RecvHttpRequest_sim[OF assms] recv_bytes_wf[OF _ assms(2)]
  by (auto simp: recv_sim_def split: sum.splits)

theorem recv_request_refines_bytes_witness:
  "\<exists>c' buf'. RecvHttpRequest Buffer_new HttpContext_new = Inr (c', buf') \<and> content buf' = []"
proof -
  have "recv_bytes [] HttpContext_new = Inr (HttpContext_new, [])"
    by (simp add: recv_bytes_def bytes_rest_def bytes_line_def first_line_def HttpContext_new_def)
  with recv_request_refines_bytes[OF buf_wf_new context_wf_new(1)] show ?thesis by auto
qed

text \<open>
  C12. It does not matter how the bytes of a connection are cut into reads: receiving them in any
  pieces ends in the same fault, or in the same context with the same bytes left over, as
  receiving them all at once (after an error only the context counts, as the server drops the rest).
\<close>

theorem reception_ignores_chunking:
  assumes "buf_wf buf" and "context_wf c" and "ds \<noteq> []" and "has_room buf (length (concat ds))"
  shows "same_reception (recv_chunks [concat ds] buf c) (recv_chunks ds buf c)"
proof -
  have one: "same_outcome (bytes_chunks [concat ds] (content buf) c) (bytes_chunks ds (content buf) c)"
    using bytes_chunks_concat[OF assms(3), of "content buf" c] bytes_chunks_concat[of "[concat ds]" "content buf" c]
    by (auto simp: same_outcome_def split: sum.splits prod.splits)
  have "has_room buf (length (concat [concat ds]))" using assms(4) by simp
  from recv_chunks_bytes[OF assms(1) this assms(2)] recv_chunks_bytes[OF assms(1,4,2)] one
  show ?thesis
    by (auto simp: same_outcome_def same_reception_def simp del: recv_chunks.simps bytes_chunks.simps split: sum.splits)
qed

theorem reception_ignores_chunking_witness:
  "same_reception (recv_chunks [concat [''GET / HT'', ''TP/1.1'', [CHR 0x0D, CHR 0x0A]]] Buffer_new HttpContext_new)
     (recv_chunks [''GET / HT'', ''TP/1.1'', [CHR 0x0D, CHR 0x0A]] Buffer_new HttpContext_new)"
  by (rule reception_ignores_chunking[OF buf_wf_new context_wf_new(1)])
     (simp_all add: has_room_def Buffer_new_def max_size_def)

text \<open>
  C13. Round trip: a request printed by a client (one of the five methods, an ASCII path and ASCII
  parameters URL-encoded, any headers without a colon-space in the name, and a body of the
  length its Content-Length announces), sent in any pieces and followed by any further bytes, is
  received completely: same method, path, parameters, headers and body, state OVER, status
  200, and the further bytes are left in the buffer for the next request.
\<close>

theorem request_roundtrip:
  assumes "request_ok m path params hs body" and "concat ds = print_request m path params hs body @ rest"
    and "has_room Buffer_new (length (concat ds))"
  shows "\<exists>c buf. recv_chunks ds Buffer_new HttpContext_new = Inr (c, buf)
     \<and> received m path ''HTTP/1.1'' params hs body c \<and> buf_wf buf \<and> content buf = rest"
proof -
  have "ds \<noteq> []" using assms(2) by (auto simp: print_request_def crlf_def)
  let ?c = "parsed_context m path ''HTTP/1.1'' params hs body"
  have c: "recv_bytes (concat ds) HttpContext_new = Inr (?c, rest)" "received m path ''HTTP/1.1'' params hs body ?c"
    unfolding assms(2) by (rule recv_bytes_print[OF assms(1)], rule received_parsed)
  from bytes_chunks_concat[OF \<open>ds \<noteq> []\<close>, of "[]" HttpContext_new] c
  have "bytes_chunks ds [] HttpContext_new = Inr (?c, rest)"
    by (auto simp: same_outcome_def received_def split: sum.splits)
  with recv_chunks_bytes[OF buf_wf_new assms(3) context_wf_new(1)] c(2) show ?thesis by auto
qed

lemma request_ok_example:
  "request_ok ''POST'' ''/a b'' [(''q'', ''x&y'')] [(''Host'', ''h''), (''Content-Length'', ''2'')] ''hi''"
proof -
  have "stol ''2'' = Inr 2" by (simp add: stol_def isspace_def isdigit_def digits_value_def)
  then show ?thesis
    by (simp add: request_ok_def methods_def ascii_def print_line_def raw_line_def print_param_def crlf_def MAX_LINE_def
        header_ok_def newline_def max_size_def percent_def unreserved_def isalnum_def)
qed

theorem request_roundtrip_witness:
  defines "p \<equiv> print_request ''POST'' ''/a b'' [(''q'', ''x&y'')] [(''Host'', ''h''), (''Content-Length'', ''2'')] ''hi''"
  shows "\<exists>c buf. recv_chunks [take 7 p, drop 7 p, ''GET''] Buffer_new HttpContext_new = Inr (c, buf)
     \<and> received ''POST'' ''/a b'' ''HTTP/1.1'' [(''q'', ''x&y'')] [(''Host'', ''h''), (''Content-Length'', ''2'')] ''hi'' c
     \<and> buf_wf buf \<and> content buf = ''GET''"
proof (rule request_roundtrip[OF request_ok_example])
  show cat: "concat [take 7 p, drop 7 p, ''GET''] = print_request ''POST'' ''/a b'' [(''q'', ''x&y'')]
      [(''Host'', ''h''), (''Content-Length'', ''2'')] ''hi'' @ ''GET''"
    by (simp add: p_def)
  have "length p \<le> 200"
    by (simp add: p_def print_request_def print_line_def raw_line_def print_param_def print_header_def crlf_def
        percent_def unreserved_def isalnum_def)
  then show "has_room Buffer_new (length (concat [take 7 p, drop 7 p, ''GET'']))"
    by (simp add: has_room_def Buffer_new_def max_size_def)
qed

text \<open>What the pieces of a query stand for: the text before the first equals sign and the text
  after it, both decoded with the plus sign read as a space.\<close>

definition has_equals :: "string \<Rightarrow> bool" where
  "has_equals w \<longleftrightarrow> CHR ''='' \<in> set w"

definition piece_param :: "string \<Rightarrow> string \<times> string" where
  "piece_param w = (UrlDecode (takeWhile (\<lambda>x. x \<noteq> CHR ''='') w) True, UrlDecode (tl (dropWhile (\<lambda>x. x \<noteq> CHR ''='') w)) True)"

definition query_pieces :: "string option \<Rightarrow> string list" where
  "query_pieces q = filter (\<lambda>w. w \<noteq> []) (split_fields ''&'' (case q of None \<Rightarrow> [] | Some w \<Rightarrow> w))"

lemma str_find_equals:
  "str_find w ''='' 0 = (if has_equals w then Some (length (takeWhile (\<lambda>x. x \<noteq> CHR ''='') w)) else None)"
proof (cases "has_equals w")
  case True
  then obtain ys zs where w: "w = ys @ CHR ''='' # zs" "CHR ''='' \<notin> set ys"
    using split_list_first by (fastforce simp: has_equals_def)
  then have "takeWhile (\<lambda>x. x \<noteq> CHR ''='') w = ys" by (subst w(1), subst takeWhile_append2) auto
  with w True show ?thesis using find_sub_char[OF w(2), of zs] by (simp add: str_find_def)
qed (simp add: has_equals_def str_find_def find_sub_char_None)

lemma piece_param_parts:
  assumes "has_equals w"
  defines "n \<equiv> length (takeWhile (\<lambda>x. x \<noteq> CHR ''='') w)"
  shows "piece_param w = (UrlDecode (take n w) True, UrlDecode (drop (n + 1) w) True)"
proof -
  have "take n w = takeWhile (\<lambda>x. x \<noteq> CHR ''='') w"
    unfolding n_def by (rule takeWhile_eq_take[symmetric])
  moreover have "drop n w = dropWhile (\<lambda>x. x \<noteq> CHR ''='') w"
    unfolding n_def by (rule dropWhile_eq_drop[symmetric])
  then have "drop (n + 1) w = tl (dropWhile (\<lambda>x. x \<noteq> CHR ''='') w)"
    by (simp only: Suc_eq_plus1[symmetric] drop_Suc drop_tl)
  ultimately show ?thesis by (simp add: piece_param_def)
qed

lemma query_params_reads:
  "query_params ws c =
     (let c1 = c\<lparr>request := fold (\<lambda>(k, v). SetParam k v) (map piece_param (takeWhile has_equals ws)) (request c)\<rparr> in
      if \<forall>w \<in> set ws. has_equals w then (c1, True) else (bad 400 c1, False))"
proof (induction ws arbitrary: c)
  case (Cons w ws)
  show ?case
  proof (cases "has_equals w")
    case True
    then show ?thesis using Cons.IH piece_param_parts[OF True] by (simp add: str_find_equals Let_def)
  qed (simp add: str_find_equals)
qed simp

lemma fold_SetParam_fields: "\<exists>qs. fold (\<lambda>(k, v). SetParam k v) ps r = r\<lparr>rq_params := qs\<rparr>"
proof (induction ps arbitrary: r)
  case Nil
  show ?case by (rule exI[of _ "rq_params r"]) simp
next
  case (Cons p ps)
  obtain a b where p: "p = (a, b)" by force
  from Cons.IH[of "SetParam a b r"] show ?case by (auto simp: p SetParam_def)
qed

lemma fold_SetParam_look:
  "map_of (rq_params (fold (\<lambda>(k, v). SetParam k v) ps r)) k
     = (case map_of (rq_params r) k of Some v \<Rightarrow> Some v | None \<Rightarrow> map_of ps k)"
proof (induction ps arbitrary: r)
  case (Cons p ps)
  obtain a b where p: "p = (a, b)" by force
  show ?case using Cons.IH[of "SetParam a b r"]
    by (simp add: p SetParam_def str_maps.look_ins split: option.splits)
qed (simp split: option.splits)

text \<open>
  C25. ParseHttpLine accepts exactly the request lines of the form method, space, path, optional
  query, space, HTTP/1.0 or HTTP/1.1 and line end, and reads such a line in the only possible way:
  the method in upper case, the URL-decoded path, the version as written, and as parameters the
  decoded halves of the non-empty pieces between the query's ampersands, split at the first equals
  sign (the first of equal names counts, a name already there stays), up to the first piece without
  one; nothing else of the request changes.  When every piece has its sign the result is true and
  both states are as they were; otherwise it is false, the context is in error and the status is
  400.  A line of any other form gives false, the error state and 400.
\<close>

theorem parse_line_correct:
  shows "(request_line_form line m p q v eol \<longrightarrow>
     (\<exists>ps. ParseHttpLine line c =
          (let rq = (request c)\<lparr>rq_method := map toupper m, rq_path := UrlDecode p False, rq_version := v, rq_params := ps\<rparr> in
           Inr (if \<forall>w \<in> set (query_pieces q). has_equals w then (c\<lparr>request := rq\<rparr>, True)
                else (c\<lparr>request := rq, recv_statu := RECV_HTTP_ERROR, resp_statu := 400\<rparr>, False)))
        \<and> map toupper m \<in> set methods
        \<and> (\<forall>k. map_of ps k = (case map_of (rq_params (request c)) k of Some x \<Rightarrow> Some x
             | None \<Rightarrow> map_of (map piece_param (takeWhile has_equals (query_pieces q))) k))))
   \<and> ((\<nexists>m p q v eol. request_line_form line m p q v eol) \<longrightarrow> ParseHttpLine line c = Inr (bad 400 c, False))"
proof (intro conjI impI)
  assume form: "request_line_form line m p q v eol"
  let ?caps = "line_captures m p q v" and ?q = "case q of None \<Rightarrow> [] | Some w \<Rightarrow> w"
  let ?rq = "(request c)\<lparr>rq_method := map toupper m, rq_path := UrlDecode p False, rq_version := v\<rparr>"
  let ?ps = "map piece_param (takeWhile has_equals (query_pieces q))"
  have match: "regex_match request_line_rx line = Some ?caps"
    unfolding regex_match_request_line using form by blast
  have caps: "capture 1 ?caps = m" "capture 2 ?caps = p" "capture 3 ?caps = ?q" "capture 4 ?caps = v"
    by (simp_all add: capture_def line_captures_def split: option.splits)
  have "Split ?q ''&'' [] = Some (query_pieces q)" by (simp add: Split_fields query_pieces_def)
  then have run: "ParseHttpLine line c = Inr (query_params (query_pieces q) (c\<lparr>request := ?rq\<rparr>))"
    by (simp only: ParseHttpLine_def match option.case caps Let_def)
  from form have "lang method_rx m" by (simp add: request_line_form_def)
  then have up: "map toupper m \<in> set methods" by (simp add: method_upper)
  obtain qs where read: "fold (\<lambda>(k, v). SetParam k v) ?ps ?rq = ?rq\<lparr>rq_params := qs\<rparr>"
    using fold_SetParam_fields by blast
  show "\<exists>ps. ParseHttpLine line c =
          (let rq = (request c)\<lparr>rq_method := map toupper m, rq_path := UrlDecode p False, rq_version := v, rq_params := ps\<rparr> in
           Inr (if \<forall>w \<in> set (query_pieces q). has_equals w then (c\<lparr>request := rq\<rparr>, True)
                else (c\<lparr>request := rq, recv_statu := RECV_HTTP_ERROR, resp_statu := 400\<rparr>, False)))
        \<and> map toupper m \<in> set methods
        \<and> (\<forall>k. map_of ps k = (case map_of (rq_params (request c)) k of Some x \<Rightarrow> Some x
             | None \<Rightarrow> map_of (map piece_param (takeWhile has_equals (query_pieces q))) k))"
    using up fold_SetParam_look[of ?ps ?rq] unfolding run query_params_reads read
    by (intro exI[of _ qs]) (simp add: read bad_def Let_def)
qed (rule ParseHttpLine_refused)

theorem parse_line_correct_witness:
  "\<exists>ps. ParseHttpLine (''GET /x?a=1+2&a=3&b HTTP/1.1'' @ crlf) HttpContext_new =
     Inr (HttpContext_new\<lparr>request := HttpRequest_new\<lparr>rq_method := ''GET'', rq_path := ''/x'', rq_version := ''HTTP/1.1'',
       rq_params := ps\<rparr>, recv_statu := RECV_HTTP_ERROR, resp_statu := 400\<rparr>, False)
     \<and> map_of ps ''a'' = Some ''1 2'' \<and> map_of ps ''b'' = None"
proof -
  have "lang method_rx ''GET''" by (simp add: method_upper methods_def toupper_def)
  then have form: "request_line_form (''GET /x?a=1+2&a=3&b HTTP/1.1'' @ crlf) ''GET'' ''/x'' (Some ''a=1+2&a=3&b'') ''HTTP/1.1'' crlf"
    using version_11 by (simp add: request_line_form_def crlf_def not_line_end_def)
  have pieces: "query_pieces (Some ''a=1+2&a=3&b'') = [''a=1+2'', ''a=3'', ''b'']"
    by (simp add: query_pieces_def split_fields.simps)
  have path: "UrlDecode ''/x'' False = ''/x''" by (simp add: UrlDecode_ascii)
  have params: "piece_param ''a=1+2'' = (''a'', ''1 2'')" "piece_param ''a=3'' = (''a'', ''3'')"
    by (simp_all add: piece_param_def)
  have new: "request HttpContext_new = HttpRequest_new" "rq_params HttpRequest_new = []"
    by (simp_all add: HttpContext_new_def HttpRequest_new_def)
  from parse_line_correct[THEN conjunct1, rule_format, OF form, of HttpContext_new] show ?thesis
    by (elim ex_forward) (simp add: pieces params new path has_equals_def toupper_def)
qed

text \<open>
  No line longer than MAX_LINE is waited for or used: in the states LINE and HEAD, when more
  than 8192 bytes are readable and the first 8192 hold no newline, the context goes to the error
  state with status 414, whatever follows.
\<close>

theorem long_lines_rejected:
  assumes "buf_wf buf" and "context_wf c" and "recv_statu c = RECV_HTTP_LINE \<or> recv_statu c = RECV_HTTP_HEAD"
    and "MAX_LINE < length (content buf)" and "newline \<notin> set (take MAX_LINE (content buf))"
  shows "\<exists>buf'. RecvHttpRequest buf c = Inr (bad 414 c, buf')"
proof -
  let ?s = "content buf"
  have long: "first_line ?s = [] \<or> MAX_LINE < length (first_line ?s)"
  proof (cases "newline \<in> set ?s")
    case True
    have "takeWhile (\<lambda>c. c \<noteq> newline) (take MAX_LINE ?s @ drop MAX_LINE ?s)
        = take MAX_LINE ?s @ takeWhile (\<lambda>c. c \<noteq> newline) (drop MAX_LINE ?s)"
      using assms(5) by (intro takeWhile_append2) auto
    then have "MAX_LINE \<le> length (takeWhile (\<lambda>c. c \<noteq> newline) ?s)"
      unfolding append_take_drop_id using assms(4) by simp
    then show ?thesis using True by (simp add: first_line_def)
  qed (simp add: first_line_def)
  have "\<exists>r. recv_bytes ?s c = Inr (bad 414 c, r)"
    using assms(3)
  proof
    assume st: "recv_statu c = RECV_HTTP_LINE"
    have "\<exists>r. bytes_line ?s c = Inr (bad 414 c, r)" using long assms(4) by (auto simp: bytes_line_def Let_def)
    with st show ?thesis by (auto simp: recv_bytes_def bytes_rest_def)
  next
    assume st: "recv_statu c = RECV_HTTP_HEAD"
    have "\<exists>r. bytes_head ?s c = Inr (bad 414 c, r)"
      using long assms(4) by (subst bytes_head.simps) (auto simp: Let_def)
    with st show ?thesis by (auto simp: recv_bytes_def bytes_rest_def)
  qed
  with RecvHttpRequest_sim[OF assms(1,2)] show ?thesis by auto
qed

lemma WriteAndPush_new:
  assumes "length d \<le> 2 ^ 32"
  shows "\<exists>b. WriteAndPush d Buffer_new = Inr b \<and> buf_wf b \<and> content b = d"
proof -
  have "has_room Buffer_new (length d)" using assms by (simp add: has_room_def Buffer_new_def max_size_def)
  from WriteAndPush_ok[OF buf_wf_new this] show ?thesis by auto
qed

theorem long_lines_rejected_witness:
  "\<exists>buf. WriteAndPush (replicate 8193 CHR ''x'') Buffer_new = Inr buf
     \<and> (\<exists>buf'. RecvHttpRequest buf HttpContext_new = Inr (bad 414 HttpContext_new, buf'))"
proof -
  from WriteAndPush_new[of "replicate 8193 CHR ''x''"] obtain b where b:
    "WriteAndPush (replicate 8193 CHR ''x'') Buffer_new = Inr b" "buf_wf b" "content b = replicate 8193 CHR ''x''"
    by auto
  from long_lines_rejected[OF b(2) context_wf_new(1)] b(1,3) show ?thesis
    by (simp add: HttpContext_new_def MAX_LINE_def newline_def)
qed

text \<open>
  ReSet leaves nothing of the previous request: the context is the one the constructor builds,
  so a request on a kept-alive connection cannot see headers, parameters or body of another.
\<close>

lemma context_reset_is_new: "HttpContext_ReSet c = HttpContext_new"
  by (simp add: HttpContext_ReSet_def HttpContext_new_def HttpRequest_ReSet_def HttpRequest_new_def)

lemma stol_faults: "stol s = Inl e \<Longrightarrow> e = InvalidArgument \<or> e = OutOfRange"
  by (auto simp: stol_def Let_def split: if_splits)

lemma ParseHttpLine_total: "\<exists>r. ParseHttpLine line c = Inr r"
  by (auto simp: ParseHttpLine_def Let_def Split_fields split: option.splits)

lemma ParseHttpHead_total:
  assumes "first_line s \<noteq> []" "first_line s \<noteq> [CHR 0x0A]"
  shows "\<exists>r. ParseHttpHead (first_line s) c = Inr r"
proof -
  from assms(1) newline_line[of s] obtain l where l: "first_line s = l @ [CHR 0x0A]"
    by (auto simp: first_line_eq_Nil newline_def)
  with assms(2) have "l \<noteq> []" by auto
  then have "strip_back CHR 0x0A (first_line s) = Inr l" "strip_back CHR 0x0D l \<noteq> Inl e" for e
    using l strip_back_snoc by (auto simp: strip_back_def)
  then show ?thesis by (cases "strip_back CHR 0x0D l") (auto simp: ParseHttpHead_def split: option.splits)
qed

lemma bytes_head_total: "\<exists>r. bytes_head s c = Inr r"
proof (induction s c rule: bytes_head.induct)
  case (1 s c)
  show ?case
  proof (cases "first_line s = [] \<or> length (first_line s) > MAX_LINE \<or> first_line s = [CHR 0x0A]
      \<or> first_line s = [CHR 0x0D, CHR 0x0A]")
    case True
    then show ?thesis by (subst bytes_head.simps) (auto simp: Let_def)
  next
    case False
    then obtain d r where p: "ParseHttpHead (first_line s) c = Inr (d, r)" using ParseHttpHead_total[of s c] by auto
    show ?thesis
    proof (cases r)
      case True
      with 1[OF refl refl _ _ _ p refl] False p show ?thesis by (simp add: bytes_head_step)
    next
      case no: False
      with False p show ?thesis by (simp add: bytes_head_step)
    qed
  qed
qed

lemma recv_bytes_faults:
  assumes "recv_bytes s c = Inl e"
  shows "e = InvalidArgument \<or> e = OutOfRange \<or> e = LengthError"
proof -
  have line_total: "\<exists>r. bytes_line s c = Inr r" for s c
    using ParseHttpLine_total[of "first_line s" c] by (auto simp: bytes_line_def Let_def)
  have "bytes_rest bytes_line RECV_HTTP_LINE x \<noteq> Inl e" "bytes_rest bytes_head RECV_HTTP_HEAD x \<noteq> Inl e" for x
    using line_total bytes_head_total by (auto simp: bytes_rest_def split: prod.splits) (metis Inl_Inr_False)+
  then obtain x where "bytes_rest bytes_body RECV_HTTP_BODY x = Inl e"
    using assms by (auto simp: recv_bytes_def and_then_eq_Inl)
  then obtain c' s' where "bytes_body s' c' = Inl e"
    by (auto simp: bytes_rest_def split: prod.splits if_splits)
  then show ?thesis
    using stol_faults by (auto simp: bytes_body_def and_then_eq_Inl ContentLength_def Let_def split: if_splits)
qed

text \<open>
  C26. Receiving never runs into undefined behaviour, a failed assert or an endless loop, whatever
  the peer sends: the only ways RecvHttpRequest does not return are the exceptions of std::stol on
  the Content-Length and the length error of a body beyond the largest string.
\<close>

theorem recv_request_faults:
  assumes "buf_wf buf" and "context_wf c" and "RecvHttpRequest buf c = Inl e"
  shows "e = InvalidArgument \<or> e = OutOfRange \<or> e = LengthError"
proof -
  have "recv_bytes (content buf) c = Inl e"
    using RecvHttpRequest_sim[OF assms(1,2)] assms(3) by (auto simp: recv_sim_def split: sum.splits)
  then show ?thesis by (rule recv_bytes_faults)
qed

theorem recv_request_faults_witness:
  defines "e \<equiv> InvalidArgument"
  shows "\<exists>buf. WriteAndPush (raw_line ''GET'' ''/'' ''HTTP/1.1'' [] @ print_header (''Content-Length'', ''x'') @ crlf) Buffer_new = Inr buf
     \<and> RecvHttpRequest buf HttpContext_new = Inl e \<and> (e = InvalidArgument \<or> e = OutOfRange \<or> e = LengthError)"
proof -
  let ?hs = "[(''Content-Length'', ''x'')]"
  let ?s = "raw_line ''GET'' ''/'' ''HTTP/1.1'' [] @ concat (map print_header ?hs) @ crlf @ []"
  have len: "length (raw_line ''GET'' ''/'' ''HTTP/1.1'' []) \<le> MAX_LINE"
    by (simp add: raw_line_def crlf_def MAX_LINE_def)
  then have "length ?s \<le> 2 ^ 32" by (simp add: print_header_def crlf_def MAX_LINE_def)
  from WriteAndPush_new[OF this] obtain b where b: "WriteAndPush ?s Buffer_new = Inr b" "buf_wf b" "content b = ?s"
    by blast
  let ?c1 = "(parsed_line ''GET'' (UrlDecode ''/'' False) ''HTTP/1.1'' [] HttpContext_new)\<lparr>recv_statu := RECV_HTTP_HEAD\<rparr>"
  have 1: "bytes_line ?s HttpContext_new = Inr (?c1, concat (map print_header ?hs) @ crlf @ [])"
    by (rule bytes_line_raw[OF _ _ _ _ _ len]) (simp_all add: methods_def newline_def)
  have 2: "bytes_head (concat (map print_header ?hs) @ crlf @ []) ?c1
      = Inr (?c1\<lparr>request := fold (\<lambda>(k, v). SetHeader k v) ?hs (request ?c1), recv_statu := RECV_HTTP_BODY\<rparr>, [])"
    by (rule bytes_head_print) (simp add: header_ok_def newline_def MAX_LINE_def)
  have "stol ''x'' = Inl InvalidArgument" by (simp add: stol_def isspace_def isdigit_def)
  then have "recv_bytes ?s HttpContext_new = Inl e"
    using 1 2 by (simp add: recv_bytes_def bytes_rest_def bytes_body_def ContentLength_def HasHeader_def GetHeader_def
        SetHeader_def map_insert_def map_has_def map_get_def parsed_line_def HttpContext_new_def HttpRequest_new_def e_def)
  with RecvHttpRequest_sim[OF b(2) context_wf_new(1)] b(3) have "RecvHttpRequest b HttpContext_new = Inl e"
    by simp
  with recv_request_faults[OF b(2) context_wf_new(1) this] b(1) show ?thesis by auto
qed

end
