(* ===== verification/SocketIO.thy ===== *)
theory SocketIO
  imports ServerPrelude
begin

text \<open>
  The class Socket of source/server.hpp.  The kernel is a parameter \<open>sys\<close>: what each system call
  returns.  The operations return the new state, their result and the calls they made, in order;
  sending and receiving take what the kernel answered (return value and errno).
\<close>

section \<open>State and system calls\<close>

datatype syscall =
    Sys_socket
  | Sys_bind int string "16 word"
  | Sys_listen int int
  | Sys_connect int string "16 word"
  | Sys_accept int
  | Sys_setsockopt_reuseaddr int
  | Sys_setsockopt_reuseport int
  | Sys_fcntl_getfl int
  | Sys_fcntl_setfl int int
  | Sys_close int

record socket =
  sockfd :: int

type_synonym kernel = "syscall \<Rightarrow> int"

definition Socket_new :: "int \<Rightarrow> socket" where
  "Socket_new fd = \<lparr>sockfd = fd\<rparr>"

definition MAX_LISTEN :: int where
  "MAX_LISTEN = 1024"

section \<open>Operations\<close>

definition Create :: "kernel \<Rightarrow> socket \<Rightarrow> socket \<times> bool \<times> syscall list" where
  "Create sys s = (let fd = sys Sys_socket in (s\<lparr>sockfd := fd\<rparr>, \<not> fd < 0, [Sys_socket]))"

definition Bind :: "kernel \<Rightarrow> string \<Rightarrow> 16 word \<Rightarrow> socket \<Rightarrow> bool \<times> syscall list" where
  "Bind sys ip port s = (let c = Sys_bind (sockfd s) ip port in (\<not> sys c < 0, [c]))"

definition Listen :: "kernel \<Rightarrow> int \<Rightarrow> socket \<Rightarrow> bool \<times> syscall list" where
  "Listen sys backlog s = (let c = Sys_listen (sockfd s) backlog in (\<not> sys c < 0, [c]))"

definition Connect :: "kernel \<Rightarrow> string \<Rightarrow> 16 word \<Rightarrow> socket \<Rightarrow> bool \<times> syscall list" where
  "Connect sys ip port s = (let c = Sys_connect (sockfd s) ip port in (\<not> sys c < 0, [c]))"

definition Accept :: "kernel \<Rightarrow> socket \<Rightarrow> int \<times> syscall list" where
  "Accept sys s = (let c = Sys_accept (sockfd s); newfd = sys c in (if newfd < 0 then -1 else newfd, [c]))"

definition ReuseAddress :: "socket \<Rightarrow> syscall list" where
  "ReuseAddress s = [Sys_setsockopt_reuseaddr (sockfd s), Sys_setsockopt_reuseport (sockfd s)]"

text \<open>\<open>flag | O_NONBLOCK\<close> on the flags word of the descriptor; O_NONBLOCK is 2048 on Linux.\<close>

definition O_NONBLOCK :: int where
  "O_NONBLOCK = 2048"

definition NonBlock :: "kernel \<Rightarrow> socket \<Rightarrow> syscall list" where
  "NonBlock sys s = (let flag = sys (Sys_fcntl_getfl (sockfd s)) in
     [Sys_fcntl_getfl (sockfd s), Sys_fcntl_setfl (sockfd s) (or flag O_NONBLOCK)])"

definition Close :: "socket \<Rightarrow> socket \<times> syscall list" where
  "Close s = (if sockfd s \<noteq> -1 then (s\<lparr>sockfd := -1\<rparr>, [Sys_close (sockfd s)]) else (s, []))"

definition CreateServer ::
  "kernel \<Rightarrow> 16 word \<Rightarrow> string \<Rightarrow> bool \<Rightarrow> socket \<Rightarrow> socket \<times> bool \<times> syscall list" where
  "CreateServer sys port ip block_flag s =
     (case Create sys s of (s, ok, c1) \<Rightarrow>
      if \<not> ok then (s, False, c1) else
      let c2 = (if block_flag then NonBlock sys s else []) in
      case Bind sys ip port s of (ok, c3) \<Rightarrow>
      if \<not> ok then (s, False, c1 @ c2 @ c3) else
      case Listen sys MAX_LISTEN s of (ok, c4) \<Rightarrow>
      if \<not> ok then (s, False, c1 @ c2 @ c3 @ c4) else
      (s, True, c1 @ c2 @ c3 @ c4 @ ReuseAddress s))"

definition CreateClient ::
  "kernel \<Rightarrow> 16 word \<Rightarrow> string \<Rightarrow> socket \<Rightarrow> socket \<times> bool \<times> syscall list" where
  "CreateClient sys port ip s =
     (case Create sys s of (s, ok, c1) \<Rightarrow>
      if \<not> ok then (s, False, c1) else
      case Connect sys ip port s of (ok, c2) \<Rightarrow> (s, ok, c1 @ c2))"

text \<open>
  What recv and send answered: the return value, errno as it stands after the call, and for recv
  the bytes.  A call that succeeds leaves errno as it was before.
\<close>

datatype errno = EAGAIN | EINTR | Other_errno

definition Recv :: "int \<Rightarrow> errno \<Rightarrow> int" where
  "Recv ret err =
     (if ret \<le> 0 then (if err = EAGAIN \<or> err = EINTR then 0 else -1) else ret)"

definition NonBlockRecv :: "int \<Rightarrow> errno \<Rightarrow> int" where
  "NonBlockRecv ret err = Recv ret err"

definition Send :: "int \<Rightarrow> errno \<Rightarrow> int" where
  "Send ret err = (if ret < 0 then (if err = EAGAIN \<or> err = EINTR then 0 else -1) else ret)"

definition NonBlockSend :: "nat \<Rightarrow> int \<Rightarrow> errno \<Rightarrow> int" where
  "NonBlockSend len ret err = (if len = 0 then 0 else Send ret err)"

section \<open>Properties\<close>

text \<open>
  NonBlockRecv reports every outcome of recv as it means to, end of file only when errno is
  not left at EAGAIN or EINTR: a positive count is returned as it is; a failure with EAGAIN or
  EINTR is 0, no data; any other failure is -1; and a zero count, the peer's close, is -1 exactly
  when errno is neither EAGAIN nor EINTR.
\<close>

lemma nonblock_recv_outcomes:
  "(0 < ret \<longrightarrow> NonBlockRecv ret err = ret)
   \<and> (ret < 0 \<longrightarrow> NonBlockRecv ret err = (if err \<in> {EAGAIN, EINTR} then 0 else -1))
   \<and> (NonBlockRecv 0 err = -1 \<longleftrightarrow> err = Other_errno)"
  by (cases err) (auto simp: NonBlockRecv_def Recv_def)

lemma nonblock_recv_outcomes_witness:
  "NonBlockRecv 5 EAGAIN = 5 \<and> NonBlockRecv (-1) EINTR = 0 \<and> NonBlockRecv (-1) Other_errno = -1"
  using nonblock_recv_outcomes[of 5 EAGAIN] nonblock_recv_outcomes[of "-1" EINTR]
    nonblock_recv_outcomes[of "-1" Other_errno] by simp

text \<open>A close reported with a stale errno is taken for "no data": the connection stays open.\<close>

theorem stale_errno_hides_close: "NonBlockRecv 0 EAGAIN = 0"
  by (simp add: NonBlockRecv_def Recv_def)

text \<open>
  CreateServer makes its system calls in one order and stops at the first that fails: socket,
  bind, listen, and on success the two options; it succeeds exactly when socket, bind and listen
  do.  (The options that allow a restart on a used address are set after the bind they are for.)
\<close>

theorem create_server_calls:
  assumes "CreateServer sys port ip False s = (s', ok, calls)"
  shows "sockfd s' = sys Sys_socket
   \<and> (ok \<longleftrightarrow> 0 \<le> sys Sys_socket \<and> 0 \<le> sys (Sys_bind (sockfd s') ip port)
            \<and> 0 \<le> sys (Sys_listen (sockfd s') 1024))
   \<and> (ok \<longrightarrow> calls = [Sys_socket, Sys_bind (sockfd s') ip port, Sys_listen (sockfd s') 1024,
                     Sys_setsockopt_reuseaddr (sockfd s'), Sys_setsockopt_reuseport (sockfd s')])
   \<and> (\<not> ok \<longrightarrow> (\<exists>n \<in> {1, 2, 3}. calls = take n [Sys_socket, Sys_bind (sockfd s') ip port,
           Sys_listen (sockfd s') 1024] \<and> sys (last calls) < 0))"
  using assms
  by (auto simp: CreateServer_def Create_def Bind_def Listen_def ReuseAddress_def MAX_LISTEN_def Let_def
      split: if_splits)

theorem create_server_calls_witness:
  "\<exists>s' ok calls. CreateServer (\<lambda>c. case c of Sys_listen _ _ \<Rightarrow> -1 | _ \<Rightarrow> 7) 80 ''0.0.0.0'' False (Socket_new (-1)) = (s', ok, calls)
     \<and> \<not> ok \<and> length calls = 3"
proof -
  let ?sys = "\<lambda>c. case c of Sys_listen _ _ \<Rightarrow> -1 | _ \<Rightarrow> (7::int)"
  obtain s' ok calls where r: "CreateServer ?sys 80 ''0.0.0.0'' False (Socket_new (-1)) = (s', ok, calls)"
    by (metis prod_cases3)
  from create_server_calls[OF r] have "\<not> ok" by simp
  moreover have "length calls = 3"
    using r by (auto simp: CreateServer_def Create_def Bind_def Listen_def Socket_new_def MAX_LISTEN_def)
  ultimately show ?thesis using r by blast
qed

end
