(* ===== verification/LoopPool.thy ===== *)
theory LoopPool
  imports ServerPrelude "HOL-Library.Signed_Division"
begin

text \<open>
  The class LoopThreadPool of source/server.hpp: the loops of the worker threads handed out round
  robin.  A loop is known by its address, of a type \<open>'l\<close>; what starting the threads yields is an
  argument of Create.
\<close>

section \<open>State and operations\<close>

record 'l loop_pool =
  thread_count :: int
  next_idx :: int
  baseloop :: 'l
  loops :: "'l list"

definition LoopThreadPool_new :: "'l \<Rightarrow> 'l loop_pool" where
  "LoopThreadPool_new base = \<lparr>thread_count = 0, next_idx = 0, baseloop = base, loops = []\<rparr>"

definition SetThreadCount :: "int \<Rightarrow> 'l loop_pool \<Rightarrow> 'l loop_pool" where
  "SetThreadCount count p = p\<lparr>thread_count := count\<rparr>"

text \<open>\<open>started i\<close> is the loop GetLoop returned for the i-th new thread.\<close>

definition Pool_Create :: "(nat \<Rightarrow> 'l) \<Rightarrow> 'l loop_pool \<Rightarrow> 'l loop_pool" where
  "Pool_Create started p =
     (if 0 < thread_count p then p\<lparr>loops := map started [0..<nat (thread_count p)]\<rparr> else p)"

text \<open>The remainder of int is that of C++, truncated; the vector is indexed without a check.\<close>

definition NextLoop :: "'l loop_pool \<Rightarrow> fault + ('l \<times> 'l loop_pool)" where
  "NextLoop p =
     (if thread_count p = 0 then Inr (baseloop p, p)
      else let i = (next_idx p + 1) smod thread_count p in
        if 0 \<le> i \<and> i < int (length (loops p))
        then Inr (loops p ! nat i, p\<lparr>next_idx := i\<rparr>) else Inl OutOfBounds)"

section \<open>Handing out loops in turn\<close>

text \<open>
  The contract the two thread pools of the repository share: the loops of a fixed ring are handed out
  one after the other, from a position that moves on by one and starts again at the end.
\<close>

fun next_loops :: "('p \<Rightarrow> fault + ('l \<times> 'p)) \<Rightarrow> nat \<Rightarrow> 'p \<Rightarrow> fault + ('l list \<times> 'p)" where
  "next_loops nxt 0 p = Inr ([], p)"
| "next_loops nxt (Suc n) p =
     and_then (nxt p) (\<lambda>(l, p). and_then (next_loops nxt n p) (\<lambda>(ls, p). Inr (l # ls, p)))"

locale round_robin =
  fixes nxt :: "'p \<Rightarrow> fault + ('l \<times> 'p)"
    and ready :: "'p \<Rightarrow> bool"
    and ring :: "'p \<Rightarrow> 'l list"
    and pos :: "'p \<Rightarrow> nat"
  assumes pos_in_ring: "ready p \<Longrightarrow> pos p < length (ring p)"
    and nxt_ok: "ready p \<Longrightarrow> \<exists>p'. nxt p = Inr (ring p ! pos p, p') \<and> ready p' \<and> ring p' = ring p
      \<and> pos p' = Suc (pos p) mod length (ring p)"
begin

lemma in_turn:
  "ready p \<Longrightarrow> \<exists>p'. next_loops nxt k p = Inr (map (\<lambda>j. ring p ! ((pos p + j) mod length (ring p))) [0..<k], p')
     \<and> ready p' \<and> ring p' = ring p"
proof (induction k arbitrary: p)
  case (Suc k)
  from nxt_ok[OF Suc.prems] obtain p1 where p1: "nxt p = Inr (ring p ! pos p, p1)" "ready p1" "ring p1 = ring p"
    "pos p1 = Suc (pos p) mod length (ring p)" by blast
  from Suc.IH[OF p1(2)] obtain p' where "next_loops nxt k p1
      = Inr (map (\<lambda>j. ring p ! ((Suc (pos p) mod length (ring p) + j) mod length (ring p))) [0..<k], p')" "ready p'" "ring p' = ring p"
    by (auto simp: p1)
  moreover have "(Suc (pos p) mod length (ring p) + j) mod length (ring p) = (pos p + Suc j) mod length (ring p)" for j
    by (simp add: mod_simps)
  ultimately show ?case
    using p1(1) pos_in_ring[OF Suc.prems]
    by (simp add: upt_conv_Cons map_Suc_upt[symmetric] del: upt_Suc)
qed simp

text \<open>As many calls as there are loops hand out every loop once: the ring, from the position on.\<close>

lemma one_turn:
  assumes "ready p"
  shows "\<exists>p'. next_loops nxt (length (ring p)) p = Inr (rotate (pos p) (ring p), p') \<and> ready p' \<and> ring p' = ring p"
proof -
  have "map (\<lambda>j. ring p ! ((pos p + j) mod length (ring p))) [0..<length (ring p)] = rotate (pos p) (ring p)"
    by (rule nth_equalityI) (simp_all add: nth_rotate add.commute)
  with in_turn[OF assms, of "length (ring p)"] show ?thesis by simp
qed

end

section \<open>Invariant\<close>

definition pool_wf :: "'l loop_pool \<Rightarrow> bool" where
  "pool_wf p \<longleftrightarrow> 0 < thread_count p \<and> int (length (loops p)) = thread_count p
     \<and> 0 \<le> next_idx p \<and> next_idx p < thread_count p"

lemma pool_wf_Create:
  "0 < n \<Longrightarrow> pool_wf (Pool_Create started (SetThreadCount n (LoopThreadPool_new base)))"
  by (simp add: pool_wf_def Pool_Create_def SetThreadCount_def LoopThreadPool_new_def)

definition pool_pos :: "'l loop_pool \<Rightarrow> nat" where
  "pool_pos p = Suc (nat (next_idx p)) mod length (loops p)"

lemma pool_pos_less: "pool_wf p \<Longrightarrow> pool_pos p < length (loops p)"
  unfolding pool_pos_def pool_wf_def by (intro mod_less_divisor) linarith

lemma pool_wf_next: "pool_wf p \<Longrightarrow> pool_wf (p\<lparr>next_idx := int (pool_pos p)\<rparr>)"
  using pool_pos_less[of p] by (auto simp: pool_wf_def)

lemma NextLoop_ok:
  assumes wf: "pool_wf p"
  shows "NextLoop p = Inr (loops p ! pool_pos p, p\<lparr>next_idx := int (pool_pos p)\<rparr>)"
proof -
  let ?i = "(next_idx p + 1) mod thread_count p"
  have nonneg: "thread_count p \<noteq> 0" "0 < next_idx p + 1" "0 < thread_count p" using wf by (simp_all add: pool_wf_def)
  have "int (pool_pos p) = ?i"
    using wf by (auto simp: pool_wf_def pool_pos_def zmod_int add.commute)
  moreover have "(next_idx p + 1) smod thread_count p = ?i"
    using nonneg by (simp add: signed_modulo_int_def signed_divide_int_def minus_div_mult_eq_mod)
  ultimately have "(next_idx p + 1) smod thread_count p = int (pool_pos p)" by simp
  with nonneg(1) pool_pos_less[OF wf] show ?thesis by (simp add: NextLoop_def)
qed

interpretation pool_turns: round_robin NextLoop pool_wf loops pool_pos
proof
  fix p :: "'a loop_pool"
  assume wf: "pool_wf p"
  then show "pool_pos p < length (loops p)" by (rule pool_pos_less)
  show "\<exists>p'. NextLoop p = Inr (loops p ! pool_pos p, p') \<and> pool_wf p' \<and> loops p' = loops p
      \<and> pool_pos p' = Suc (pool_pos p) mod length (loops p)"
    using NextLoop_ok[OF wf] pool_wf_next[OF wf] by (auto simp: pool_pos_def)
qed

section \<open>Properties\<close>

text \<open>A negative thread count creates no loop, and the first NextLoop reads outside the vector.\<close>

theorem negative_count_out_of_bounds:
  "NextLoop (Pool_Create started (SetThreadCount (-1) (LoopThreadPool_new base))) = Inl OutOfBounds"
  by (simp add: NextLoop_def Pool_Create_def SetThreadCount_def LoopThreadPool_new_def Let_def)

end
