(* ===== verification/ChannelPoller.thy ===== *)
theory ChannelPoller
  imports ServerPrelude
begin

unbundle bit_operations_syntax

text \<open>
  The classes Channel and Poller of source/server.hpp.  A channel is the event interest of one
  descriptor and its callbacks, which are names of a type \<open>'k\<close> here; the poller knows channels by
  address and tells the kernel about them by \<open>epoll_ctl\<close>.  The calls made are part of the
  poller's state, so what the kernel was told can be reasoned about.
\<close>

section \<open>Channels\<close>

definition EPOLLIN :: u32 where "EPOLLIN = 0x001"
definition EPOLLPRI :: u32 where "EPOLLPRI = 0x002"
definition EPOLLOUT :: u32 where "EPOLLOUT = 0x004"
definition EPOLLERR :: u32 where "EPOLLERR = 0x008"
definition EPOLLHUP :: u32 where "EPOLLHUP = 0x010"
definition EPOLLRDHUP :: u32 where "EPOLLRDHUP = 0x2000"

lemmas epoll_bits = EPOLLIN_def EPOLLPRI_def EPOLLOUT_def EPOLLERR_def EPOLLHUP_def EPOLLRDHUP_def

record 'k channel =
  ch_fd :: int
  ch_events :: u32
  ch_revents :: u32
  read_callback :: "'k option"
  write_callback :: "'k option"
  error_callback :: "'k option"
  close_callback :: "'k option"
  event_callback :: "'k option"

definition Channel_new :: "int \<Rightarrow> 'k channel" where
  "Channel_new fd = \<lparr>ch_fd = fd, ch_events = 0, ch_revents = 0, read_callback = None,
     write_callback = None, error_callback = None, close_callback = None, event_callback = None\<rparr>"

definition SetREvents :: "u32 \<Rightarrow> 'k channel \<Rightarrow> 'k channel" where
  "SetREvents events c = c\<lparr>ch_revents := events\<rparr>"

definition ReadAble :: "'k channel \<Rightarrow> bool" where
  "ReadAble c \<longleftrightarrow> ch_events c AND EPOLLIN \<noteq> 0"

definition WriteAble :: "'k channel \<Rightarrow> bool" where
  "WriteAble c \<longleftrightarrow> ch_events c AND EPOLLOUT \<noteq> 0"

text \<open>
  HandleEvent runs the callbacks for the ready events one after the other.  A callback works on
  the state \<open>'s\<close> the channel lives in (\<open>ch\<close> reads it from there); running the one named \<open>k\<close> is
  \<open>run k\<close>.  An unset callback is skipped.
\<close>

definition call_if :: "('k \<Rightarrow> 's \<Rightarrow> fault + 's) \<Rightarrow> 'k option \<Rightarrow> 's \<Rightarrow> fault + 's" where
  "call_if run k s = (case k of None \<Rightarrow> Inr s | Some k \<Rightarrow> run k s)"

definition HandleEvent ::
  "('k \<Rightarrow> 's \<Rightarrow> fault + 's) \<Rightarrow> ('s \<Rightarrow> 'k channel) \<Rightarrow> 's \<Rightarrow> fault + 's" where
  "HandleEvent run ch s =
     and_then (if ch_revents (ch s) AND EPOLLIN \<noteq> 0 \<or> ch_revents (ch s) AND EPOLLRDHUP \<noteq> 0
                  \<or> ch_revents (ch s) AND EPOLLPRI \<noteq> 0
               then call_if run (read_callback (ch s)) s else Inr s) (\<lambda>s.
     and_then (if ch_revents (ch s) AND EPOLLOUT \<noteq> 0 then call_if run (write_callback (ch s)) s
               else if ch_revents (ch s) AND EPOLLERR \<noteq> 0 then call_if run (error_callback (ch s)) s
               else if ch_revents (ch s) AND EPOLLHUP \<noteq> 0 then call_if run (close_callback (ch s)) s
               else Inr s) (\<lambda>s.
       call_if run (event_callback (ch s)) s))"

section \<open>The poller\<close>

datatype epoll_op = EPOLL_CTL_ADD | EPOLL_CTL_MOD | EPOLL_CTL_DEL

type_synonym ctl_call = "epoll_op \<times> int \<times> u32"

text \<open>\<open>_channels\<close> maps a descriptor to the address of its channel; \<open>ctl_calls\<close> are the calls so far.\<close>

record poller =
  p_channels :: "int \<Rightarrow> nat option"
  ctl_calls :: "ctl_call list"

definition Poller_new :: poller where
  "Poller_new = \<lparr>p_channels = (\<lambda>_. None), ctl_calls = []\<rparr>"

definition Poller_Update :: "'k channel \<Rightarrow> epoll_op \<Rightarrow> poller \<Rightarrow> poller" where
  "Poller_Update c op p = p\<lparr>ctl_calls := ctl_calls p @ [(op, ch_fd c, ch_events c)]\<rparr>"

definition HasChannel :: "'k channel \<Rightarrow> poller \<Rightarrow> bool" where
  "HasChannel c p \<longleftrightarrow> p_channels p (ch_fd c) \<noteq> None"

definition UpdateEvent :: "nat \<Rightarrow> 'k channel \<Rightarrow> poller \<Rightarrow> poller" where
  "UpdateEvent a c p =
     (if \<not> HasChannel c p
      then Poller_Update c EPOLL_CTL_ADD (p\<lparr>p_channels := (p_channels p)(ch_fd c \<mapsto> a)\<rparr>)
      else Poller_Update c EPOLL_CTL_MOD p)"

definition RemoveEvent :: "'k channel \<Rightarrow> poller \<Rightarrow> poller" where
  "RemoveEvent c p =
     Poller_Update c EPOLL_CTL_DEL
       (if p_channels p (ch_fd c) \<noteq> None then p\<lparr>p_channels := (p_channels p)(ch_fd c := None)\<rparr> else p)"

text \<open>The operations of a channel that reach the poller, on the channel at address \<open>a\<close>.\<close>

definition EnableRead :: "nat \<Rightarrow> 'k channel \<Rightarrow> poller \<Rightarrow> 'k channel \<times> poller" where
  "EnableRead a c p = (let c = c\<lparr>ch_events := ch_events c OR EPOLLIN\<rparr> in (c, UpdateEvent a c p))"

definition EnableWrite :: "nat \<Rightarrow> 'k channel \<Rightarrow> poller \<Rightarrow> 'k channel \<times> poller" where
  "EnableWrite a c p = (let c = c\<lparr>ch_events := ch_events c OR EPOLLOUT\<rparr> in (c, UpdateEvent a c p))"

definition DisableRead :: "nat \<Rightarrow> 'k channel \<Rightarrow> poller \<Rightarrow> 'k channel \<times> poller" where
  "DisableRead a c p = (let c = c\<lparr>ch_events := ch_events c AND NOT EPOLLIN\<rparr> in (c, UpdateEvent a c p))"

definition DisableWrite :: "nat \<Rightarrow> 'k channel \<Rightarrow> poller \<Rightarrow> 'k channel \<times> poller" where
  "DisableWrite a c p = (let c = c\<lparr>ch_events := ch_events c AND NOT EPOLLOUT\<rparr> in (c, UpdateEvent a c p))"

definition DisableAll :: "nat \<Rightarrow> 'k channel \<Rightarrow> poller \<Rightarrow> 'k channel \<times> poller" where
  "DisableAll a c p = (let c = c\<lparr>ch_events := 0\<rparr> in (c, UpdateEvent a c p))"

definition Remove :: "'k channel \<Rightarrow> poller \<Rightarrow> poller" where
  "Remove c p = RemoveEvent c p"

text \<open>
  Poll: the ready descriptors and events are what epoll_wait answered; each channel found gets its
  ready events and its address joins the active ones.  A descriptor without a channel fails the
  assert; a channel that is no longer there is a use after free.
\<close>

fun poll_events :: "(int \<times> u32) list \<Rightarrow> poller \<Rightarrow> (nat \<Rightarrow> 'k channel option) \<Rightarrow>
    fault + (nat list \<times> (nat \<Rightarrow> 'k channel option))" where
  "poll_events [] p h = Inr ([], h)"
| "poll_events ((fd, ev) # evs) p h =
     (case p_channels p fd of None \<Rightarrow> Inl AssertFailed
      | Some a \<Rightarrow> (case h a of None \<Rightarrow> Inl UseAfterFree
        | Some c \<Rightarrow> and_then (poll_events evs p (h(a \<mapsto> SetREvents ev c))) (\<lambda>(active, h).
            Inr (a # active, h))))"

text \<open>epoll_wait failing with EINTR is an empty round, any other failure aborts.\<close>

datatype wait_result = Ready "(int \<times> u32) list" | Wait_EINTR | Wait_failed

definition Poll :: "wait_result \<Rightarrow> poller \<Rightarrow> (nat \<Rightarrow> 'k channel option) \<Rightarrow>
    fault + (nat list \<times> (nat \<Rightarrow> 'k channel option))" where
  "Poll r p h = (case r of Wait_EINTR \<Rightarrow> Inr ([], h) | Wait_failed \<Rightarrow> Inl Aborted
     | Ready evs \<Rightarrow> poll_events evs p h)"

section \<open>What the kernel is told\<close>

text \<open>
  The interest list after a sequence of calls, as epoll_ctl documents it: None when a call is one
  the kernel refuses (adding a registered descriptor, changing or deleting one that is not).
\<close>

fun ctl_apply :: "ctl_call \<Rightarrow> (int \<Rightarrow> u32 option) \<Rightarrow> (int \<Rightarrow> u32 option) option" where
  "ctl_apply (EPOLL_CTL_ADD, fd, ev) m = (if m fd = None then Some (m(fd \<mapsto> ev)) else None)"
| "ctl_apply (EPOLL_CTL_MOD, fd, ev) m = (if m fd = None then None else Some (m(fd \<mapsto> ev)))"
| "ctl_apply (EPOLL_CTL_DEL, fd, ev) m = (if m fd = None then None else Some (m(fd := None)))"

fun interest :: "ctl_call list \<Rightarrow> (int \<Rightarrow> u32 option) \<Rightarrow> (int \<Rightarrow> u32 option) option" where
  "interest [] m = Some m"
| "interest (c # cs) m = (case ctl_apply c m of None \<Rightarrow> None | Some m \<Rightarrow> interest cs m)"

lemma interest_append:
  "interest (cs @ ds) m = (case interest cs m of None \<Rightarrow> None | Some m \<Rightarrow> interest ds m)"
  by (induction cs arbitrary: m) (auto split: option.splits)

text \<open>Operations on the channels of a loop: every channel has its own address and descriptor.\<close>

datatype channel_op = Op_EnableRead nat | Op_EnableWrite nat | Op_DisableRead nat | Op_DisableWrite nat
  | Op_DisableAll nat | Op_Remove nat

fun channel_step :: "channel_op \<Rightarrow> (nat \<Rightarrow> 'k channel option) \<times> poller \<Rightarrow>
    fault + (((nat \<Rightarrow> 'k channel option) \<times> poller) \<times> unit)" where
  "channel_step op (h, p) =
     (let on = (\<lambda>a f. case h a of None \<Rightarrow> Inl UseAfterFree
                  | Some c \<Rightarrow> (case f a c p of (c', p') \<Rightarrow> Inr ((h(a \<mapsto> c'), p'), ()))) in
      case op of
        Op_EnableRead a \<Rightarrow> on a EnableRead
      | Op_EnableWrite a \<Rightarrow> on a EnableWrite
      | Op_DisableRead a \<Rightarrow> on a DisableRead
      | Op_DisableWrite a \<Rightarrow> on a DisableWrite
      | Op_DisableAll a \<Rightarrow> on a DisableAll
      | Op_Remove a \<Rightarrow> on a (\<lambda>a c p. (c, Remove c p)))"

text \<open>
  The abstraction: each registered descriptor with the events its channel wants.  The invariant:
  channels have distinct descriptors, the poller maps a descriptor to the channel that has it, and
  the kernel, told all calls so far, refused none and knows exactly these events.
\<close>

definition wanted :: "(nat \<Rightarrow> 'k channel option) \<times> poller \<Rightarrow> int \<Rightarrow> u32 option" where
  "wanted = (\<lambda>(h, p) fd. case p_channels p fd of None \<Rightarrow> None
     | Some a \<Rightarrow> map_option ch_events (h a))"

definition poller_wf :: "(nat \<Rightarrow> 'k channel option) \<times> poller \<Rightarrow> bool" where
  "poller_wf = (\<lambda>(h, p).
     (\<forall>a b c d. h a = Some c \<and> h b = Some d \<and> ch_fd c = ch_fd d \<longrightarrow> a = b)
   \<and> (\<forall>fd a. p_channels p fd = Some a \<longrightarrow> (\<exists>c. h a = Some c \<and> ch_fd c = fd))
   \<and> interest (ctl_calls p) (\<lambda>_. None) = Some (wanted (h, p)))"

text \<open>What the operations do to the registered events: the abstract interest list, by address.\<close>

definition new_events :: "channel_op \<Rightarrow> u32 \<Rightarrow> u32 option" where
  "new_events op ev = (case op of
       Op_EnableRead _ \<Rightarrow> Some (ev OR EPOLLIN) | Op_EnableWrite _ \<Rightarrow> Some (ev OR EPOLLOUT)
     | Op_DisableRead _ \<Rightarrow> Some (ev AND NOT EPOLLIN) | Op_DisableWrite _ \<Rightarrow> Some (ev AND NOT EPOLLOUT)
     | Op_DisableAll _ \<Rightarrow> Some 0 | Op_Remove _ \<Rightarrow> None)"

fun op_addr :: "channel_op \<Rightarrow> nat" where
  "op_addr (Op_EnableRead a) = a" | "op_addr (Op_EnableWrite a) = a" | "op_addr (Op_DisableRead a) = a"
| "op_addr (Op_DisableWrite a) = a" | "op_addr (Op_DisableAll a) = a" | "op_addr (Op_Remove a) = a"

section \<open>The poller and the kernel agree\<close>

type_synonym channel_view = "nat \<Rightarrow> (int \<times> u32 \<times> bool) option"

definition channel_abs :: "(nat \<Rightarrow> 'k channel option) \<times> poller \<Rightarrow> channel_view" where
  "channel_abs = (\<lambda>(h, p) a. map_option (\<lambda>c. (ch_fd c, ch_events c, HasChannel c p)) (h a))"

definition channel_ok :: "channel_op \<Rightarrow> channel_view \<Rightarrow> bool" where
  "channel_ok op m \<longleftrightarrow> (case m (op_addr op) of None \<Rightarrow> False
     | Some (fd, ev, reg) \<Rightarrow> (case op of Op_Remove _ \<Rightarrow> reg | _ \<Rightarrow> True))"

definition channel_spec :: "channel_op \<Rightarrow> channel_view \<Rightarrow> unit \<Rightarrow> channel_view \<Rightarrow> bool" where
  "channel_spec op m out m' \<longleftrightarrow> (\<exists>fd ev reg. m (op_addr op) = Some (fd, ev, reg) \<and>
     m' = m(op_addr op \<mapsto> (case new_events op ev of None \<Rightarrow> (fd, ev, False) | Some ev' \<Rightarrow> (fd, ev', True))))"

lemma poller_wfD:
  assumes "poller_wf (h, p)"
  shows "h a = Some c \<Longrightarrow> h b = Some d \<Longrightarrow> ch_fd c = ch_fd d \<Longrightarrow> a = b"
    and "p_channels p fd = Some a \<Longrightarrow> \<exists>c. h a = Some c \<and> ch_fd c = fd"
    and "interest (ctl_calls p) (\<lambda>_. None) = Some (wanted (h, p))"
  using assms unfolding poller_wf_def by blast+

lemma HasChannel_addr:
  assumes wf: "poller_wf (h, p)" and c: "h a = Some c" and reg: "HasChannel c p"
  shows "p_channels p (ch_fd c) = Some a"
proof -
  from reg obtain b where b: "p_channels p (ch_fd c) = Some b" by (auto simp: HasChannel_def)
  from poller_wfD(2)[OF wf b] obtain d where "h b = Some d" "ch_fd d = ch_fd c" by blast
  from poller_wfD(1)[OF wf this(1) c this(2)] b show ?thesis by simp
qed

lemma wanted_at:
  "poller_wf (h, p) \<Longrightarrow> h a = Some c \<Longrightarrow> wanted (h, p) (ch_fd c) = (if HasChannel c p then Some (ch_events c) else None)"
  using HasChannel_addr[of h p a c] by (auto simp: wanted_def HasChannel_def split: option.splits)

lemma other_fd: "poller_wf (h, p) \<Longrightarrow> h a = Some c \<Longrightarrow> h b = Some d \<Longrightarrow> b \<noteq> a \<Longrightarrow> ch_fd d \<noteq> ch_fd c"
  using poller_wfD(1)[of h p a c b d] by auto

text \<open>Setting the events of a channel and telling the poller.\<close>

lemma set_events_step:
  fixes c :: "'k channel" and ev :: u32
  assumes wf: "poller_wf (h, p)" and c: "h a = Some c"
  defines "c' \<equiv> c\<lparr>ch_events := ev\<rparr>"
  defines "p' \<equiv> UpdateEvent a c' p" and "h' \<equiv> h(a \<mapsto> c')"
  shows "poller_wf (h', p')" and "channel_abs (h', p') = (channel_abs (h, p))(a \<mapsto> (ch_fd c, ev, True))"
proof -
  have fd: "ch_fd c' = ch_fd c" "ch_events c' = ev" by (simp_all add: c'_def)
  have chans: "p_channels p' = (p_channels p)(ch_fd c \<mapsto> a)"
    using HasChannel_addr[OF wf c]
    by (auto simp: p'_def UpdateEvent_def Poller_Update_def HasChannel_def fd fun_upd_idem)
  have live: "p_channels p f = Some b \<Longrightarrow> h' b \<noteq> None" for f b
    using poller_wfD(2)[OF wf, of f b] by (auto simp: h'_def)
  have "wanted (h', p') = (wanted (h, p))(ch_fd c \<mapsto> ev)"
  proof
    fix f
    show "wanted (h', p') f = ((wanted (h, p))(ch_fd c \<mapsto> ev)) f"
      using poller_wfD(2)[OF wf, of f] c by (auto simp: wanted_def chans h'_def fd split: option.splits)
  qed
  moreover have "interest (ctl_calls p') (\<lambda>_. None) = Some ((wanted (h, p))(ch_fd c \<mapsto> ev))"
    using poller_wfD(3)[OF wf] wanted_at[OF wf c]
    by (auto simp: p'_def UpdateEvent_def Poller_Update_def interest_append fd HasChannel_def)
  ultimately have kernel: "interest (ctl_calls p') (\<lambda>_. None) = Some (wanted (h', p'))" by simp
  have "\<exists>e. h' b = Some e \<and> ch_fd e = f" if "p_channels p' f = Some b" for f b
    using that poller_wfD(2)[OF wf, of f b] c by (auto simp: chans h'_def fd split: if_splits)
  moreover have "b = b'" if "h' b = Some d" "h' b' = Some d'" "ch_fd d = ch_fd d'" for b b' d d'
    using that poller_wfD(1)[OF wf, of b d b' d'] other_fd[OF wf c] fd
    by (cases "b = a"; cases "b' = a") (auto simp: h'_def)
  ultimately show "poller_wf (h', p')" using kernel unfolding poller_wf_def by blast
  have "HasChannel d p' \<longleftrightarrow> HasChannel d p \<or> ch_fd d = ch_fd c" for d :: "'k channel"
    by (simp add: HasChannel_def chans)
  then have has: "HasChannel c' p'" "\<And>d :: 'k channel. ch_fd d \<noteq> ch_fd c \<Longrightarrow> HasChannel d p' \<longleftrightarrow> HasChannel d p"
    by (simp_all add: fd)
  show "channel_abs (h', p') = (channel_abs (h, p))(a \<mapsto> (ch_fd c, ev, True))"
  proof
    fix b
    show "channel_abs (h', p') b = ((channel_abs (h, p))(a \<mapsto> (ch_fd c, ev, True))) b"
      using has other_fd[OF wf c, of b] by (cases "b = a"; cases "h b") (simp_all add: channel_abs_def h'_def fd)
  qed
qed

lemma remove_step:
  fixes c :: "'k channel"
  assumes wf: "poller_wf (h, p)" and c: "h a = Some c" and reg: "HasChannel c p"
  shows "poller_wf (h, Remove c p)" and "channel_abs (h, Remove c p) = (channel_abs (h, p))(a \<mapsto> (ch_fd c, ch_events c, False))"
proof -
  note at = HasChannel_addr[OF wf c reg]
  have chans: "p_channels (Remove c p) = (p_channels p)(ch_fd c := None)"
    using at by (simp add: Remove_def RemoveEvent_def Poller_Update_def)
  have "wanted (h, Remove c p) = (wanted (h, p))(ch_fd c := None)"
    by (auto simp: wanted_def chans)
  moreover have "interest (ctl_calls (Remove c p)) (\<lambda>_. None) = Some ((wanted (h, p))(ch_fd c := None))"
    using poller_wfD(3)[OF wf] wanted_at[OF wf c] reg at
    by (simp add: Remove_def RemoveEvent_def Poller_Update_def interest_append)
  ultimately have kernel: "interest (ctl_calls (Remove c p)) (\<lambda>_. None) = Some (wanted (h, Remove c p))" by simp
  have "\<exists>e. h b = Some e \<and> ch_fd e = f" if "p_channels (Remove c p) f = Some b" for f b
    using that poller_wfD(2)[OF wf, of f b] by (auto simp: chans split: if_splits)
  then show "poller_wf (h, Remove c p)" using kernel poller_wfD(1)[OF wf] unfolding poller_wf_def by blast
  have "HasChannel d (Remove c p) \<longleftrightarrow> HasChannel d p \<and> ch_fd d \<noteq> ch_fd c" for d :: "'k channel"
    by (auto simp: HasChannel_def chans)
  then have has: "\<not> HasChannel c (Remove c p)"
    "\<And>d :: 'k channel. ch_fd d \<noteq> ch_fd c \<Longrightarrow> HasChannel d (Remove c p) \<longleftrightarrow> HasChannel d p" by simp_all
  show "channel_abs (h, Remove c p) = (channel_abs (h, p))(a \<mapsto> (ch_fd c, ch_events c, False))"
  proof
    fix b
    show "channel_abs (h, Remove c p) b = ((channel_abs (h, p))(a \<mapsto> (ch_fd c, ch_events c, False))) b"
      using has c other_fd[OF wf c, of b] by (cases "b = a"; cases "h b") (simp_all add: channel_abs_def)
  qed
qed

lemma channel_step_simulates:
  fixes s :: "(nat \<Rightarrow> 'k channel option) \<times> poller"
  assumes wf: "poller_wf s" and ok: "channel_ok op (channel_abs s)"
  shows "\<exists>s' out. channel_step op s = Inr (s', out) \<and> poller_wf s' \<and> channel_spec op (channel_abs s) out (channel_abs s')"
proof -
  obtain h p where s: "s = (h, p)" by force
  let ?a = "op_addr op"
  from ok obtain c where c: "h ?a = Some c" "case op of Op_Remove _ \<Rightarrow> HasChannel c p | _ \<Rightarrow> True"
    by (auto simp: channel_ok_def channel_abs_def s split: option.splits)
  note wf' = wf[unfolded s]
  have abs: "channel_abs s ?a = Some (ch_fd c, ch_events c, HasChannel c p)"
    by (simp add: channel_abs_def s c)
  note E = set_events_step[OF wf' c(1)]
  show ?thesis
    using c E remove_step[OF wf' c(1)] abs
    by (cases op) (auto simp: s channel_spec_def new_events_def EnableRead_def EnableWrite_def DisableRead_def
        DisableWrite_def DisableAll_def Let_def fun_upd_idem)
qed

interpretation poller_kernel: op_simulation channel_step channel_spec channel_ok poller_wf channel_abs
  by (rule op_simulation.intro) (rule channel_step_simulates)

section \<open>Dispatch\<close>

text \<open>The callbacks a set of ready events asks for, in order.\<close>

definition handlers :: "'k channel \<Rightarrow> 'k option list" where
  "handlers c = (let ev = ch_revents c in
     (if ev AND EPOLLIN \<noteq> 0 \<or> ev AND EPOLLRDHUP \<noteq> 0 \<or> ev AND EPOLLPRI \<noteq> 0 then [read_callback c] else [])
   @ (if ev AND EPOLLOUT \<noteq> 0 then [write_callback c]
      else if ev AND EPOLLERR \<noteq> 0 then [error_callback c]
      else if ev AND EPOLLHUP \<noteq> 0 then [close_callback c] else [])
   @ [event_callback c])"

fun run_handlers :: "('k \<Rightarrow> 's \<Rightarrow> fault + 's) \<Rightarrow> 'k option list \<Rightarrow> 's \<Rightarrow> fault + 's" where
  "run_handlers run [] s = Inr s"
| "run_handlers run (k # ks) s = and_then (call_if run k s) (run_handlers run ks)"

lemma run_handlers_Nil: "run_handlers run [] = Inr"
  by (simp add: fun_eq_iff)

definition same_handlers :: "'k channel \<Rightarrow> 'k channel \<Rightarrow> bool" where
  "same_handlers c d \<longleftrightarrow> ch_revents c = ch_revents d \<and> read_callback c = read_callback d
     \<and> write_callback c = write_callback d \<and> error_callback c = error_callback d
     \<and> close_callback c = close_callback d \<and> event_callback c = event_callback d"

lemma and_then_Inr_right: "and_then m Inr = m"
  by (cases m) auto

lemma and_then_if: "and_then (if b then m else Inr s) f = (if b then and_then m f else f s)"
  by simp

section \<open>Properties\<close>

text \<open>
  C33. The poller and the kernel agree: starting with no channel registered and channels of
  distinct descriptors, any run of enabling and disabling events and of removing registered
  channels makes only epoll_ctl calls the kernel accepts (ADD only for a new descriptor, MOD and
  DEL only for a registered one), and afterwards the kernel's interest list has every registered
  channel with exactly the events it asks for, and no other channel.
\<close>

theorem poller_matches_kernel:
  assumes "\<forall>a b c d. h0 a = Some c \<and> h0 b = Some d \<and> ch_fd c = ch_fd d \<longrightarrow> a = b"
    and "all_ok channel_spec channel_ok ops (channel_abs (h0, Poller_new))"
  shows "\<exists>h p outs m. run_steps channel_step ops (h0, Poller_new) = Inr ((h, p), outs)
     \<and> interest (ctl_calls p) (\<lambda>_. None) = Some m
     \<and> (\<forall>a c. h a = Some c \<longrightarrow> m (ch_fd c) = (if HasChannel c p then Some (ch_events c) else None))"
proof -
  have "poller_wf (h0, Poller_new)"
    using assms(1) by (auto simp: poller_wf_def Poller_new_def wanted_def fun_eq_iff)
  from poller_kernel.run_simulates[OF this assms(2)] obtain h p outs where
    run: "run_steps channel_step ops (h0, Poller_new) = Inr ((h, p), outs)" "poller_wf (h, p)" by auto
  with poller_wfD(3)[OF run(2)] wanted_at[OF run(2)] show ?thesis by blast
qed

theorem poller_matches_kernel_witness:
  defines "h0 \<equiv> [0 \<mapsto> Channel_new 5, 1 \<mapsto> Channel_new 6] :: nat \<Rightarrow> nat channel option"
  defines "ops \<equiv> [Op_EnableRead 0, Op_EnableWrite 1, Op_EnableWrite 0, Op_Remove 1]"
  shows "\<exists>h p outs m. run_steps channel_step ops (h0, Poller_new) = Inr ((h, p), outs)
     \<and> interest (ctl_calls p) (\<lambda>_. None) = Some m
     \<and> (\<forall>a c. h a = Some c \<longrightarrow> m (ch_fd c) = (if HasChannel c p then Some (ch_events c) else None))"
  by (rule poller_matches_kernel)
     (auto simp: h0_def ops_def Channel_new_def channel_ok_def channel_spec_def channel_abs_def
       HasChannel_def Poller_new_def new_events_def)

lemma poll_events_ok:
  assumes wf: "poller_wf (h, p)" and "\<forall>(fd, ev) \<in> set evs. p_channels p fd \<noteq> None" "\<forall>a. g a = None \<longleftrightarrow> h a = None"
  shows "\<exists>active h'. poll_events evs p g = Inr (active, h') \<and> length active = length evs
     \<and> (\<forall>i < length evs. p_channels p (fst (evs ! i)) = Some (active ! i))
     \<and> (\<forall>a. map_option ch_events (h' a) = map_option ch_events (g a))
     \<and> (\<forall>a. (\<forall>i < length evs. active ! i \<noteq> a) \<longrightarrow> h' a = g a)
     \<and> (distinct (map fst evs) \<longrightarrow> (\<forall>i < length evs. map_option ch_revents (h' (active ! i)) = Some (snd (evs ! i))))"
  using assms(2,3)
proof (induction evs arbitrary: g)
  case (Cons e evs)
  obtain fd ev where e: "e = (fd, ev)" by force
  from Cons.prems(1) e obtain a where a: "p_channels p fd = Some a" by auto
  from poller_wfD(2)[OF wf a] Cons.prems(2) obtain c where c: "g a = Some c" by (cases "g a") auto
  have "\<forall>(fd, ev) \<in> set evs. p_channels p fd \<noteq> None" using Cons.prems(1) by simp
  moreover have "\<forall>b. (g(a \<mapsto> SetREvents ev c)) b = None \<longleftrightarrow> h b = None" using Cons.prems(2) c by (metis fun_upd_apply option.distinct(1))
  ultimately obtain active h' where
    r: "poll_events evs p (g(a \<mapsto> SetREvents ev c)) = Inr (active, h')" "length active = length evs"
    and at: "\<forall>i < length evs. p_channels p (fst (evs ! i)) = Some (active ! i)"
    and evs: "\<forall>b. map_option ch_events (h' b) = map_option ch_events ((g(a \<mapsto> SetREvents ev c)) b)"
    and rest: "\<forall>b. (\<forall>i < length evs. active ! i \<noteq> b) \<longrightarrow> h' b = (g(a \<mapsto> SetREvents ev c)) b"
    and rev: "distinct (map fst evs) \<longrightarrow> (\<forall>i < length evs. map_option ch_revents (h' (active ! i)) = Some (snd (evs ! i)))"
    using Cons.IH[of "g(a \<mapsto> SetREvents ev c)"] by blast
  have run: "poll_events (e # evs) p g = Inr (a # active, h')" using e a c r by simp
  have at': "\<forall>i < length (e # evs). p_channels p (fst ((e # evs) ! i)) = Some ((a # active) ! i)"
    using a at e using at by (auto simp: nth_Cons split: nat.splits)
  have ev': "\<forall>b. map_option ch_events (h' b) = map_option ch_events (g b)"
    using evs c by (auto simp: SetREvents_def)
  have rest': "\<forall>b. (\<forall>i < length (e # evs). (a # active) ! i \<noteq> b) \<longrightarrow> h' b = g b"
  proof (intro allI impI)
    fix b assume *: "\<forall>i < length (e # evs). (a # active) ! i \<noteq> b"
    have "\<forall>i < length evs. active ! i \<noteq> b" using * by (metis Suc_less_eq length_Cons nth_Cons_Suc)
    moreover have "b \<noteq> a" using *[rule_format, of 0] by auto
    ultimately show "h' b = g b" using rest by simp
  qed
  have rev': "map_option ch_revents (h' ((a # active) ! i)) = Some (snd ((e # evs) ! i))"
    if d: "distinct (map fst (e # evs))" and i: "i < length (e # evs)" for i
  proof (cases i)
    case 0
    have "active ! j \<noteq> a" if "j < length evs" for j
    proof
      assume "active ! j = a"
      with at that have "p_channels p (fst (evs ! j)) = Some a" by simp
      with poller_wfD(2)[OF wf this] poller_wfD(2)[OF wf a] have "fst (evs ! j) = fd" by auto
      with d e that show False by (metis distinct.simps(2) fst_conv in_set_conv_nth length_map list.map(2) nth_map)
    qed
    with rest have "h' a = Some (SetREvents ev c)" by simp
    then show ?thesis using 0 e by (simp add: SetREvents_def)
  qed (use rev d i in auto)
  show ?case using run r(2) at' ev' rest' rev' by (intro exI[of _ "a # active"] exI[of _ h']) simp
qed simp

text \<open>
  Poll hands out what the kernel reported: if epoll_wait only reports registered descriptors,
  the assert in Poll holds, and Poll returns the channels of the reported descriptors in order,
  each with the reported events set and its interest unchanged.
\<close>

theorem poll_returns_ready_channels:
  assumes "poller_wf (h, p)" and "\<forall>(fd, ev) \<in> set evs. p_channels p fd \<noteq> None"
  shows "\<exists>active h'. Poll (Ready evs) p h = Inr (active, h') \<and> length active = length evs
     \<and> (\<forall>i < length evs. \<exists>c. h (active ! i) = Some c \<and> ch_fd c = fst (evs ! i))
     \<and> (\<forall>a. map_option ch_events (h' a) = map_option ch_events (h a))
     \<and> (distinct (map fst evs) \<longrightarrow> (\<forall>i < length evs. map_option ch_revents (h' (active ! i)) = Some (snd (evs ! i))))"
proof -
  from poll_events_ok[OF assms, of h] obtain active h' where g: "poll_events evs p h = Inr (active, h')" "length active = length evs"
     "\<forall>i < length evs. p_channels p (fst (evs ! i)) = Some (active ! i)"
     "\<forall>a. map_option ch_events (h' a) = map_option ch_events (h a)"
     "distinct (map fst evs) \<longrightarrow> (\<forall>i < length evs. map_option ch_revents (h' (active ! i)) = Some (snd (evs ! i)))" by auto
  then show ?thesis
    using poller_wfD(2)[OF assms(1)] by (intro exI[of _ active] exI[of _ h']) (auto simp: Poll_def)
qed

theorem poll_returns_ready_channels_witness:
  defines "h \<equiv> [0 \<mapsto> Channel_new 5] :: nat \<Rightarrow> nat channel option"
  shows "\<exists>h1 p outs. run_steps channel_step [Op_EnableRead 0] (h, Poller_new) = Inr ((h1, p), outs)
     \<and> (\<exists>active h'. Poll (Ready [(5, EPOLLIN)]) p h1 = Inr (active, h') \<and> length active = 1
          \<and> map_option ch_revents (h' (active ! 0)) = Some EPOLLIN)"
proof -
  have wf: "poller_wf (h, Poller_new)"
    by (auto simp: poller_wf_def Poller_new_def wanted_def fun_eq_iff h_def)
  have ok: "all_ok channel_spec channel_ok [Op_EnableRead 0] (channel_abs (h, Poller_new))"
    by (simp add: h_def channel_ok_def channel_abs_def)
  from poller_kernel.run_simulates[OF wf ok] obtain h1 p outs where
    r: "run_steps channel_step [Op_EnableRead 0] (h, Poller_new) = Inr ((h1, p), outs)" "poller_wf (h1, p)" by auto
  then have "p_channels p 5 \<noteq> None"
    by (auto simp: h_def EnableRead_def UpdateEvent_def Poller_Update_def HasChannel_def Channel_new_def
        Poller_new_def Let_def)
  with poll_returns_ready_channels[OF r(2), of "[(5, EPOLLIN)]"] r(1) show ?thesis by fastforce
qed

text \<open>
  HandleEvent runs the callbacks its ready events ask for and no others: first the read callback
  for EPOLLIN, EPOLLRDHUP or EPOLLPRI, then at most one of the write, error and close callbacks (in
  this priority), then the any-event callback, each skipped when unset, stopping at a fault.
\<close>

theorem handle_event_dispatch:
  assumes "\<forall>k s s'. run k s = Inr s' \<longrightarrow> same_handlers (ch s') (ch s)"
  shows "HandleEvent run ch s = run_handlers run (handlers (ch s)) s"
proof -
  have stable: "same_handlers (ch s') (ch s)" if "call_if run k s = Inr s'" for k s s'
    using assms that by (auto simp: call_if_def same_handlers_def split: option.splits)
  let ?R = "ch_revents (ch s) AND EPOLLIN \<noteq> 0 \<or> ch_revents (ch s) AND EPOLLRDHUP \<noteq> 0 \<or> ch_revents (ch s) AND EPOLLPRI \<noteq> 0"
  let ?mid = "if ch_revents (ch s) AND EPOLLOUT \<noteq> 0 then [write_callback (ch s)]
      else if ch_revents (ch s) AND EPOLLERR \<noteq> 0 then [error_callback (ch s)]
      else if ch_revents (ch s) AND EPOLLHUP \<noteq> 0 then [close_callback (ch s)] else []"
  have tail: "call_if run (event_callback (ch t)) t = run_handlers run [event_callback (ch s)] t"
    if "same_handlers (ch t) (ch s)" for t
    using that by (simp add: same_handlers_def and_then_Inr_right run_handlers_Nil)
  have mid: "and_then (if ch_revents (ch t) AND EPOLLOUT \<noteq> 0 then call_if run (write_callback (ch t)) t
       else if ch_revents (ch t) AND EPOLLERR \<noteq> 0 then call_if run (error_callback (ch t)) t
       else if ch_revents (ch t) AND EPOLLHUP \<noteq> 0 then call_if run (close_callback (ch t)) t
       else Inr t) (\<lambda>s. call_if run (event_callback (ch s)) s)
     = run_handlers run (?mid @ [event_callback (ch s)]) t"
    if t: "same_handlers (ch t) (ch s)" for t
  proof -
    have "and_then (call_if run k t) (\<lambda>u. call_if run (event_callback (ch u)) u)
        = and_then (call_if run k t) (run_handlers run [event_callback (ch s)])" for k
    proof (rule and_then_cong[OF refl])
      fix u assume "call_if run k t = Inr u"
      from stable[OF this] t have "same_handlers (ch u) (ch s)" by (simp add: same_handlers_def)
      then show "call_if run (event_callback (ch u)) u = run_handlers run [event_callback (ch s)] u" by (rule tail)
    qed
    with tail[OF t] t show ?thesis by (simp add: same_handlers_def)
  qed
  have rest: "and_then (call_if run (read_callback (ch s)) s) (\<lambda>t. and_then
       (if ch_revents (ch t) AND EPOLLOUT \<noteq> 0 then call_if run (write_callback (ch t)) t
       else if ch_revents (ch t) AND EPOLLERR \<noteq> 0 then call_if run (error_callback (ch t)) t
       else if ch_revents (ch t) AND EPOLLHUP \<noteq> 0 then call_if run (close_callback (ch t)) t
       else Inr t) (\<lambda>s. call_if run (event_callback (ch s)) s))
     = and_then (call_if run (read_callback (ch s)) s) (run_handlers run (?mid @ [event_callback (ch s)]))"
    by (rule and_then_cong[OF refl]) (rule mid, rule stable)
  have "same_handlers (ch s) (ch s)" by (simp add: same_handlers_def)
  from mid[OF this] rest show ?thesis
    unfolding HandleEvent_def handlers_def Let_def and_then_if
    by (cases ?R) (simp_all only: if_True if_False append.simps run_handlers.simps)
qed

theorem handle_event_dispatch_witness:
  defines "c \<equiv> (Channel_new 5)\<lparr>read_callback := Some ''r'', write_callback := Some ''w'', event_callback := Some ''e'',
     ch_revents := EPOLLIN OR EPOLLOUT OR EPOLLHUP\<rparr>"
  shows "HandleEvent (\<lambda>k (c, l). Inr (c, l @ [k])) fst (c, []) = Inr (c, [''r'', ''w'', ''e''])"
proof -
  have "HandleEvent (\<lambda>k (c, l). Inr (c, l @ [k])) fst (c, [])
      = run_handlers (\<lambda>k (c, l). Inr (c, l @ [k])) (handlers (fst (c, [] :: string list))) (c, [])"
    by (rule handle_event_dispatch) (auto simp: same_handlers_def)
  then show ?thesis by (simp add: handlers_def c_def epoll_bits call_if_def)
qed

end
