(* ===== verification/LoopTasks.thy ===== *)
theory LoopTasks
  imports ServerPrelude
begin

text \<open>
  The task queue of the class EventLoop of source/server.hpp: RunInLoop, QueueInLoop, RunAllTask
  and the wake-up of a loop blocked in epoll_wait through an eventfd.  The first part has the
  operations as functions for code that runs inside the loop; the second interleaves the loop
  with other threads that queue tasks, one lock section or system call at a time.
\<close>

section \<open>The operations inside the loop\<close>

text \<open>
  \<open>wakes\<close> counts the calls of WeakUpEventFd; running a task named \<open>k\<close> is \<open>run k\<close>.  What else the
  tasks work on is added to this record by the components that queue tasks.  The write to the eventfd in
  WeakUpEventFd may fail: interrupted, it is given up, which leaves this state the same; any other error
  aborts the process, which ends every run.  EventLoopModel has the write with its answers, \<open>post_task\<close>,
  and shows that whenever it returns it has done what QueueInLoop does.
\<close>

record 'k event_loop =
  el_tasks :: "'k list"
  wakes :: nat

definition QueueInLoop :: "'k \<Rightarrow> ('k, 'm) event_loop_scheme \<Rightarrow> ('k, 'm) event_loop_scheme" where
  "QueueInLoop k l = l\<lparr>el_tasks := el_tasks l @ [k], wakes := Suc (wakes l)\<rparr>"

definition RunInLoop :: "('k \<Rightarrow> ('k, 'm) event_loop_scheme \<Rightarrow> fault + ('k, 'm) event_loop_scheme) \<Rightarrow> bool \<Rightarrow> 'k
    \<Rightarrow> ('k, 'm) event_loop_scheme \<Rightarrow> fault + ('k, 'm) event_loop_scheme" where
  "RunInLoop run in_loop k l = (if in_loop then run k l else Inr (QueueInLoop k l))"

fun run_tasks :: "('k \<Rightarrow> 's \<Rightarrow> fault + 's) \<Rightarrow> 'k list \<Rightarrow> 's \<Rightarrow> fault + 's" where
  "run_tasks run [] s = Inr s"
| "run_tasks run (k # ks) s = and_then (run k s) (run_tasks run ks)"

text \<open>The tasks are swapped out under the lock and then run; those they queue wait for the next round.\<close>

definition RunAllTask :: "('k \<Rightarrow> ('k, 'm) event_loop_scheme \<Rightarrow> fault + ('k, 'm) event_loop_scheme)
    \<Rightarrow> ('k, 'm) event_loop_scheme \<Rightarrow> fault + ('k, 'm) event_loop_scheme" where
  "RunAllTask run l = run_tasks run (el_tasks l) (l\<lparr>el_tasks := []\<rparr>)"

section \<open>The loop among other threads\<close>

text \<open>
  Where the loop thread stands in Start: in epoll_wait, with the ready events to handle (whether
  the eventfd is among them), about to swap the tasks, or running the swapped ones.
\<close>

datatype 'k phase = Polling | Handling bool | Swapping | Running "'k list"

text \<open>
  \<open>counter\<close> is the eventfd's; \<open>unwoken\<close> the number of threads that have pushed a task and not
  yet written the eventfd; \<open>given_up\<close> counts the writes that were given up, interrupted by a signal, since
  the loop last took its tasks; \<open>aborted\<close> is whether a failed call has ended the process;
  \<open>posted\<close> and \<open>executed\<close> are the tasks pushed and run so far.
\<close>

record 'k loop_sys =
  tasks :: "'k list"
  counter :: nat
  unwoken :: nat
  given_up :: nat
  aborted :: bool
  phase :: "'k phase"
  posted :: "'k list"
  executed :: "'k list"

definition loop_init :: "'k loop_sys" where
  "loop_init = \<lparr>tasks = [], counter = 0, unwoken = 0, given_up = 0, aborted = False, phase = Polling, posted = [], executed = []\<rparr>"

text \<open>
  A write or read of the eventfd succeeds, is given up (EINTR; a read also on EAGAIN), or aborts; so does
  epoll_wait, which reports the eventfd when it is readable, and which a signal ends without any event.
\<close>

inductive loop_step :: "'k loop_sys \<Rightarrow> 'k loop_sys \<Rightarrow> bool" where
  post: "\<not> aborted s \<Longrightarrow>
     loop_step s (s\<lparr>tasks := tasks s @ [k], unwoken := Suc (unwoken s), posted := posted s @ [k]\<rparr>)"
| wake: "\<not> aborted s \<Longrightarrow> unwoken s = Suc n \<Longrightarrow> loop_step s (s\<lparr>unwoken := n, counter := Suc (counter s)\<rparr>)"
| wake_interrupted: "\<not> aborted s \<Longrightarrow> unwoken s = Suc n \<Longrightarrow> loop_step s (s\<lparr>unwoken := n, given_up := Suc (given_up s)\<rparr>)"
| wake_failed: "\<not> aborted s \<Longrightarrow> unwoken s = Suc n \<Longrightarrow> loop_step s (s\<lparr>aborted := True\<rparr>)"
| poll_eventfd: "\<not> aborted s \<Longrightarrow> phase s = Polling \<Longrightarrow> 0 < counter s \<Longrightarrow> loop_step s (s\<lparr>phase := Handling True\<rparr>)"
| poll_other: "\<not> aborted s \<Longrightarrow> phase s = Polling \<Longrightarrow> counter s = 0 \<Longrightarrow> loop_step s (s\<lparr>phase := Handling False\<rparr>)"
| poll_interrupted: "\<not> aborted s \<Longrightarrow> phase s = Polling \<Longrightarrow> loop_step s (s\<lparr>phase := Handling False\<rparr>)"
| poll_failed: "\<not> aborted s \<Longrightarrow> phase s = Polling \<Longrightarrow> loop_step s (s\<lparr>aborted := True\<rparr>)"
| handle: "\<not> aborted s \<Longrightarrow> phase s = Handling b \<Longrightarrow>
     loop_step s (s\<lparr>counter := (if b then 0 else counter s), phase := Swapping\<rparr>)"
| handle_interrupted: "\<not> aborted s \<Longrightarrow> phase s = Handling True \<Longrightarrow> loop_step s (s\<lparr>phase := Swapping\<rparr>)"
| handle_failed: "\<not> aborted s \<Longrightarrow> phase s = Handling True \<Longrightarrow> loop_step s (s\<lparr>aborted := True\<rparr>)"
| swap: "\<not> aborted s \<Longrightarrow> phase s = Swapping \<Longrightarrow> loop_step s (s\<lparr>phase := Running (tasks s), tasks := [], given_up := 0\<rparr>)"
| run: "\<not> aborted s \<Longrightarrow> phase s = Running (k # ks) \<Longrightarrow>
     loop_step s (s\<lparr>phase := Running ks, executed := executed s @ [k]\<rparr>)"
| finish: "\<not> aborted s \<Longrightarrow> phase s = Running [] \<Longrightarrow> loop_step s (s\<lparr>phase := Polling\<rparr>)"

inductive_cases loop_stepE: "loop_step s t"
inductive_simps loop_step_iff: "loop_step s t"

inductive loop_reachable :: "'k loop_sys \<Rightarrow> bool" where
  init: "loop_reachable loop_init"
| step: "loop_reachable s \<Longrightarrow> loop_step s t \<Longrightarrow> loop_reachable t"

fun running :: "'k phase \<Rightarrow> 'k list" where
  "running (Running ks) = ks"
| "running _ = []"

text \<open>Tasks are neither lost, repeated nor reordered; and a loop that is polling or still running
  older tasks has been or will be woken for the waiting ones, unless a wake-up was given up.\<close>

definition loop_inv :: "'k loop_sys \<Rightarrow> bool" where
  "loop_inv s \<longleftrightarrow> executed s @ running (phase s) @ tasks s = posted s
     \<and> (tasks s \<noteq> [] \<and> (phase s = Polling \<or> (\<exists>ks. phase s = Running ks)) \<longrightarrow> 0 < counter s + unwoken s + given_up s)"

lemma loop_inv_step: "loop_step s t \<Longrightarrow> loop_inv s \<Longrightarrow> loop_inv t"
  by (erule loop_stepE) (auto simp: loop_inv_def)

lemma loop_inv_reachable: "loop_reachable s \<Longrightarrow> loop_inv s"
  by (induction rule: loop_reachable.induct) (simp add: loop_inv_def loop_init_def, rule loop_inv_step)

section \<open>Progress\<close>

text \<open>The steps of the loop and of the pending wake-ups, no new tasks posted.\<close>

inductive own_steps :: "'k loop_sys \<Rightarrow> 'k loop_sys \<Rightarrow> bool" where
  own_refl: "own_steps s s"
| own_more: "loop_step s t \<Longrightarrow> posted t = posted s \<Longrightarrow> own_steps t u \<Longrightarrow> own_steps s u"

lemma own_steps_trans: "own_steps s t \<Longrightarrow> own_steps t u \<Longrightarrow> own_steps s u"
  by (induction rule: own_steps.induct) (auto intro: own_steps.own_more)

lemma own_steps_posted: "own_steps s t \<Longrightarrow> posted t = posted s"
  by (induction rule: own_steps.induct) auto

lemma own_steps_inv: "own_steps s t \<Longrightarrow> loop_inv s \<Longrightarrow> loop_inv t"
  by (induction rule: own_steps.induct) (auto intro: loop_inv_step)

lemma own_wakes: "\<not> aborted s \<Longrightarrow> \<exists>t. own_steps s t \<and> unwoken t = 0 \<and> phase t = phase s \<and> tasks t = tasks s \<and> executed t = executed s
    \<and> given_up t = given_up s \<and> \<not> aborted t"
proof (induction "unwoken s" arbitrary: s)
  case 0
  then show ?case using own_steps.own_refl by metis
next
  case (Suc n)
  let ?s = "s\<lparr>unwoken := n, counter := Suc (counter s)\<rparr>"
  from Suc.hyps(1)[of ?s] Suc.prems obtain t where t: "own_steps ?s t" "unwoken t = 0" "phase t = phase s"
    "tasks t = tasks s" "executed t = executed s" "given_up t = given_up s" "\<not> aborted t" by auto
  have "own_steps s t"
    by (rule own_steps.own_more[OF loop_step.wake[OF Suc.prems Suc.hyps(2)[symmetric]] _ t(1)]) simp
  with t show ?case by blast
qed

lemma own_drain: "\<not> aborted s \<Longrightarrow> phase s = Running ks \<Longrightarrow>
  \<exists>t. own_steps s t \<and> phase t = Polling \<and> executed t = executed s @ ks \<and> tasks t = tasks s \<and> given_up t = given_up s \<and> \<not> aborted t"
proof (induction ks arbitrary: s)
  case Nil
  let ?t = "s\<lparr>phase := Polling\<rparr>"
  have "own_steps s ?t" by (rule own_steps.own_more[OF loop_step.finish[OF Nil]]) (auto intro: own_steps.own_refl)
  then show ?case using Nil by (intro exI[of _ ?t]) simp
next
  case (Cons k ks)
  let ?s = "s\<lparr>phase := Running ks, executed := executed s @ [k]\<rparr>"
  from Cons.IH[of ?s] Cons.prems(1) obtain t where t: "own_steps ?s t" "phase t = Polling" "executed t = executed s @ k # ks"
    "tasks t = tasks s" "given_up t = given_up s" "\<not> aborted t" by auto
  have "own_steps s t" by (rule own_steps.own_more[OF loop_step.run[OF Cons.prems] _ t(1)]) simp
  with t show ?case by blast
qed

text \<open>Once out of epoll_wait, whatever it was left for, all waiting tasks are run in this round.\<close>

lemma own_round:
  assumes "\<not> aborted s" and "phase s = Handling b \<or> phase s = Swapping"
  shows "\<exists>t. own_steps s t \<and> phase t = Polling \<and> executed t = executed s @ tasks s \<and> tasks t = [] \<and> given_up t = 0 \<and> \<not> aborted t"
proof -
  have swapped: "\<exists>t. own_steps u t \<and> phase t = Polling \<and> executed t = executed u @ tasks u \<and> tasks t = [] \<and> given_up t = 0 \<and> \<not> aborted t"
    if u: "\<not> aborted u" "phase u = Swapping" for u :: "'a loop_sys"
  proof -
    let ?v = "u\<lparr>phase := Running (tasks u), tasks := [], given_up := 0\<rparr>"
    from own_drain[of ?v "tasks u"] u(1) obtain t where t: "own_steps ?v t" "phase t = Polling"
      "executed t = executed u @ tasks u" "tasks t = []" "given_up t = 0" "\<not> aborted t" by auto
    have "own_steps u t" by (rule own_steps.own_more[OF loop_step.swap[OF u] _ t(1)]) simp
    with t show ?thesis by blast
  qed
  from assms(2) show ?thesis
  proof
    assume h: "phase s = Handling b"
    let ?u = "s\<lparr>counter := (if b then 0 else counter s), phase := Swapping\<rparr>"
    from swapped[of ?u] assms(1) obtain t where t: "own_steps ?u t" "phase t = Polling"
      "executed t = executed s @ tasks s" "tasks t = []" "given_up t = 0" "\<not> aborted t" by auto
    have "own_steps s t" by (rule own_steps.own_more[OF loop_step.handle[OF assms(1) h] _ t(1)]) simp
    with t show ?thesis by blast
  qed (rule swapped[OF assms(1)])
qed

lemma own_finish:
  assumes inv: "loop_inv s" and s: "\<not> aborted s" "phase s = Polling" "given_up s = 0"
  shows "\<exists>t. own_steps s t \<and> executed t = posted s"
proof (cases "tasks s = []")
  case True
  then show ?thesis using inv s(2) own_steps.own_refl by (auto simp: loop_inv_def)
next
  case False
  from own_wakes[OF s(1)] s(2,3) obtain u where u: "own_steps s u" "unwoken u = 0" "phase u = Polling" "tasks u = tasks s"
    "executed u = executed s" "given_up u = 0" "\<not> aborted u" by metis
  from own_steps_inv[OF u(1) inv] False u have pos: "0 < counter u" by (auto simp: loop_inv_def)
  let ?v = "u\<lparr>phase := Handling True\<rparr>"
  from own_round[of ?v True] u(7) obtain t where t: "own_steps ?v t" "executed t = executed u @ tasks u" by auto
  have "own_steps u t" by (rule own_steps.own_more[OF loop_step.poll_eventfd[OF u(7,3) pos] _ t(1)]) simp
  with u(1) have "own_steps s t" by (rule own_steps_trans)
  moreover have "executed t = posted s" using t(2) u(4,5) inv s(2) by (simp add: loop_inv_def)
  ultimately show ?thesis by blast
qed

lemma own_progress:
  assumes inv: "loop_inv s" and s: "\<not> aborted s" "given_up s = 0"
  shows "\<exists>t. own_steps s t \<and> executed t = posted s"
proof -
  have "\<exists>u. own_steps s u \<and> phase u = Polling \<and> given_up u = 0 \<and> \<not> aborted u"
    using own_steps.own_refl[of s] own_round[OF s(1)] own_drain[OF s(1)] s by (cases "phase s") metis+
  then obtain u where u: "own_steps s u" "phase u = Polling" "given_up u = 0" "\<not> aborted u" by blast
  from own_finish[OF own_steps_inv[OF u(1) inv] u(4,2,3)] own_steps_posted[OF u(1)] obtain t
    where "own_steps u t" "executed t = posted s" by auto
  with own_steps_trans[OF u(1)] show ?thesis by blast
qed

section \<open>Properties\<close>

text \<open>
  C34. A loop in epoll_wait is woken for the waiting tasks.  In every reachable state of the loop and its
  posting threads in which it is in epoll_wait and a task is waiting, the eventfd is readable, so
  epoll_wait returns, or a thread that has pushed a task is still to write the eventfd, or such a write was
  given up, interrupted by a signal, since the loop last took its tasks.  In all three cases the next
  return of epoll_wait, for whatever reason but a failure, is enough: the loop's own steps then run all
  waiting tasks in this round.
\<close>

theorem no_lost_wakeup:
  assumes "loop_reachable s" and "phase s = Polling" and "tasks s \<noteq> []"
  shows "(0 < counter s \<or> 0 < unwoken s \<or> 0 < given_up s)
     \<and> (\<forall>t. loop_step s t \<and> phase t \<noteq> Polling
          \<longrightarrow> (\<exists>u. own_steps t u \<and> phase u = Polling \<and> executed u = executed s @ tasks s \<and> tasks u = []))"
proof -
  have "\<exists>u. own_steps t u \<and> phase u = Polling \<and> executed u = executed s @ tasks s \<and> tasks u = []"
    if "loop_step s t" "phase t \<noteq> Polling" for t
  proof -
    have "\<not> aborted t \<and> (\<exists>b. phase t = Handling b) \<and> executed t = executed s \<and> tasks t = tasks s"
      using that assms(2) by (elim loop_stepE) auto
    with own_round[of t] show ?thesis by metis
  qed
  with loop_inv_reachable[OF assms(1)] assms(2,3) show ?thesis by (auto simp: loop_inv_def)
qed

theorem no_lost_wakeup_witness:
  "\<exists>u. own_steps ((loop_init::nat loop_sys)\<lparr>tasks := [7], given_up := 1, posted := [7], phase := Handling False\<rparr>) u \<and> executed u = [7]"
proof -
  let ?s0 = "loop_init :: nat loop_sys" let ?s1 = "?s0\<lparr>tasks := [7], unwoken := 1, posted := [7]\<rparr>"
  let ?s2 = "?s0\<lparr>tasks := [7], given_up := 1, posted := [7]\<rparr>" let ?s3 = "?s2\<lparr>phase := Handling False\<rparr>"
  have "loop_step ?s0 ?s1" using loop_step.post[of ?s0 7] by (simp add: loop_init_def)
  moreover have "loop_step ?s1 ?s2" using loop_step.wake_interrupted[of ?s1 0] by (simp add: loop_init_def)
  ultimately have "loop_reachable ?s2" by (blast intro: loop_reachable.intros)
  moreover have "loop_step ?s2 ?s3" using loop_step.poll_other[of ?s2] by (simp add: loop_init_def)
  ultimately show ?thesis
    using no_lost_wakeup[of ?s2] by (auto simp: loop_init_def)
qed

text \<open>
  Every queued task runs exactly once, in the order of queueing: in every reachable state the
  tasks run, those being run and those waiting are, in this order, the tasks queued; and unless a
  wake-up was given up or a call has aborted the process, the loop can go on, by its own steps and the pending
  wake-ups alone, to a state where all tasks queued so far have run.
\<close>

theorem tasks_run_in_order:
  assumes "loop_reachable s"
  shows "executed s @ running (phase s) @ tasks s = posted s
    \<and> (\<not> aborted s \<and> given_up s = 0 \<longrightarrow> (\<exists>t. own_steps s t \<and> executed t = posted s))"
  using loop_inv_reachable[OF assms] own_progress[OF loop_inv_reachable[OF assms]]
  by (simp add: loop_inv_def)

theorem tasks_run_in_order_witness:
  "\<exists>t. own_steps (loop_init\<lparr>tasks := [7::nat], unwoken := 1, posted := [7]\<rparr>) t \<and> executed t = [7]"
proof -
  have "loop_step (loop_init::nat loop_sys) (loop_init\<lparr>tasks := [7], unwoken := 1, posted := [7]\<rparr>)"
    using loop_step.post[of "loop_init::nat loop_sys" 7] by (simp add: loop_init_def)
  from tasks_run_in_order[OF loop_reachable.step[OF loop_reachable.init this]] show ?thesis by (simp add: loop_init_def)
qed

end
