(* ===== verification/ConnectionModel.thy ===== *)
theory ConnectionModel
  imports ByteBuffer TimerWheel SocketIO ChannelPoller LoopTasks "HOL-Library.Sublist"
begin

text \<open>
  The class Connection of source/server.hpp: one TCP connection inside its event loop.  The state
  is the loop's task queue, poller and timer wheel together with the connection's own fields; the
  tasks are the closures over \<open>this\<close> the connection queues.  The user's callbacks are names, since
  Upgrade replaces them, and calling the one named \<open>k\<close> is a parameter \<open>call k\<close> that may use every
  operation of the connection.
\<close>

section \<open>State\<close>

datatype ConnStatu = DISCONNECTED | CONNECTING | CONNECTED | DISCONNECTING

text \<open>The channel's callbacks, each a member function bound to the connection.\<close>

datatype conn_event = On_read | On_write | On_close | On_error | On_event

text \<open>The closures queued in the loop, and those a timer runs: the release of the connection with an id.\<close>

datatype ('k, 'x) conn_task =
    Established_task
  | Send_task buffer
  | Shutdown_task
  | Release_task
  | EnableInactive_task int
  | CancelInactive_task
  | Upgrade_task 'x "'k option" "'k option" "'k option" "'k option"

text \<open>
  \<open>alive\<close> is whether the object still exists.  Three fields record what passes through the
  connection: the bytes recv delivered, those SendInLoop took over, those send accepted; and
  \<open>closes\<close> the close calls.  \<open>channel_addr\<close> is the address the poller knows the channel by.
\<close>

record ('k, 'x) connection = "('k, 'x) conn_task event_loop" +
  loop_poller :: poller
  loop_wheel :: "u64 wheel"
  conn_id :: u64
  conn_fd :: int
  inactive_release :: bool
  statu :: ConnStatu
  conn_socket :: socket
  conn_channel :: "conn_event channel"
  channel_addr :: nat
  in_buffer :: buffer
  out_buffer :: buffer
  conn_context :: 'x
  connected_cb :: "'k option"
  message_cb :: "'k option"
  closed_cb :: "'k option"
  any_event_cb :: "'k option"
  server_closed_cb :: "'k option"
  alive :: bool
  received_bytes :: string
  submitted :: string
  sent :: string
  closes :: "syscall list"

type_synonym ('k, 'x) conn_result = "fault + ('k, 'x) connection"

text \<open>The constructor, in a loop with the given poller, wheel and tasks; \<open>x\<close> is an empty Any.\<close>

definition Connection_new ::
  "poller \<Rightarrow> u64 wheel \<Rightarrow> ('k, 'x) conn_task list \<Rightarrow> nat \<Rightarrow> 'x \<Rightarrow> u64 \<Rightarrow> int \<Rightarrow> ('k, 'x) connection" where
  "Connection_new p w ts a x i fd =
     \<lparr>el_tasks = ts, wakes = 0, loop_poller = p, loop_wheel = w, conn_id = i, conn_fd = fd,
      inactive_release = False, statu = CONNECTING, conn_socket = Socket_new fd,
      conn_channel = (Channel_new fd)\<lparr>close_callback := Some On_close, event_callback := Some On_event,
        read_callback := Some On_read, write_callback := Some On_write, error_callback := Some On_error\<rparr>,
      channel_addr = a, in_buffer = Buffer_new, out_buffer = Buffer_new, conn_context = x,
      connected_cb = None, message_cb = None, closed_cb = None, any_event_cb = None,
      server_closed_cb = None, alive = True, received_bytes = [], submitted = [], sent = [], closes = []\<rparr>"

section \<open>Operations inside the loop\<close>

text \<open>A channel operation on the connection's channel and the loop's poller.\<close>

definition on_channel ::
  "(nat \<Rightarrow> conn_event channel \<Rightarrow> poller \<Rightarrow> conn_event channel \<times> poller)
    \<Rightarrow> ('k, 'x) connection \<Rightarrow> ('k, 'x) connection" where
  "on_channel f s = (case f (channel_addr s) (conn_channel s) (loop_poller s) of
     (c, p) \<Rightarrow> s\<lparr>conn_channel := c, loop_poller := p\<rparr>)"

text \<open>Calling a std::function: when it is unset this throws.\<close>

definition call_set :: "('k \<Rightarrow> 's \<Rightarrow> fault + 's) \<Rightarrow> 'k option \<Rightarrow> 's \<Rightarrow> fault + 's" where
  "call_set call k s = (case k of None \<Rightarrow> Inl BadFunctionCall | Some k \<Rightarrow> call k s)"

definition Release :: "('k, 'x) connection \<Rightarrow> ('k, 'x) connection" where
  "Release s = QueueInLoop Release_task s"

definition CancelInactiveReleaseInLoop :: "('k, 'x) connection \<Rightarrow> ('k, 'x) connection" where
  "CancelInactiveReleaseInLoop s =
     (let s = s\<lparr>inactive_release := False\<rparr> in
      if HasTimer (conn_id s) (loop_wheel s)
      then s\<lparr>loop_wheel := TimerCancelInLoop (conn_id s) (loop_wheel s)\<rparr> else s)"

definition TimerRefresh :: "('k, 'x) connection \<Rightarrow> ('k, 'x) conn_result" where
  "TimerRefresh s = and_then (TimerRefreshInLoop (conn_id s) (loop_wheel s)) (\<lambda>w. Inr (s\<lparr>loop_wheel := w\<rparr>))"

definition EnableInactiveReleaseInLoop :: "int \<Rightarrow> ('k, 'x) connection \<Rightarrow> ('k, 'x) conn_result" where
  "EnableInactiveReleaseInLoop sec s =
     (let s = s\<lparr>inactive_release := True\<rparr> in
      if HasTimer (conn_id s) (loop_wheel s) then TimerRefresh s
      else and_then (TimerAddInLoop (conn_id s) (of_int sec) (conn_id s) (loop_wheel s)) (\<lambda>w.
        Inr (s\<lparr>loop_wheel := w\<rparr>)))"

definition SendInLoop :: "buffer \<Rightarrow> ('k, 'x) connection \<Rightarrow> ('k, 'x) conn_result" where
  "SendInLoop buf s =
     (if statu s = DISCONNECTED then Inr s
      else and_then (WriteBufferAndPush buf (out_buffer s)) (\<lambda>b.
        let s = s\<lparr>out_buffer := b, submitted := submitted s @ content buf\<rparr> in
        Inr (if \<not> WriteAble (conn_channel s) then on_channel EnableWrite s else s)))"

definition ShutdownInLoop ::
  "('k \<Rightarrow> ('k, 'x) connection \<Rightarrow> ('k, 'x) conn_result) \<Rightarrow> ('k, 'x) connection \<Rightarrow> ('k, 'x) conn_result" where
  "ShutdownInLoop call s =
     and_then (let s = s\<lparr>statu := DISCONNECTING\<rparr> in
               if ReadAbleSize (in_buffer s) > 0 then call_if call (message_cb s) s else Inr s) (\<lambda>s.
     let s = (if ReadAbleSize (out_buffer s) > 0 \<and> \<not> WriteAble (conn_channel s)
              then on_channel EnableWrite s else s) in
     Inr (if ReadAbleSize (out_buffer s) = 0 then Release s else s))"

definition EstablishedInLoop ::
  "('k \<Rightarrow> ('k, 'x) connection \<Rightarrow> ('k, 'x) conn_result) \<Rightarrow> ('k, 'x) connection \<Rightarrow> ('k, 'x) conn_result" where
  "EstablishedInLoop call s =
     (if statu s \<noteq> CONNECTING then Inl AssertFailed
      else call_if call (connected_cb s) (on_channel EnableRead (s\<lparr>statu := CONNECTED\<rparr>)))"

definition ReleaseInLoop ::
  "('k \<Rightarrow> ('k, 'x) connection \<Rightarrow> ('k, 'x) conn_result) \<Rightarrow> ('k, 'x) connection \<Rightarrow> ('k, 'x) conn_result" where
  "ReleaseInLoop call s =
     (let s = s\<lparr>statu := DISCONNECTED\<rparr>;
          s = on_channel (\<lambda>a c p. (c, Remove c p)) s;
          s = (case Close (conn_socket s) of (k, cs) \<Rightarrow> s\<lparr>conn_socket := k, closes := closes s @ cs\<rparr>);
          s = (if HasTimer (conn_id s) (loop_wheel s) then CancelInactiveReleaseInLoop s else s) in
      and_then (call_if call (closed_cb s) s) (\<lambda>s.
        call_if call (server_closed_cb s) s))"

definition UpgradeInLoop :: "'x \<Rightarrow> 'k option \<Rightarrow> 'k option \<Rightarrow> 'k option \<Rightarrow> 'k option
    \<Rightarrow> ('k, 'x) connection \<Rightarrow> ('k, 'x) connection" where
  "UpgradeInLoop x conn msg closed ev s =
     s\<lparr>conn_context := x, connected_cb := conn, message_cb := msg, closed_cb := closed, any_event_cb := ev\<rparr>"

section \<open>Channel events\<close>

text \<open>
  What the kernel answers a recv (return value, errno, the bytes) and a send of \<open>n\<close> bytes.
\<close>

type_synonym recv_answer = "int \<times> errno \<times> string"
type_synonym send_answer = "nat \<Rightarrow> int \<times> errno"

definition HandleRead :: "('k \<Rightarrow> ('k, 'x) connection \<Rightarrow> ('k, 'x) conn_result) \<Rightarrow> recv_answer
    \<Rightarrow> ('k, 'x) connection \<Rightarrow> ('k, 'x) conn_result" where
  "HandleRead call = (\<lambda>(r, err, data) s.
     let ret = NonBlockRecv r err in
     if ret < 0 then ShutdownInLoop call s
     else let bytes = take (nat ret) data in
       and_then (WriteAndPush bytes (in_buffer s)) (\<lambda>b.
       let s = s\<lparr>in_buffer := b, received_bytes := received_bytes s @ bytes\<rparr> in
       if ReadAbleSize (in_buffer s) > 0 then call_set call (message_cb s) s else Inr s))"

text \<open>The bytes before the close or after an error are still handed to the message callback.\<close>

definition flush_input :: "('k \<Rightarrow> ('k, 'x) connection \<Rightarrow> ('k, 'x) conn_result)
    \<Rightarrow> ('k, 'x) connection \<Rightarrow> ('k, 'x) conn_result" where
  "flush_input call s = (if ReadAbleSize (in_buffer s) > 0 then call_set call (message_cb s) s else Inr s)"

definition HandleWrite :: "('k \<Rightarrow> ('k, 'x) connection \<Rightarrow> ('k, 'x) conn_result) \<Rightarrow> send_answer
    \<Rightarrow> ('k, 'x) connection \<Rightarrow> ('k, 'x) conn_result" where
  "HandleWrite call ans s =
     and_then (peek_bytes (ReadAbleSize (out_buffer s)) (out_buffer s)) (\<lambda>d.
     case ans (length d) of (r, err) \<Rightarrow>
     let ret = NonBlockSend (length d) r err in
     if ret < 0 then and_then (flush_input call s) (\<lambda>s. Inr (Release s))
     else and_then (MoveReadOffset (of_int ret) (out_buffer s)) (\<lambda>b.
       let s = s\<lparr>out_buffer := b, sent := sent s @ take (nat ret) d\<rparr> in
       if ReadAbleSize (out_buffer s) = 0
       then let s = on_channel DisableWrite s in
            Inr (if statu s = DISCONNECTING then Release s else s)
       else Inr s))"

definition HandleClose :: "('k \<Rightarrow> ('k, 'x) connection \<Rightarrow> ('k, 'x) conn_result)
    \<Rightarrow> ('k, 'x) connection \<Rightarrow> ('k, 'x) conn_result" where
  "HandleClose call s = and_then (flush_input call s) (\<lambda>s. Inr (Release s))"

definition HandleError :: "('k \<Rightarrow> ('k, 'x) connection \<Rightarrow> ('k, 'x) conn_result)
    \<Rightarrow> ('k, 'x) connection \<Rightarrow> ('k, 'x) conn_result" where
  "HandleError call s = HandleClose call s"

definition HandleAnyEvent :: "('k \<Rightarrow> ('k, 'x) connection \<Rightarrow> ('k, 'x) conn_result)
    \<Rightarrow> ('k, 'x) connection \<Rightarrow> ('k, 'x) conn_result" where
  "HandleAnyEvent call s =
     and_then (if inactive_release s then TimerRefresh s else Inr s) (\<lambda>s.
       call_if call (any_event_cb s) s)"

fun conn_handler :: "('k \<Rightarrow> ('k, 'x) connection \<Rightarrow> ('k, 'x) conn_result) \<Rightarrow> recv_answer \<Rightarrow> send_answer
    \<Rightarrow> conn_event \<Rightarrow> ('k, 'x) connection \<Rightarrow> ('k, 'x) conn_result" where
  "conn_handler call rcv ans On_read s = HandleRead call rcv s"
| "conn_handler call rcv ans On_write s = HandleWrite call ans s"
| "conn_handler call rcv ans On_close s = HandleClose call s"
| "conn_handler call rcv ans On_error s = HandleError call s"
| "conn_handler call rcv ans On_event s = HandleAnyEvent call s"

text \<open>The loop handling the ready events \<open>revents\<close> of the connection's channel.\<close>

definition conn_events :: "('k \<Rightarrow> ('k, 'x) connection \<Rightarrow> ('k, 'x) conn_result) \<Rightarrow> recv_answer \<Rightarrow> send_answer
    \<Rightarrow> u32 \<Rightarrow> ('k, 'x) connection \<Rightarrow> ('k, 'x) conn_result" where
  "conn_events call rcv ans revents s =
     HandleEvent (conn_handler call rcv ans) conn_channel
       (s\<lparr>conn_channel := SetREvents revents (conn_channel s)\<rparr>)"

section \<open>Tasks, timers and the public operations\<close>

text \<open>Running a queued closure; \<open>this\<close> is a raw pointer, so on a destroyed connection it is undefined.\<close>

definition run_task :: "('k \<Rightarrow> ('k, 'x) connection \<Rightarrow> ('k, 'x) conn_result)
    \<Rightarrow> ('k, 'x) conn_task \<Rightarrow> ('k, 'x) connection \<Rightarrow> ('k, 'x) conn_result" where
  "run_task call t s = (if \<not> alive s then Inl UseAfterFree else case t of
       Established_task \<Rightarrow> EstablishedInLoop call s
     | Send_task b \<Rightarrow> SendInLoop b s
     | Shutdown_task \<Rightarrow> ShutdownInLoop call s
     | Release_task \<Rightarrow> ReleaseInLoop call s
     | EnableInactive_task sec \<Rightarrow> EnableInactiveReleaseInLoop sec s
     | CancelInactive_task \<Rightarrow> Inr (CancelInactiveReleaseInLoop s)
     | Upgrade_task x conn msg closed ev \<Rightarrow> Inr (UpgradeInLoop x conn msg closed ev s))"

text \<open>The timerfd's read callback: the timers that are due run, this connection's queues its release.\<close>

definition conn_OnTime :: "u64 \<Rightarrow> ('k, 'x) connection \<Rightarrow> ('k, 'x) conn_result" where
  "conn_OnTime n s = and_then (OnTime n (loop_wheel s)) (\<lambda>(w, fired).
     Inr (fold (\<lambda>i s. if i = conn_id s then Release s else s) fired (s\<lparr>loop_wheel := w\<rparr>)))"

text \<open>Access to the fields; \<open>Id()\<close> returns the uint64_t id as an int.\<close>

definition Conn_Id :: "('k, 'x) connection \<Rightarrow> int" where
  "Conn_Id s = sint (ucast (conn_id s) :: u32)"

definition Connected :: "('k, 'x) connection \<Rightarrow> bool" where
  "Connected s \<longleftrightarrow> statu s = CONNECTED"

definition SetContext :: "'x \<Rightarrow> ('k, 'x) connection \<Rightarrow> ('k, 'x) connection" where
  "SetContext x s = s\<lparr>conn_context := x\<rparr>"

definition SetConnectedCallback :: "'k option \<Rightarrow> ('k, 'x) connection \<Rightarrow> ('k, 'x) connection" where
  "SetConnectedCallback k s = s\<lparr>connected_cb := k\<rparr>"

definition SetMessageCallback :: "'k option \<Rightarrow> ('k, 'x) connection \<Rightarrow> ('k, 'x) connection" where
  "SetMessageCallback k s = s\<lparr>message_cb := k\<rparr>"

definition SetClosedCallback :: "'k option \<Rightarrow> ('k, 'x) connection \<Rightarrow> ('k, 'x) connection" where
  "SetClosedCallback k s = s\<lparr>closed_cb := k\<rparr>"

definition SetAnyEventCallback :: "'k option \<Rightarrow> ('k, 'x) connection \<Rightarrow> ('k, 'x) connection" where
  "SetAnyEventCallback k s = s\<lparr>any_event_cb := k\<rparr>"

definition SetSrvClosedCallback :: "'k option \<Rightarrow> ('k, 'x) connection \<Rightarrow> ('k, 'x) connection" where
  "SetSrvClosedCallback k s = s\<lparr>server_closed_cb := k\<rparr>"

lemmas conn_setters = SetContext_def SetConnectedCallback_def SetMessageCallback_def SetClosedCallback_def
  SetAnyEventCallback_def SetSrvClosedCallback_def

text \<open>The public operations, called inside the loop's thread or from another.\<close>

definition Established :: "('k \<Rightarrow> ('k, 'x) connection \<Rightarrow> ('k, 'x) conn_result) \<Rightarrow> bool
    \<Rightarrow> ('k, 'x) connection \<Rightarrow> ('k, 'x) conn_result" where
  "Established call in_loop s = RunInLoop (run_task call) in_loop Established_task s"

definition Conn_Send :: "('k \<Rightarrow> ('k, 'x) connection \<Rightarrow> ('k, 'x) conn_result) \<Rightarrow> bool \<Rightarrow> string
    \<Rightarrow> ('k, 'x) connection \<Rightarrow> ('k, 'x) conn_result" where
  "Conn_Send call in_loop data s =
     and_then (WriteAndPush data Buffer_new) (\<lambda>b. RunInLoop (run_task call) in_loop (Send_task b) s)"

definition Shutdown :: "('k \<Rightarrow> ('k, 'x) connection \<Rightarrow> ('k, 'x) conn_result) \<Rightarrow> bool
    \<Rightarrow> ('k, 'x) connection \<Rightarrow> ('k, 'x) conn_result" where
  "Shutdown call in_loop s = RunInLoop (run_task call) in_loop Shutdown_task s"

definition EnableInactiveRelease :: "('k \<Rightarrow> ('k, 'x) connection \<Rightarrow> ('k, 'x) conn_result) \<Rightarrow> bool \<Rightarrow> int
    \<Rightarrow> ('k, 'x) connection \<Rightarrow> ('k, 'x) conn_result" where
  "EnableInactiveRelease call in_loop sec s = RunInLoop (run_task call) in_loop (EnableInactive_task sec) s"

definition CancelInactiveRelease :: "('k \<Rightarrow> ('k, 'x) connection \<Rightarrow> ('k, 'x) conn_result) \<Rightarrow> bool
    \<Rightarrow> ('k, 'x) connection \<Rightarrow> ('k, 'x) conn_result" where
  "CancelInactiveRelease call in_loop s = RunInLoop (run_task call) in_loop CancelInactive_task s"

text \<open>Upgrade asserts that it runs inside the loop.\<close>

definition Upgrade :: "('k \<Rightarrow> ('k, 'x) connection \<Rightarrow> ('k, 'x) conn_result) \<Rightarrow> bool \<Rightarrow> 'x
    \<Rightarrow> 'k option \<Rightarrow> 'k option \<Rightarrow> 'k option \<Rightarrow> 'k option
    \<Rightarrow> ('k, 'x) connection \<Rightarrow> ('k, 'x) conn_result" where
  "Upgrade call in_loop x conn msg closed ev s =
     (if \<not> in_loop then Inl AssertFailed
      else RunInLoop (run_task call) in_loop (Upgrade_task x conn msg closed ev) s)"

section \<open>Invariant and progress of a connection not yet released\<close>

text \<open>
  The poller knows the connection's channel at its address and agrees with the kernel, and wants
  events only for a registered channel; the channel's callbacks are the connection's handlers.
\<close>

definition channel_wf :: "nat \<Rightarrow> int \<Rightarrow> conn_event channel \<Rightarrow> poller \<Rightarrow> bool" where
  "channel_wf a fd c p \<longleftrightarrow>
     (\<exists>h. h a = Some c \<and> poller_wf (h, p)) \<and> (ch_events c \<noteq> 0 \<longrightarrow> HasChannel c p) \<and> ch_fd c = fd
   \<and> read_callback c = Some On_read \<and> write_callback c = Some On_write \<and> error_callback c = Some On_error
   \<and> close_callback c = Some On_close \<and> event_callback c = Some On_event"

text \<open>
  A queued closure that keeps the invariant when it runs: the buffers and delays of the API are
  like this, and Upgrade is never queued.
\<close>

fun task_wf :: "('k, 'x) conn_task \<Rightarrow> bool" where
  "task_wf (Send_task b) \<longleftrightarrow> buf_wf b"
| "task_wf (EnableInactive_task sec) \<longleftrightarrow> 0 \<le> sec \<and> sec + 60 \<le> 2 ^ 31"
| "task_wf (Upgrade_task x conn msg closed ev) \<longleftrightarrow> False"
| "task_wf _ \<longleftrightarrow> True"

text \<open>
  Nothing is lost between SendInLoop and the kernel, nor between the kernel and the message
  callback, which sees a suffix of what arrived; and while output is pending the channel asks for
  EPOLLOUT.
\<close>

definition conn_core :: "('k, 'x) connection \<Rightarrow> bool" where
  "conn_core s \<longleftrightarrow> statu s \<noteq> DISCONNECTED \<and> alive s
   \<and> buf_wf (in_buffer s) \<and> buf_wf (out_buffer s) \<and> wheel_wf (loop_wheel s)
   \<and> channel_wf (channel_addr s) (conn_fd s) (conn_channel s) (loop_poller s)
   \<and> sockfd (conn_socket s) = conn_fd s \<and> closes s = [] \<and> message_cb s \<noteq> None
   \<and> submitted s = sent s @ content (out_buffer s)
   \<and> suffix (content (in_buffer s)) (received_bytes s)
   \<and> (\<forall>t \<in> set (el_tasks s). task_wf t)"

text \<open>What belongs to the user of the connection, of which \<open>P\<close> is kept true.\<close>

type_synonym ('k, 'x) user_part = "'x \<times> 'k option \<times> 'k option \<times> 'k option"

definition user_part :: "('k, 'x) connection \<Rightarrow> ('k, 'x) user_part" where
  [simp]: "user_part s = (conn_context s, connected_cb s, message_cb s, any_event_cb s)"

definition is_callback :: "'k option \<Rightarrow> ('k, 'x) connection \<Rightarrow> bool" where
  [simp]: "is_callback k s \<longleftrightarrow> k \<noteq> None \<and> k \<in> {connected_cb s, message_cb s, any_event_cb s}"

definition conn_inv :: "(('k, 'x) user_part \<Rightarrow> bool) \<Rightarrow> ('k, 'x) connection \<Rightarrow> bool" where
  "conn_inv P s \<longleftrightarrow> conn_core s \<and> (content (out_buffer s) \<noteq> [] \<longrightarrow> WriteAble (conn_channel s))
     \<and> P (user_part s)"

text \<open>The statuses in the order a connection goes through them.\<close>

fun statu_rank :: "ConnStatu \<Rightarrow> nat" where
  "statu_rank CONNECTING = 0" | "statu_rank CONNECTED = 1" | "statu_rank DISCONNECTING = 2"
| "statu_rank DISCONNECTED = 3"

lemma statu_rank_inject: "statu_rank a = statu_rank b \<Longrightarrow> a = b"
  by (cases a; cases b) simp_all

instantiation ConnStatu :: linorder
begin

definition less_eq_ConnStatu :: "ConnStatu \<Rightarrow> ConnStatu \<Rightarrow> bool" where
  [simp]: "a \<le> b \<longleftrightarrow> statu_rank a \<le> statu_rank b"

definition less_ConnStatu :: "ConnStatu \<Rightarrow> ConnStatu \<Rightarrow> bool" where
  [simp]: "a < b \<longleftrightarrow> statu_rank a < statu_rank b"

instance
  by standard (auto intro: statu_rank_inject)

end

text \<open>
  The order in which a live connection moves: its status, its histories and its queue grow, and the
  loop does not stop watching its descriptor for input.
\<close>

definition conn_le :: "('k, 'x) connection \<Rightarrow> ('k, 'x) connection \<Rightarrow> bool" where
  "conn_le s t \<longleftrightarrow> statu s \<le> statu t
   \<and> conn_id t = conn_id s \<and> conn_fd t = conn_fd s \<and> channel_addr t = channel_addr s
   \<and> prefix (received_bytes s) (received_bytes t) \<and> prefix (submitted s) (submitted t)
   \<and> prefix (sent s) (sent t) \<and> prefix (el_tasks s) (el_tasks t)
   \<and> (ReadAble (conn_channel s) \<longrightarrow> ReadAble (conn_channel t))"

lemma conn_le_refl [simp]: "conn_le s s"
  by (simp add: conn_le_def)

lemma conn_le_trans: "conn_le s t \<Longrightarrow> conn_le t u \<Longrightarrow> conn_le s u"
  using prefix_order.trans[of "received_bytes s" "received_bytes t" "received_bytes u"]
    prefix_order.trans[of "submitted s" "submitted t" "submitted u"]
    prefix_order.trans[of "sent s" "sent t" "sent u"] prefix_order.trans[of "el_tasks s" "el_tasks t" "el_tasks u"]
  by (simp add: conn_le_def)

text \<open>A step that returns keeps the invariant and moves forward; it faults only by one of \<open>E\<close>.\<close>

definition step_ok :: "(('k, 'x) user_part \<Rightarrow> bool) \<Rightarrow> fault set \<Rightarrow> ('k, 'x) connection \<Rightarrow> ('k, 'x) conn_result \<Rightarrow> bool" where
  "step_ok P E s m \<longleftrightarrow> (case m of Inl e \<Rightarrow> e \<in> E | Inr t \<Rightarrow> conn_inv P t \<and> conn_le s t)"

lemma step_ok_Inr [simp]: "step_ok P E s (Inr t) \<longleftrightarrow> conn_inv P t \<and> conn_le s t"
  by (simp add: step_ok_def)

lemma step_ok_Inl [simp]: "step_ok P E s (Inl e) \<longleftrightarrow> e \<in> E"
  by (simp add: step_ok_def)

lemma step_ok_from: "conn_le s t \<Longrightarrow> step_ok P E t m \<Longrightarrow> step_ok P E s m"
  by (cases m) (auto intro: conn_le_trans)

lemma step_ok_then:
  "step_ok P E s m \<Longrightarrow> (\<And>t. conn_inv P t \<Longrightarrow> step_ok P E t (f t)) \<Longrightarrow> step_ok P E s (and_then m f)"
  by (cases m) (auto intro: step_ok_from)

section \<open>The operations keep the invariant\<close>

lemma channel_wf_update:
  assumes "channel_wf a fd c p"
  shows "channel_wf a fd (c\<lparr>ch_events := ev\<rparr>) (UpdateEvent a (c\<lparr>ch_events := ev\<rparr>) p)"
proof -
  from assms obtain h where "h a = Some c" "poller_wf (h, p)" by (auto simp: channel_wf_def)
  from set_events_step(1)[OF this(2,1), of ev] assms show ?thesis
    by (auto simp: channel_wf_def HasChannel_def UpdateEvent_def Poller_Update_def intro!: exI[of _ "h(a \<mapsto> c\<lparr>ch_events := ev\<rparr>)"])
qed

lemma channel_wf_revents:
  assumes "channel_wf a fd c p"
  shows "channel_wf a fd (SetREvents ev c) p"
proof -
  from assms obtain h where h: "h a = Some c" "poller_wf (h, p)" by (auto simp: channel_wf_def)
  let ?h = "h(a \<mapsto> SetREvents ev c)"
  have "wanted (?h, p) = wanted (h, p)"
    using h(1) by (auto simp: wanted_def SetREvents_def fun_eq_iff split: option.splits)
  then have "interest (ctl_calls p) (\<lambda>_. None) = Some (wanted (?h, p))" using poller_wfD(3)[OF h(2)] by simp
  moreover have "\<exists>d. ?h b = Some d \<and> ch_fd d = f" if "p_channels p f = Some b" for f b
    using poller_wfD(2)[OF h(2) that] h(1) by (auto simp: SetREvents_def)
  moreover have "b = b'" if "?h b = Some d" "?h b' = Some d'" "ch_fd d = ch_fd d'" for b b' d d'
  proof -
    have old: "\<exists>e'. h x = Some e' \<and> ch_fd e' = ch_fd e" if "?h x = Some e" for x e
      using that h(1) by (cases "x = a") (auto simp: SetREvents_def)
    from old[OF that(1)] old[OF that(2)] that(3) poller_wfD(1)[OF h(2)] show ?thesis by metis
  qed
  ultimately have "poller_wf (?h, p)" unfolding poller_wf_def prod.case by blast
  moreover have "?h a = Some (SetREvents ev c)" by simp
  ultimately have "\<exists>h. h a = Some (SetREvents ev c) \<and> poller_wf (h, p)" by blast
  with assms show ?thesis by (auto simp: channel_wf_def SetREvents_def HasChannel_def)
qed

lemma WriteAble_on: "WriteAble (c\<lparr>ch_events := ev OR EPOLLOUT\<rparr>)"
  by (simp add: WriteAble_def epoll_bits word_bw_comms bit.conj_disj_distrib2)

lemma WriteAble_off: "WriteAble (c\<lparr>ch_events := ev AND NOT EPOLLOUT\<rparr>) \<longleftrightarrow> False"
  by (simp add: WriteAble_def word_bw_assocs)

definition set_events :: "u32 \<Rightarrow> ('k, 'x) connection \<Rightarrow> ('k, 'x) connection" where
  "set_events ev s = (let c = (conn_channel s)\<lparr>ch_events := ev\<rparr> in
     s\<lparr>conn_channel := c, loop_poller := UpdateEvent (channel_addr s) c (loop_poller s)\<rparr>)"

lemma on_channel_set_events:
  "on_channel EnableRead s = set_events (ch_events (conn_channel s) OR EPOLLIN) s"
  "on_channel EnableWrite s = set_events (ch_events (conn_channel s) OR EPOLLOUT) s"
  "on_channel DisableWrite s = set_events (ch_events (conn_channel s) AND NOT EPOLLOUT) s"
  by (simp_all add: on_channel_def set_events_def EnableRead_def EnableWrite_def DisableWrite_def Let_def)

lemma set_events_core [simp]: "conn_core s \<Longrightarrow> conn_core (set_events ev s)"
  by (auto simp: set_events_def Let_def conn_core_def dest: channel_wf_update)

lemma set_events_simps [simp]:
  "out_buffer (set_events ev s) = out_buffer s" "in_buffer (set_events ev s) = in_buffer s"
  "statu (set_events ev s) = statu s" "el_tasks (set_events ev s) = el_tasks s"
  "conn_channel (set_events ev s) = (conn_channel s)\<lparr>ch_events := ev\<rparr>"
  "message_cb (set_events ev s) = message_cb s" "any_event_cb (set_events ev s) = any_event_cb s" "connected_cb (set_events ev s) = connected_cb s"
  "conn_context (set_events ev s) = conn_context s" "sent (set_events ev s) = sent s" "submitted (set_events ev s) = submitted s"
  "received_bytes (set_events ev s) = received_bytes s"
  by (simp_all add: set_events_def Let_def)

text \<open>Events that leave the interest in input.\<close>

definition keeps_read :: "u32 \<Rightarrow> u32 \<Rightarrow> bool" where
  "keeps_read ev ev' \<longleftrightarrow> (ev AND EPOLLIN \<noteq> 0 \<longrightarrow> ev' AND EPOLLIN \<noteq> 0)"

lemma keeps_read_simps [simp]: "keeps_read ev (ev OR e)" "keeps_read ev (ev AND NOT EPOLLOUT)"
proof -
  show "keeps_read ev (ev OR e)"
    unfolding keeps_read_def by (metis bit.conj_disj_distrib2 or_eq_0_iff)
  have "NOT EPOLLOUT AND EPOLLIN = EPOLLIN" by (simp add: epoll_bits)
  then show "keeps_read ev (ev AND NOT EPOLLOUT)" by (simp add: keeps_read_def word_bw_assocs)
qed

lemma conn_le_set_events [simp]:
  "conn_le s t \<Longrightarrow> keeps_read (ch_events (conn_channel t)) ev \<Longrightarrow> conn_le s (set_events ev t)"
  by (auto simp: conn_le_def set_events_def Let_def keeps_read_def ReadAble_def)

lemma pending_iff: "buf_wf b \<Longrightarrow> ReadAbleSize b > 0 \<longleftrightarrow> content b \<noteq> []"
  by (metis length_0_conv unat_ReadAbleSize unat_eq_zero word_gt_0)

lemma drained_iff: "buf_wf b \<Longrightarrow> ReadAbleSize b = 0 \<longleftrightarrow> content b = []"
  using pending_iff[of b] by (simp add: word_gt_0)

lemma conn_coreD:
  assumes "conn_core s"
  shows "buf_wf (in_buffer s)" "buf_wf (out_buffer s)" "wheel_wf (loop_wheel s)" "message_cb s \<noteq> None"
    "statu s \<noteq> DISCONNECTED" "alive s" "submitted s = sent s @ content (out_buffer s)"
    "suffix (content (in_buffer s)) (received_bytes s)"
    "channel_wf (channel_addr s) (conn_fd s) (conn_channel s) (loop_poller s)"
    "\<forall>t \<in> set (el_tasks s). task_wf t"
  using assms by (simp_all add: conn_core_def)

lemma conn_inv_context: "conn_inv P s \<Longrightarrow> P (user_part s)"
  by (simp add: conn_inv_def)

lemma conn_invD: "conn_inv P s \<Longrightarrow> conn_core s"
  by (simp add: conn_inv_def)

lemma core_QueueInLoop: "conn_core s \<Longrightarrow> task_wf t \<Longrightarrow> conn_core (QueueInLoop t s) \<and> conn_le s (QueueInLoop t s)"
  by (simp add: conn_core_def conn_le_def QueueInLoop_def)

lemma QueueInLoop_inv: "conn_inv P s \<Longrightarrow> task_wf t \<Longrightarrow> conn_inv P (QueueInLoop t s) \<and> conn_le s (QueueInLoop t s)"
  using core_QueueInLoop[of s t] by (simp add: conn_inv_def) (simp add: QueueInLoop_def)

lemma Release_inv: "conn_inv P s \<Longrightarrow> conn_inv P (Release s)" "conn_inv P s \<Longrightarrow> conn_le s (Release s)"
  using QueueInLoop_inv[of P s Release_task] by (simp_all add: Release_def)

lemma Release_simps [simp]:
  "conn_context (Release s) = conn_context s" "connected_cb (Release s) = connected_cb s"
  "sent (Release s) = sent s" "received_bytes (Release s) = received_bytes s" "submitted (Release s) = submitted s" "out_buffer (Release s) = out_buffer s"
  "in_buffer (Release s) = in_buffer s" "statu (Release s) = statu s" "conn_channel (Release s) = conn_channel s"
  "el_tasks (Release s) = el_tasks s @ [Release_task]" "loop_wheel (Release s) = loop_wheel s"
  "conn_id (Release s) = conn_id s" "inactive_release (Release s) = inactive_release s"
  "any_event_cb (Release s) = any_event_cb s" "alive (Release s) = alive s" "closed_cb (Release s) = closed_cb s"
  "server_closed_cb (Release s) = server_closed_cb s" "message_cb (Release s) = message_cb s"
  by (simp_all add: Release_def QueueInLoop_def)

lemma wheel_inv: "conn_inv P s \<Longrightarrow> wheel_wf w \<Longrightarrow> conn_inv P (s\<lparr>inactive_release := b, loop_wheel := w\<rparr>)
    \<and> conn_le s (s\<lparr>inactive_release := b, loop_wheel := w\<rparr>)"
  by (simp add: conn_inv_def conn_core_def conn_le_def)

lemma CancelInactive_inv:
  "conn_inv P s \<Longrightarrow> conn_inv P (CancelInactiveReleaseInLoop s) \<and> conn_le s (CancelInactiveReleaseInLoop s)"
  using wheel_inv[of P s "loop_wheel s" False] wheel_inv[of P s "TimerCancelInLoop (conn_id s) (loop_wheel s)" False]
    TimerCancel_simulates[of "loop_wheel s" "conn_id s"] conn_coreD(3)[of s]
  by (auto simp: CancelInactiveReleaseInLoop_def Let_def conn_invD)

lemma TimerRefresh_ok: "conn_inv P s \<Longrightarrow> step_ok P E s (TimerRefresh s)"
  using TimerRefresh_simulates[OF conn_coreD(3)[OF conn_invD], of P s "conn_id s"] wheel_inv[of P s _ "inactive_release s"]
  by (auto simp: TimerRefresh_def)

lemma EnableInactive_ok:
  assumes s: "conn_inv P s" and sec: "0 \<le> sec" "sec + 60 \<le> 2 ^ 31"
  shows "step_ok P E s (EnableInactiveReleaseInLoop sec s)"
proof (cases "HasTimer (conn_id s) (loop_wheel s)")
  case True
  have "conn_inv P (s\<lparr>inactive_release := True\<rparr>)" "conn_le s (s\<lparr>inactive_release := True\<rparr>)"
    using wheel_inv[OF s, of "loop_wheel s" True] conn_coreD(3)[OF conn_invD[OF s]] by simp_all
  from step_ok_from[OF this(2) TimerRefresh_ok[OF this(1)]] True show ?thesis
    by (simp add: EnableInactiveReleaseInLoop_def Let_def)
next
  case False
  have "unat (of_int sec :: u32) + 60 \<le> 2 ^ 31"
    using sec by (simp add: unat_eq_nat_uint uint_word_of_int_eq take_bit_int_eq_self nat_le_iff)
  from TimerAdd_simulates[OF conn_coreD(3)[OF conn_invD[OF s]] False this, of "conn_id s"] False
    wheel_inv[OF s, of _ True]
  show ?thesis by (auto simp: EnableInactiveReleaseInLoop_def Let_def)
qed

lemma SendInLoop_ok:
  assumes s: "conn_inv P s" and buf: "buf_wf buf" and E: "LengthError \<in> E"
  shows "step_ok P E s (SendInLoop buf s)"
proof -
  note core = conn_invD[OF s]
  from WriteBufferAndPush_total[OF conn_coreD(2)[OF core] buf] show ?thesis
  proof
    assume "WriteBufferAndPush buf (out_buffer s) = Inl LengthError"
    with E conn_coreD(5)[OF core] show ?thesis by (simp add: SendInLoop_def)
  next
    assume "\<exists>b. WriteBufferAndPush buf (out_buffer s) = Inr b \<and> buf_wf b \<and> content b = content (out_buffer s) @ content buf"
    then obtain b where b: "WriteBufferAndPush buf (out_buffer s) = Inr b" "buf_wf b"
      "content b = content (out_buffer s) @ content buf" by blast
    let ?s = "s\<lparr>out_buffer := b, submitted := submitted s @ content buf\<rparr>"
    have "conn_core ?s" "conn_le s ?s" using core b by (simp_all add: conn_core_def conn_le_def)
    with b(1) conn_coreD(5)[OF core] conn_inv_context[OF s] show ?thesis
      by (simp add: SendInLoop_def Let_def on_channel_set_events conn_inv_def WriteAble_on)
  qed
qed

text \<open>
  What recv and send promise: recv delivers at most the 65535 bytes asked for and as many as it
  returns, send takes no more than it is offered.
\<close>

definition recv_ok :: "recv_answer \<Rightarrow> bool" where
  "recv_ok = (\<lambda>(r, err, data). r \<le> 65535 \<and> (0 < r \<longrightarrow> length data = nat r))"

definition send_ok :: "send_answer \<Rightarrow> bool" where
  "send_ok ans \<longleftrightarrow> (\<forall>n. fst (ans n) \<le> int n)"

text \<open>The result of the send in HandleWrite, and what HandleWrite does with it.\<close>

definition send_result :: "send_answer \<Rightarrow> ('k, 'x) connection \<Rightarrow> int" where
  "send_result ans s = (let n = length (content (out_buffer s)) in
     NonBlockSend n (fst (ans n)) (snd (ans n)))"

lemma peek_all: "buf_wf b \<Longrightarrow> peek_bytes (ReadAbleSize b) b = Inr (content b)"
  using peek_bytes_content[of b "ReadAbleSize b"] by (simp add: unat_ReadAbleSize)

lemma HandleWrite_fails: "conn_core s \<Longrightarrow> send_result ans s < 0 \<Longrightarrow>
  HandleWrite call ans s = and_then (flush_input call s) (\<lambda>s. Inr (Release s))"
  by (simp add: HandleWrite_def peek_all conn_coreD send_result_def Let_def split_beta)

lemma send_result_le: "send_ok ans \<Longrightarrow> send_result ans s \<le> int (length (content (out_buffer s)))"
  by (auto simp: send_ok_def send_result_def Let_def NonBlockSend_def Send_def)

lemma HandleWrite_sends:
  assumes s: "conn_inv P s" and ans: "send_ok ans" and n: "0 \<le> send_result ans s"
  shows "\<exists>t. HandleWrite call ans s = Inr t \<and> conn_inv P t \<and> conn_le s t
     \<and> sent t = sent s @ take (nat (send_result ans s)) (content (out_buffer s))
     \<and> content (out_buffer t) = drop (nat (send_result ans s)) (content (out_buffer s))
     \<and> submitted t = submitted s \<and> statu t = statu s
     \<and> el_tasks t = el_tasks s @ (if content (out_buffer t) = [] \<and> statu s = DISCONNECTING then [Release_task] else [])
     \<and> (content (out_buffer t) = [] \<longrightarrow> \<not> WriteAble (conn_channel t))"
proof -
  note core = conn_invD[OF s] and out = conn_coreD(2)[OF conn_invD[OF s]]
  let ?d = "content (out_buffer s)" and ?n = "send_result ans s"
  have le: "nat ?n \<le> length ?d" using send_result_le[OF ans, of s] by simp
  have "(of_int ?n :: u64) = of_nat (nat ?n)" using n by (simp add: of_nat_nat)
  then have u: "unat (of_int ?n :: u64) = nat ?n"
    using le length_content_le[OF out] unat_of_nat_u64[of "nat ?n"] by simp
  from MoveReadOffset_ok[OF out, of "of_int ?n"] le u obtain b where b: "MoveReadOffset (of_int ?n) (out_buffer s) = Inr b"
    "buf_wf b" "content b = drop (nat ?n) ?d" by auto
  let ?s = "s\<lparr>out_buffer := b, sent := sent s @ take (nat ?n) ?d\<rparr>"
  have core': "conn_core ?s" "conn_le s ?s" using core b by (simp_all add: conn_core_def conn_le_def)
  then have inv: "conn_inv P ?s" using s b(3) by (auto simp: conn_inv_def)
  let ?t = "set_events (ch_events (conn_channel s) AND NOT EPOLLOUT) ?s"
  have run: "HandleWrite call ans s = Inr (if content b = [] then if statu s = DISCONNECTING then Release ?t else ?t else ?s)"
    using n b(1) drained_iff[OF b(2)] peek_all[OF out]
    by (simp add: HandleWrite_def Let_def on_channel_set_events send_result_def split_beta)
  show ?thesis
  proof (cases "content b = []")
    case True
    then have t: "conn_inv P ?t" "conn_le s ?t" using core' conn_inv_context[OF s] by (simp_all add: conn_inv_def)
    with True show ?thesis unfolding run using Release_inv[OF t(1)] conn_le_trans[OF t(2)] b(3)
      by (simp add: WriteAble_off)
  qed (simp add: run inv core' b(3))
qed

lemma disconnecting_inv:
  "conn_inv P s \<Longrightarrow> conn_inv P (s\<lparr>statu := DISCONNECTING\<rparr>) \<and> conn_le s (s\<lparr>statu := DISCONNECTING\<rparr>)"
  by (cases "statu s"; simp add: conn_inv_def conn_core_def conn_le_def)

text \<open>The part of ShutdownInLoop after the message callback.\<close>

definition shutdown_tail :: "('k, 'x) connection \<Rightarrow> ('k, 'x) connection" where
  "shutdown_tail t =
     (let u = (if ReadAbleSize (out_buffer t) > 0 \<and> \<not> WriteAble (conn_channel t) then on_channel EnableWrite t else t) in
      if ReadAbleSize (out_buffer u) = 0 then Release u else u)"

lemma ShutdownInLoop_tail:
  "ShutdownInLoop call s =
     and_then (if ReadAbleSize (in_buffer s) > 0 then call_if call (message_cb s) (s\<lparr>statu := DISCONNECTING\<rparr>)
               else Inr (s\<lparr>statu := DISCONNECTING\<rparr>)) (\<lambda>s. Inr (shutdown_tail s))"
  by (simp add: ShutdownInLoop_def shutdown_tail_def Let_def)

lemma shutdown_tail_inv: "conn_inv P t \<Longrightarrow> conn_inv P (shutdown_tail t) \<and> conn_le t (shutdown_tail t)"
  using Release_inv[of P t] drained_iff[of "out_buffer t"] pending_iff[of "out_buffer t"] conn_coreD(2)[of t]
  by (auto simp: shutdown_tail_def conn_inv_def on_channel_set_events Let_def)

lemma Shutdown_step_ok:
  assumes s: "conn_inv P s" and call: "step_ok P E (s\<lparr>statu := DISCONNECTING\<rparr>) (call_if call (message_cb s) (s\<lparr>statu := DISCONNECTING\<rparr>))"
  shows "step_ok P E s (ShutdownInLoop call s)"
  unfolding ShutdownInLoop_tail
  by (rule step_ok_then)
     (use disconnecting_inv[OF s] step_ok_from[OF _ call] shutdown_tail_inv in simp_all)

text \<open>
  The contract of the user's callbacks: on a connection not yet released they keep the invariant,
  move it forward, and fault only by \<open>E\<close>.  Then so does everything the loop does to the connection
  before its release.
\<close>

locale conn_client =
  fixes call :: "'k \<Rightarrow> ('k, 'x) connection \<Rightarrow> ('k, 'x) conn_result" and P :: "('k, 'x) user_part \<Rightarrow> bool" and E :: "fault set"
  assumes length_error: "LengthError \<in> E"
    and callbacks: "conn_inv P s \<Longrightarrow> is_callback (Some k) s \<Longrightarrow> step_ok P E s (call k s)"
begin

lemma call_if_ok: "conn_inv P s \<Longrightarrow> k \<in> {connected_cb s, message_cb s, any_event_cb s} \<Longrightarrow> step_ok P E s (call_if call k s)"
  using callbacks[of s] by (cases k) (auto simp: call_if_def)

lemma call_message_ok: "conn_inv P s \<Longrightarrow> step_ok P E s (call_set call (message_cb s) s)"
  using conn_coreD(4)[OF conn_invD, of P s] callbacks[of s] by (auto simp: call_set_def)

lemma flush_input_ok: "conn_inv P s \<Longrightarrow> step_ok P E s (flush_input call s)"
  by (simp add: flush_input_def call_message_ok)

lemma Shutdown_ok: "conn_inv P s \<Longrightarrow> step_ok P E s (ShutdownInLoop call s)"
  by (rule Shutdown_step_ok) (simp_all add: call_if_ok disconnecting_inv)

lemma Established_ok:
  assumes s: "conn_inv P s" and c: "statu s = CONNECTING"
  shows "step_ok P E s (EstablishedInLoop call s)"
proof -
  let ?s = "set_events (ch_events (conn_channel s) OR EPOLLIN) (s\<lparr>statu := CONNECTED\<rparr>)"
  have core: "conn_core (s\<lparr>statu := CONNECTED\<rparr>)" "conn_le s (s\<lparr>statu := CONNECTED\<rparr>)"
    using s c by (simp_all add: conn_inv_def conn_core_def conn_le_def)
  have "WriteAble (conn_channel s) \<longrightarrow> WriteAble ((conn_channel s)\<lparr>ch_events := ch_events (conn_channel s) OR EPOLLIN\<rparr>)"
    by (simp add: WriteAble_def epoll_bits bit.conj_disj_distrib2)
  with s core have "conn_inv P ?s" "conn_le s ?s" by (simp_all add: conn_inv_def)
  with c step_ok_from[OF this(2) call_if_ok] show ?thesis
    by (simp add: EstablishedInLoop_def on_channel_set_events)
qed

lemma Read_event_ok:
  assumes s: "conn_inv P s" and rcv: "recv_ok rcv"
  shows "step_ok P E s (HandleRead call rcv s)"
proof -
  obtain r err data where rcv': "rcv = (r, err, data)" by (cases rcv)
  let ?n = "NonBlockRecv r err" let ?d = "take (nat ?n) data"
  note core = conn_invD[OF s]
  have "?n \<le> 65535" using rcv by (auto simp: recv_ok_def rcv' NonBlockRecv_def Recv_def)
  then have d: "length ?d \<le> max_size" by (simp add: max_size_def)
  show ?thesis
  proof (cases "?n < 0")
    case True then show ?thesis using Shutdown_ok[OF s] by (simp add: HandleRead_def rcv')
  next
    case False
    from WriteAndPush_total[OF conn_coreD(1)[OF core] d] consider
        "WriteAndPush ?d (in_buffer s) = Inl LengthError"
      | b where "WriteAndPush ?d (in_buffer s) = Inr b" "buf_wf b" "content b = content (in_buffer s) @ ?d"
      by blast
    then show ?thesis
    proof cases
      case 1 then show ?thesis using False length_error by (simp add: HandleRead_def rcv' Let_def)
    next
      case (2 b)
      let ?s = "s\<lparr>in_buffer := b, received_bytes := received_bytes s @ ?d\<rparr>"
      have "suffix (content (in_buffer s) @ ?d) (received_bytes s @ ?d)" using conn_coreD(8)[OF core] by simp
      with s 2 have "conn_inv P ?s" "conn_le s ?s" by (simp_all add: conn_inv_def conn_core_def conn_le_def)
      with False 2(1) step_ok_from[OF this(2) call_message_ok] show ?thesis
        by (simp add: HandleRead_def rcv' Let_def)
    qed
  qed
qed

lemma Close_event_ok: "conn_inv P s \<Longrightarrow> step_ok P E s (HandleClose call s)"
  unfolding HandleClose_def by (rule step_ok_then[OF flush_input_ok]) (simp_all add: Release_inv)

lemma Any_event_ok: "conn_inv P s \<Longrightarrow> step_ok P E s (HandleAnyEvent call s)"
  unfolding HandleAnyEvent_def
  by (rule step_ok_then) (simp_all add: call_if_ok TimerRefresh_ok)

lemma Write_event_ok:
  assumes s: "conn_inv P s" and ans: "send_ok ans"
  shows "step_ok P E s (HandleWrite call ans s)"
proof (cases "send_result ans s < 0")
  case True
  have "step_ok P E s (and_then (flush_input call s) (\<lambda>s. Inr (Release s)))"
    by (rule step_ok_then[OF flush_input_ok[OF s]]) (simp add: Release_inv)
  with HandleWrite_fails[OF conn_invD[OF s] True] show ?thesis by simp
next
  case False
  then have "0 \<le> send_result ans s" by simp
  from HandleWrite_sends[OF s ans this] obtain t where t: "HandleWrite call ans s = Inr t" "conn_inv P t" "conn_le s t"
    by metis
  then show ?thesis by simp
qed

lemma handler_ok: "conn_inv P s \<Longrightarrow> recv_ok rcv \<Longrightarrow> send_ok ans \<Longrightarrow> step_ok P E s (conn_handler call rcv ans ev s)"
  by (cases ev) (simp_all add: Read_event_ok Write_event_ok Close_event_ok Any_event_ok HandleError_def)

lemma revents_inv: "conn_inv P s \<Longrightarrow> conn_inv P (s\<lparr>conn_channel := SetREvents ev (conn_channel s)\<rparr>)
    \<and> conn_le s (s\<lparr>conn_channel := SetREvents ev (conn_channel s)\<rparr>)"
  by (auto simp: conn_inv_def conn_core_def conn_le_def WriteAble_def ReadAble_def SetREvents_def
      dest: channel_wf_revents[of _ _ _ _ ev])

lemma events_ok:
  assumes s: "conn_inv P s" and rcv: "recv_ok rcv" and ans: "send_ok ans"
  shows "step_ok P E s (conn_events call rcv ans ev s)"
proof -
  have cb: "step_ok P E t (call_if (conn_handler call rcv ans) k t)" if "conn_inv P t" for k t
    using that handler_ok[OF _ rcv ans] by (simp add: call_if_def split: option.split)
  show ?thesis
    unfolding conn_events_def HandleEvent_def
    using revents_inv[OF s, of ev]
    by (elim conjE, rule_tac step_ok_from) (auto intro!: step_ok_then cb)
qed

lemma task_ok: "conn_inv P s \<Longrightarrow> task_wf t \<Longrightarrow> t \<noteq> Release_task \<Longrightarrow> t = Established_task \<longrightarrow> statu s = CONNECTING
    \<Longrightarrow> step_ok P E s (run_task call t s)"
  using conn_coreD(6)[OF conn_invD, of P s] length_error CancelInactive_inv[of P s]
  by (cases t) (auto simp: run_task_def Established_ok SendInLoop_ok Shutdown_ok EnableInactive_ok
      UpgradeInLoop_def conn_inv_def conn_core_def conn_le_def)

lemma api_ok: "conn_inv P s \<Longrightarrow> task_wf t \<Longrightarrow> t \<noteq> Release_task \<Longrightarrow> t = Established_task \<longrightarrow> statu s = CONNECTING
    \<Longrightarrow> step_ok P E s (RunInLoop (run_task call) in_loop t s)"
  by (simp add: RunInLoop_def task_ok QueueInLoop_inv)

lemma Conn_Send_ok:
  assumes "conn_inv P s" and d: "length data \<le> max_size"
  shows "step_ok P E s (Conn_Send call in_loop data s)"
  using WriteAndPush_total[OF buf_wf_new d] length_error api_ok[OF assms(1)]
  by (auto simp: Conn_Send_def)

lemma Upgrade_ok:
  "conn_inv P s \<Longrightarrow> P (x, conn, msg, ev) \<Longrightarrow> msg \<noteq> None \<Longrightarrow> step_ok P E s (Upgrade call True x conn msg closed ev s)"
  using conn_coreD(6)[OF conn_invD, of P s]
  by (auto simp: Upgrade_def RunInLoop_def run_task_def UpgradeInLoop_def conn_inv_def conn_core_def conn_le_def)

lemma Shutdown_api_ok: "conn_inv P s \<Longrightarrow> step_ok P E s (Shutdown call in_loop s)"
  by (simp add: Shutdown_def api_ok)

end

end
