(* ===== verification/ConnectionRuns.thy ===== *)
theory ConnectionRuns
  imports ConnectionModel
begin

text \<open>
  Runs of a connection in its loop: ready events, queued closures and timer expirations in any
  order, with callbacks that keep the contract of conn_client.  The properties of Connection are
  here: what passes through it, how it shuts down, is released and times out.
\<close>

section \<open>Runs\<close>

datatype ('k, 'x) conn_op = Ready_events recv_answer send_answer u32 | Run_closure "('k, 'x) conn_task" | Timer_fires u64

fun conn_step :: "('k \<Rightarrow> ('k, 'x) connection \<Rightarrow> ('k, 'x) conn_result) \<Rightarrow> ('k, 'x) conn_op
    \<Rightarrow> ('k, 'x) connection \<Rightarrow> ('k, 'x) conn_result" where
  "conn_step call (Ready_events rcv ans ev) s = conn_events call rcv ans ev s"
| "conn_step call (Run_closure t) s = run_task call t s"
| "conn_step call (Timer_fires n) s = conn_OnTime n s"

fun conn_run :: "('k \<Rightarrow> ('k, 'x) connection \<Rightarrow> ('k, 'x) conn_result) \<Rightarrow> ('k, 'x) conn_op list
    \<Rightarrow> ('k, 'x) connection \<Rightarrow> ('k, 'x) conn_result" where
  "conn_run call [] s = Inr s"
| "conn_run call (op # ops) s = and_then (conn_step call op s) (conn_run call ops)"

text \<open>
  The steps between the establishment of a connection and its release: the kernel keeps its
  promises, the closures are the ones the public operations make.
\<close>

fun op_fine :: "('k, 'x) conn_op \<Rightarrow> bool" where
  "op_fine (Ready_events rcv ans ev) \<longleftrightarrow> recv_ok rcv \<and> send_ok ans"
| "op_fine (Run_closure t) \<longleftrightarrow> task_wf t \<and> t \<noteq> Release_task \<and> t \<noteq> Established_task"
| "op_fine (Timer_fires n) \<longleftrightarrow> True"

lemma fold_Release:
  "fold (\<lambda>i s. if i = conn_id s then Release s else s) fired s
     = s\<lparr>el_tasks := el_tasks s @ replicate (count_list fired (conn_id s)) Release_task,
         wakes := wakes s + count_list fired (conn_id s)\<rparr>"
  by (induction fired arbitrary: s) (auto simp: Release_def QueueInLoop_def)

lemma OnTime_ok: "conn_inv P s \<Longrightarrow> step_ok P E s (conn_OnTime n s)"
  using OnTime_wf[OF conn_coreD(3)[OF conn_invD], of P s n]
  by (auto simp: conn_OnTime_def fold_Release) (auto simp: conn_inv_def conn_core_def conn_le_def)

context conn_client
begin

lemma conn_step_ok: "conn_inv P s \<Longrightarrow> op_fine op \<Longrightarrow> step_ok P E s (conn_step call op s)"
  by (cases op) (auto simp: events_ok task_ok OnTime_ok)

lemma conn_run_ok: "conn_inv P s \<Longrightarrow> list_all op_fine ops \<Longrightarrow> step_ok P E s (conn_run call ops s)"
  by (induction ops arbitrary: s) (auto intro!: step_ok_then conn_step_ok)

end

text \<open>What a channel asks for is what the kernel watches.\<close>

lemma armed_in_kernel:
  assumes s: "conn_core s" and w: "ch_events (conn_channel s) \<noteq> 0"
  shows "\<exists>m. interest (ctl_calls (loop_poller s)) (\<lambda>_. None) = Some m \<and> m (conn_fd s) = Some (ch_events (conn_channel s))"
proof -
  from conn_coreD(9)[OF s] obtain h where h: "h (channel_addr s) = Some (conn_channel s)" "poller_wf (h, loop_poller s)"
    "ch_events (conn_channel s) \<noteq> 0 \<longrightarrow> HasChannel (conn_channel s) (loop_poller s)" "ch_fd (conn_channel s) = conn_fd s"
    by (auto simp: channel_wf_def)
  show ?thesis using wanted_at[OF h(2,1)] h(3,4) w poller_wfD(3)[OF h(2)] by auto
qed

section \<open>A new connection\<close>

lemma channel_wf_new:
  fixes h :: "nat \<Rightarrow> conn_event channel option"
  assumes "poller_wf (h, p)" "h a = None" "\<forall>b c. h b = Some c \<longrightarrow> ch_fd c \<noteq> fd"
  shows "channel_wf a fd (conn_channel (Connection_new p w ts a x i fd)) p"
proof -
  let ?c = "conn_channel (Connection_new p w ts a x i fd)" and ?h = "h(a \<mapsto> conn_channel (Connection_new p w ts a x i fd))"
  have c: "ch_fd ?c = fd" "ch_events ?c = 0" by (simp_all add: Connection_new_def Channel_new_def)
  have old: "b \<noteq> a" if "p_channels p f = Some b" for f b
    using poller_wfD(2)[OF assms(1) that] assms(2) by auto
  have "wanted (?h, p) = wanted (h, p)"
  proof
    fix f show "wanted (?h, p) f = wanted (h, p) f" using old[of f] by (auto simp: wanted_def split: option.splits)
  qed
  then have "interest (ctl_calls p) (\<lambda>_. None) = Some (wanted (?h, p))" using poller_wfD(3)[OF assms(1)] by simp
  moreover have "\<exists>d. ?h b = Some d \<and> ch_fd d = f" if "p_channels p f = Some b" for f b
    using poller_wfD(2)[OF assms(1) that] old[OF that] by simp
  moreover have "b = b'" if "?h b = Some d" "?h b' = Some d'" "ch_fd d = ch_fd d'" for b b' d d'
  proof -
    have new: "x = a \<and> ch_fd e = fd \<or> h x = Some e \<and> ch_fd e \<noteq> fd" if "?h x = Some e" for x e
      using that assms(3) c(1) by (cases "x = a") auto
    from new[OF that(1)] new[OF that(2)] that(3) poller_wfD(1)[OF assms(1)] show ?thesis by metis
  qed
  ultimately have "poller_wf (?h, p)" unfolding poller_wf_def prod.case by blast
  moreover have "?h a = Some ?c" by simp
  ultimately have "\<exists>h. h a = Some ?c \<and> poller_wf (h, p)" by blast
  with c show ?thesis by (simp add: channel_wf_def Connection_new_def)
qed

lemma Connection_new_inv:
  fixes h :: "nat \<Rightarrow> conn_event channel option"
  assumes "poller_wf (h, p)" "h a = None" "\<forall>b c. h b = Some c \<longrightarrow> ch_fd c \<noteq> fd"
    and "wheel_wf w" "\<forall>t \<in> set ts. task_wf t" and "P (x, None, Some m, None)"
  shows "conn_inv P ((Connection_new p w ts a x i fd)\<lparr>message_cb := Some m\<rparr>)"
  using channel_wf_new[OF assms(1-3), of w ts x i] assms(4-6)
  by (simp add: conn_inv_def conn_core_def Connection_new_def Socket_new_def)

text \<open>A connection on descriptor 5 in a fresh loop, and a client that answers every event with ''hi''.\<close>

definition example_conn :: "(unit, unit) connection" where
  "example_conn = (Connection_new Poller_new TimerWheel_new [] 0 () 1 5)\<lparr>message_cb := Some ()\<rparr>"

definition example_call :: "unit \<Rightarrow> (unit, unit) connection \<Rightarrow> (unit, unit) conn_result" where
  "example_call k s = Conn_Send (\<lambda>_. Inr) True ''hi'' s"

lemma poller_wf_new: "poller_wf (\<lambda>_. None, Poller_new)"
  by (simp add: poller_wf_def Poller_new_def wanted_def)

lemma example_conn_inv: "conn_inv (\<lambda>_. True) example_conn"
  unfolding example_conn_def by (rule Connection_new_inv[OF poller_wf_new]) (simp_all add: wheel_wf_new)

lemma idle_client: "conn_client (\<lambda>_. Inr) P {LengthError}"
  by unfold_locales simp_all

lemma example_client: "conn_inv P s \<Longrightarrow> step_ok P {LengthError} s (example_call k s)"
  unfolding example_call_def by (rule conn_client.Conn_Send_ok[OF idle_client]) (simp_all add: max_size_def)

lemma SendInLoop_sends:
  assumes s: "conn_inv P s" and buf: "buf_wf buf" and room: "has_room (out_buffer s) (length (content buf))"
  shows "\<exists>t. SendInLoop buf s = Inr t \<and> conn_inv P t \<and> conn_le s t \<and> sent t = sent s
     \<and> submitted t = submitted s @ content buf \<and> content (out_buffer t) = content (out_buffer s) @ content buf"
proof -
  note core = conn_invD[OF s]
  from WriteBufferAndPush_ok[OF conn_coreD(2)[OF core] buf room] obtain b where
    b: "WriteBufferAndPush buf (out_buffer s) = Inr b" "content b = content (out_buffer s) @ content buf" by blast
  from SendInLoop_ok[OF s buf, of "{LengthError}"] b conn_coreD(5)[OF core] show ?thesis
    by (simp add: SendInLoop_def Let_def on_channel_set_events split: if_splits)
qed

lemma example_send:
  "\<exists>b t. content b = ''hi'' \<and> buf_wf b \<and> SendInLoop b example_conn = Inr t \<and> content (out_buffer t) = ''hi'' \<and> conn_fd t = 5"
proof -
  have room: "has_room Buffer_new (length ''hi'')" by (simp add: has_room_def Buffer_new_def max_size_def)
  from WriteAndPush_ok[OF buf_wf_new room] obtain b where b: "buf_wf b" "content b = ''hi''" by auto
  have "has_room (out_buffer example_conn) (length (content b))"
    using room by (simp add: b example_conn_def Connection_new_def)
  from SendInLoop_sends[OF example_conn_inv b(1) this] b show ?thesis
    by (auto simp: conn_le_def example_conn_def Connection_new_def)
qed

section \<open>Draining, release and time-outs\<close>

text \<open>A sequence of writable events, with the kernel's answers to the sends.\<close>

fun write_run :: "('k \<Rightarrow> ('k, 'x) connection \<Rightarrow> ('k, 'x) conn_result) \<Rightarrow> send_answer list
    \<Rightarrow> ('k, 'x) connection \<Rightarrow> ('k, 'x) conn_result" where
  "write_run call [] s = Inr s"
| "write_run call (ans # as) s = and_then (HandleWrite call ans s) (write_run call as)"

text \<open>A kernel that takes at least one byte each time.\<close>

definition makes_progress :: "send_answer \<Rightarrow> bool" where
  "makes_progress ans \<longleftrightarrow> (\<forall>n>0. 0 < fst (ans n))"

definition one_byte :: send_answer where
  "one_byte n = (if n = 0 then 0 else 1, EAGAIN)"

lemma progress_result:
  "makes_progress ans \<Longrightarrow> content (out_buffer s) \<noteq> [] \<Longrightarrow> 0 < send_result ans s"
  by (auto simp: makes_progress_def send_result_def Let_def NonBlockSend_def Send_def
      dest!: spec[of _ "length (content (out_buffer s))"])

lemma write_run_drains:
  assumes "conn_inv P s" "statu s = DISCONNECTING" "content (out_buffer s) \<noteq> []"
    and "list_all (\<lambda>a. send_ok a \<and> makes_progress a) as" "length (content (out_buffer s)) \<le> length as"
  shows "\<exists>k t. k \<le> length as \<and> write_run call (take k as) s = Inr t
     \<and> sent t = submitted s \<and> content (out_buffer t) = [] \<and> el_tasks t = el_tasks s @ [Release_task]
     \<and> (\<forall>j<k. \<exists>u. write_run call (take j as) s = Inr u \<and> el_tasks u = el_tasks s \<and> content (out_buffer u) \<noteq> [])"
  using assms
proof (induction as arbitrary: s)
  case (Cons ans as)
  note s = Cons.prems(1)
  from Cons.prems(4) have ans: "send_ok ans" "makes_progress ans" by simp_all
  have n: "0 < send_result ans s" by (rule progress_result[OF ans(2) Cons.prems(3)])
  then have "0 \<le> send_result ans s" by simp
  from HandleWrite_sends[OF s ans(1) this] obtain u where u: "HandleWrite call ans s = Inr u" "conn_inv P u"
    "sent u = sent s @ take (nat (send_result ans s)) (content (out_buffer s))"
    "content (out_buffer u) = drop (nat (send_result ans s)) (content (out_buffer s))"
    "submitted u = submitted s" "statu u = statu s"
    "el_tasks u = el_tasks s @ (if content (out_buffer u) = [] \<and> statu s = DISCONNECTING then [Release_task] else [])"
    by metis
  show ?case
  proof (cases "content (out_buffer u) = []")
    case True
    have "sent u = submitted s" using conn_coreD(7)[OF conn_invD[OF u(2)]] True u(5) by simp
    with True u Cons.prems(2,3) show ?thesis by (intro exI[of _ 1] exI[of _ u]) auto
  next
    case False
    have "length (content (out_buffer u)) < length (content (out_buffer s))"
      using n Cons.prems(3) by (simp add: u(4))
    with Cons.prems(5) have "length (content (out_buffer u)) \<le> length as" by simp
    with Cons.IH[OF u(2) _ False] Cons.prems(2,4) u(6) obtain k t where k: "k \<le> length as" "write_run call (take k as) u = Inr t"
      "sent t = submitted u" "content (out_buffer t) = []" "el_tasks t = el_tasks u @ [Release_task]"
      "\<forall>j<k. \<exists>v. write_run call (take j as) u = Inr v \<and> el_tasks v = el_tasks u \<and> content (out_buffer v) \<noteq> []" by auto
    have "\<exists>v. write_run call (take j (ans # as)) s = Inr v \<and> el_tasks v = el_tasks s \<and> content (out_buffer v) \<noteq> []"
      if "j < Suc k" for j
      using that k(6) u(1,7) False Cons.prems(3) by (cases j) auto
    with k(1-5) u(1,5,7) False show ?thesis by (intro exI[of _ "Suc k"] exI[of _ t]) simp
  qed
qed simp

text \<open>What ReleaseInLoop has done when it calls the closed callbacks.\<close>

definition released :: "('k, 'x) connection \<Rightarrow> ('k, 'x) connection" where
  "released s =
     (let w = (if HasTimer (conn_id s) (loop_wheel s) then TimerCancelInLoop (conn_id s) (loop_wheel s) else loop_wheel s) in
      s\<lparr>statu := DISCONNECTED, loop_poller := Remove (conn_channel s) (loop_poller s),
        conn_socket := Socket_new (-1), closes := [Sys_close (conn_fd s)],
        inactive_release := (inactive_release s \<and> \<not> HasTimer (conn_id s) (loop_wheel s)), loop_wheel := w\<rparr>)"

lemma ReleaseInLoop_released:
  assumes s: "conn_core s" and fd: "conn_fd s \<noteq> -1"
  shows "ReleaseInLoop call s = and_then (call_if call (closed_cb s) (released s)) (\<lambda>s. call_if call (server_closed_cb s) s)"
proof -
  have "sockfd (conn_socket s) = conn_fd s" "closes s = []" using s by (simp_all add: conn_core_def)
  then have "conn_socket s = Socket_new (conn_fd s)" by (cases "conn_socket s") (simp add: Socket_new_def)
  with fd show ?thesis
    using s by (simp add: ReleaseInLoop_def released_def on_channel_def Close_def CancelInactiveReleaseInLoop_def
        Let_def Socket_new_def conn_core_def)
qed

lemma released_kernel:
  assumes s: "conn_core s" and reg: "HasChannel (conn_channel s) (loop_poller s)"
  shows "\<exists>m. interest (ctl_calls (loop_poller (released s))) (\<lambda>_. None) = Some m \<and> m (conn_fd s) = None"
proof -
  from conn_coreD(9)[OF s] obtain h where h: "h (channel_addr s) = Some (conn_channel s)" "poller_wf (h, loop_poller s)"
    "ch_fd (conn_channel s) = conn_fd s" by (auto simp: channel_wf_def)
  note rm = remove_step(1)[OF h(2,1) reg]
  have "\<not> HasChannel (conn_channel s) (Remove (conn_channel s) (loop_poller s))"
    by (simp add: HasChannel_def Remove_def RemoveEvent_def Poller_Update_def)
  with wanted_at[OF rm h(1)] poller_wfD(3)[OF rm] h(3) show ?thesis by (simp add: released_def Let_def)
qed

text \<open>Ticks of the timer, one expiration each.\<close>

fun conn_ticks :: "nat \<Rightarrow> ('k, 'x) connection \<Rightarrow> ('k, 'x) conn_result" where
  "conn_ticks 0 s = Inr s"
| "conn_ticks (Suc n) s = and_then (conn_OnTime 1 s) (conn_ticks n)"

text \<open>
  The connection's timer is pending with \<open>r\<close> of \<open>d\<close> ticks left, not cancelled, and no other timer
  releases this connection.
\<close>

definition waits :: "nat \<Rightarrow> nat \<Rightarrow> ('k, 'x) connection \<Rightarrow> bool" where
  "waits r d s \<longleftrightarrow> wheel_wf (loop_wheel s)
   \<and> wheel_abs (loop_wheel s) (conn_id s) = Some \<lparr>remaining = r, period = d, canceled = False, action = conn_id s\<rparr>
   \<and> (\<forall>j t. wheel_abs (loop_wheel s) j = Some t \<longrightarrow> action t = conn_id s \<longrightarrow> j = conn_id s)"

lemma OnTime_1: "OnTime 1 w = and_then (RunTimerTask w) (\<lambda>(w, f). Inr (w, f))"
proof -
  have "nat (sint (ucast (1 :: u64) :: u32)) = Suc 0" by simp
  then show ?thesis by (cases "RunTimerTask w") (auto simp: OnTime_def)
qed

lemma tick_waits:
  assumes w: "waits r d s" and r: "0 < r"
  shows "\<exists>t. conn_OnTime 1 s = Inr t \<and> el_tasks t = el_tasks s @ (if r = 1 then [Release_task] else [])
     \<and> (1 < r \<longrightarrow> waits (r - 1) d t) \<and> inactive_release t = inactive_release s \<and> any_event_cb t = any_event_cb s"
proof -
  let ?i = "conn_id s" and ?m = "wheel_abs (loop_wheel s)"
  from w have wf: "wheel_wf (loop_wheel s)" and own: "\<And>j t. ?m j = Some t \<Longrightarrow> action t = ?i \<Longrightarrow> j = ?i"
    and at: "?m ?i = Some \<lparr>remaining = r, period = d, canceled = False, action = ?i\<rparr>" by (auto simp: waits_def)
  from RunTimerTask_simulates[OF wf] obtain w' fs where run: "RunTimerTask (loop_wheel s) = Inr (w', fs)" "wheel_wf w'"
    "wheel_abs w' = timers_tick ?m" "runs_due ?m fs" by blast
  from run(4) obtain ids where ids: "distinct ids" "set ids = timers_due ?m" "fs = map (\<lambda>i. action (the (?m i))) ids"
    by (auto simp: runs_due_def)
  have "action (the (?m j)) = ?i \<longleftrightarrow> j = ?i" if "j \<in> set ids" for j
    using that ids(2) own[of j] at by (auto simp: timers_due_def)
  then have "count_list fs ?i = count_list ids ?i"
    unfolding ids(3) by (induction ids) auto
  also have "\<dots> = (if ?i \<in> timers_due ?m then 1 else 0)"
    using ids(1) unfolding ids(2)[symmetric] by (induction ids) (auto simp: count_list_0_iff)
  also have "?i \<in> timers_due ?m \<longleftrightarrow> r = 1" using at r by (auto simp: timers_due_def)
  finally have n: "count_list fs ?i = (if r = 1 then 1 else 0)" .
  have "waits (r - 1) d t" if "1 < r" "conn_id t = ?i" "loop_wheel t = w'" for t :: "('k, 'x) connection"
    using that run(2,3) at own by (auto simp: waits_def timers_tick_def split: option.splits if_splits)
  from this[of "s\<lparr>loop_wheel := w'\<rparr>"] show ?thesis
    by (simp add: conn_OnTime_def OnTime_1 run(1) fold_Release n)
qed

lemma ticks_wait:
  "waits r d s \<Longrightarrow> n < r \<Longrightarrow> \<exists>t. conn_ticks n s = Inr t \<and> el_tasks t = el_tasks s \<and> waits (r - n) d t
     \<and> inactive_release t = inactive_release s \<and> any_event_cb t = any_event_cb s"
proof (induction n arbitrary: r s)
  case (Suc n)
  then have r: "0 < r" "1 < r" "r \<noteq> 1" by linarith+
  from tick_waits[OF Suc.prems(1) r(1)] r obtain u where u: "conn_OnTime 1 s = Inr u" "el_tasks u = el_tasks s"
    "waits (r - 1) d u" "inactive_release u = inactive_release s" "any_event_cb u = any_event_cb s" by auto
  have "n < r - 1" using Suc.prems(2) by linarith
  from Suc.IH[OF u(3) this] u show ?case by simp
qed simp

lemma activity_waits:
  assumes w: "waits r d s" and on: "inactive_release s" "any_event_cb s = None"
  shows "\<exists>t. HandleAnyEvent call s = Inr t \<and> el_tasks t = el_tasks s \<and> waits d d t
     \<and> inactive_release t = inactive_release s \<and> any_event_cb t = any_event_cb s"
proof -
  from w have wf: "wheel_wf (loop_wheel s)" by (simp add: waits_def)
  from TimerRefresh_simulates[OF wf, of "conn_id s"] obtain w' where w': "TimerRefreshInLoop (conn_id s) (loop_wheel s) = Inr w'"
    "wheel_wf w'" "wheel_abs w' = timers_refresh (conn_id s) (wheel_abs (loop_wheel s))" by blast
  then have "waits d d (s\<lparr>loop_wheel := w'\<rparr>)"
    using w by (auto simp: waits_def timers_refresh_def)
  then show ?thesis using w'(1) on by (simp add: HandleAnyEvent_def TimerRefresh_def call_if_def)
qed

lemma enable_waits:
  assumes wf: "wheel_wf (loop_wheel s)" and new: "\<not> HasTimer (conn_id s) (loop_wheel s)"
    and own: "action_unused (conn_id s) (loop_wheel s)" and sec: "0 \<le> sec" "sec + 60 \<le> 2 ^ 31" and k: "k = eff_delay (nat sec)"
  shows "\<exists>t. EnableInactiveReleaseInLoop sec s = Inr t \<and> el_tasks t = el_tasks s \<and> waits k k t
     \<and> inactive_release t \<and> any_event_cb t = any_event_cb s"
proof -
  have n: "unat (of_int sec :: u32) = nat sec"
    using sec by (simp add: unat_eq_nat_uint uint_word_of_int_eq take_bit_int_eq_self)
  then have "unat (of_int sec :: u32) + 60 \<le> 2 ^ 31" using sec by (simp add: nat_le_iff)
  from TimerAdd_simulates[OF wf new this, of "conn_id s"] obtain w where w:
    "TimerAddInLoop (conn_id s) (of_int sec) (conn_id s) (loop_wheel s) = Inr w" "wheel_wf w"
    "wheel_abs w = timers_add (conn_id s) (nat sec) (conn_id s) (wheel_abs (loop_wheel s))" by (auto simp: n)
  have "waits k k (s\<lparr>inactive_release := True, loop_wheel := w\<rparr>)"
    using w(2,3) action_unused_abs[OF wf own] by (auto simp: waits_def timers_add_def k split: if_splits)
  then show ?thesis using w(1) new by (simp add: EnableInactiveReleaseInLoop_def Let_def)
qed

text \<open>Bytes that arrive are handed to the message callback, behind those it has not read yet.\<close>

lemma HandleRead_delivers:
  assumes t: "conn_core t" and r: "0 < r" and rcv: "recv_ok (r, err, data)"
  shows "HandleRead call (r, err, data) t = Inl LengthError
     \<or> (\<exists>b k. content b = content (in_buffer t) @ data \<and> message_cb t = Some k
          \<and> HandleRead call (r, err, data) t = call k (t\<lparr>in_buffer := b, received_bytes := received_bytes t @ data\<rparr>))"
proof -
  have n: "NonBlockRecv r err = r" "take (nat r) data = data" "data \<noteq> []" "length data \<le> max_size"
    using r rcv by (auto simp: NonBlockRecv_def Recv_def recv_ok_def max_size_def)
  obtain k where k: "message_cb t = Some k" using conn_coreD(4)[OF t] by blast
  from WriteAndPush_total[OF conn_coreD(1)[OF t] n(4)] show ?thesis
  proof (elim disjE exE conjE)
    fix b assume b: "WriteAndPush data (in_buffer t) = Inr b" "buf_wf b" "content b = content (in_buffer t) @ data"
    then have "ReadAbleSize b > 0" using pending_iff[OF b(2)] n(3) by simp
    with b r k show ?thesis by (auto simp: HandleRead_def n Let_def call_set_def)
  qed (use r in \<open>simp add: HandleRead_def n Let_def\<close>)
qed

section \<open>Properties\<close>

text \<open>
  C5. Up to its release a connection neither loses, repeats nor reorders bytes: over any run of ready
  events, timers and queued closures other than an establishment or a release, with callbacks that
  keep the invariant, the bytes handed to SendInLoop are at every point the bytes the kernel took
  followed by the output buffer; the unread input is a suffix of what was received; whenever recv then
  delivers bytes, the message callback is called with them behind the unread ones; all three histories
  only grow and the status only moves forward.  A run that stops does so by std::length_error or a fault
  of a callback.
\<close>

theorem connection_conserves_bytes:
  assumes "LengthError \<in> E" and "\<forall>k s. conn_inv P s \<and> is_callback (Some k) s \<longrightarrow> step_ok P E s (call k s)"
    and "conn_inv P s" and "list_all op_fine ops"
  shows "case conn_run call ops s of Inl e \<Rightarrow> e \<in> E
     | Inr t \<Rightarrow> submitted t = sent t @ content (out_buffer t)
         \<and> suffix (content (in_buffer t)) (received_bytes t)
         \<and> prefix (received_bytes s) (received_bytes t) \<and> prefix (submitted s) (submitted t)
         \<and> prefix (sent s) (sent t)
         \<and> statu s \<le> statu t \<and> statu t \<noteq> DISCONNECTED
         \<and> (\<forall>r err data. 0 < r \<and> recv_ok (r, err, data) \<longrightarrow> HandleRead call (r, err, data) t = Inl LengthError
              \<or> (\<exists>b k. content b = content (in_buffer t) @ data \<and> message_cb t = Some k
                   \<and> HandleRead call (r, err, data) t = call k (t\<lparr>in_buffer := b, received_bytes := received_bytes t @ data\<rparr>)))"
proof -
  have "conn_client call P E" by unfold_locales (use assms(1,2) in auto)
  note ok = conn_client.conn_run_ok[OF this assms(3,4)]
  show ?thesis
  proof (cases "conn_run call ops s")
    case (Inr t)
    with ok have t: "conn_core t" "conn_le s t" by (simp_all add: conn_inv_def)
    then have "submitted t = sent t @ content (out_buffer t)" "suffix (content (in_buffer t)) (received_bytes t)"
      "prefix (received_bytes s) (received_bytes t)" "prefix (submitted s) (submitted t)" "prefix (sent s) (sent t)"
      "statu s \<le> statu t" "statu t \<noteq> DISCONNECTED" by (simp_all add: conn_core_def conn_le_def)
    with HandleRead_delivers[OF t(1), of _ _ _ call] Inr show ?thesis by auto
  qed (use ok in simp)
qed

theorem connection_conserves_bytes_witness:
  "case conn_run example_call [Ready_events (2, EAGAIN, ''ab'') (\<lambda>n. (int n, EAGAIN)) (EPOLLIN OR EPOLLOUT), Timer_fires 1]
      example_conn of Inl e \<Rightarrow> e \<in> {LengthError}
    | Inr t \<Rightarrow> submitted t = sent t @ content (out_buffer t)
        \<and> suffix (content (in_buffer t)) (received_bytes t)
        \<and> prefix (received_bytes example_conn) (received_bytes t)
        \<and> prefix (submitted example_conn) (submitted t) \<and> prefix (sent example_conn) (sent t)
        \<and> statu example_conn \<le> statu t \<and> statu t \<noteq> DISCONNECTED"
  using connection_conserves_bytes[where P = "\<lambda>_. True" and E = "{LengthError}" and call = example_call and s = example_conn
      and ops = "[Ready_events (2, EAGAIN, ''ab'') (\<lambda>n. (int n, EAGAIN)) (EPOLLIN OR EPOLLOUT), Timer_fires 1]"]
  by (auto simp add: example_client example_conn_inv recv_ok_def send_ok_def simp del: conn_run.simps split: sum.splits)

text \<open>
  C6. Pending output is always watched: after any such run with bytes left in the output buffer, the
  kernel, which has refused none of the epoll_ctl calls, reports writability of the connection's
  descriptor, so the bytes will be tried again; and it still reports input if it did before the run.
\<close>

theorem pending_output_is_watched:
  assumes "LengthError \<in> E" and "\<forall>k s. conn_inv P s \<and> is_callback (Some k) s \<longrightarrow> step_ok P E s (call k s)"
    and "conn_inv P s" and "list_all op_fine ops"
    and "conn_run call ops s = Inr t" and "content (out_buffer t) \<noteq> []"
  shows "\<exists>m ev. interest (ctl_calls (loop_poller t)) (\<lambda>_. None) = Some m
     \<and> m (conn_fd t) = Some ev \<and> ev AND EPOLLOUT \<noteq> 0 \<and> (ReadAble (conn_channel s) \<longrightarrow> ev AND EPOLLIN \<noteq> 0)"
proof -
  have "conn_client call P E" by unfold_locales (use assms(1,2) in auto)
  from conn_client.conn_run_ok[OF this assms(3,4)] have t: "conn_inv P t" "conn_le s t" by (simp_all add: assms(5))
  then have "ch_events (conn_channel t) AND EPOLLOUT \<noteq> 0"
    "ReadAble (conn_channel s) \<longrightarrow> ch_events (conn_channel t) AND EPOLLIN \<noteq> 0"
    using assms(6) by (simp_all add: conn_inv_def conn_le_def WriteAble_def ReadAble_def)
  moreover from this have "ch_events (conn_channel t) \<noteq> 0" by auto
  ultimately show ?thesis using armed_in_kernel[OF conn_invD[OF t(1)]] by blast
qed

theorem pending_output_is_watched_witness:
  "\<exists>b t m ev. content b = ''hi'' \<and> conn_run example_call [Run_closure (Send_task b)] example_conn = Inr t
     \<and> interest (ctl_calls (loop_poller t)) (\<lambda>_. None) = Some m \<and> m 5 = Some ev \<and> ev AND EPOLLOUT \<noteq> 0"
proof -
  from example_send obtain b t where b: "content b = ''hi''" "buf_wf b" "SendInLoop b example_conn = Inr t"
    "content (out_buffer t) = ''hi''" "conn_fd t = 5" by blast
  have run: "conn_run example_call [Run_closure (Send_task b)] example_conn = Inr t"
    using b(3) conn_coreD(6)[OF conn_invD[OF example_conn_inv]] by (simp add: run_task_def)
  have "\<exists>m ev. interest (ctl_calls (loop_poller t)) (\<lambda>_. None) = Some m
     \<and> m (conn_fd t) = Some ev \<and> ev AND EPOLLOUT \<noteq> 0 \<and> (ReadAble (conn_channel example_conn) \<longrightarrow> ev AND EPOLLIN \<noteq> 0)"
    by (rule pending_output_is_watched[where P = "\<lambda>_. True" and E = "{LengthError}" and call = example_call and s = example_conn and ops = "[Run_closure (Send_task b)]"])
       (simp_all add: example_client example_conn_inv b run[simplified])
  with b run show ?thesis by auto
qed

text \<open>
  C7. A shut-down connection drains before it goes: in the state DISCONNECTING with output pending,
  if the kernel takes at least one byte per writable event, then after at most as many events as
  there are bytes every submitted byte has been sent, and exactly then, not before, one release is
  queued.
\<close>

theorem shutdown_drains:
  assumes "conn_inv P s" and "statu s = DISCONNECTING" and "content (out_buffer s) \<noteq> []"
    and "list_all (\<lambda>a. send_ok a \<and> makes_progress a) as" and "length (content (out_buffer s)) \<le> length as"
  shows "\<exists>k t. k \<le> length as \<and> write_run call (take k as) s = Inr t
     \<and> sent t = submitted s \<and> el_tasks t = el_tasks s @ [Release_task]
     \<and> (\<forall>j<k. \<exists>u. write_run call (take j as) s = Inr u \<and> el_tasks u = el_tasks s)"
  using write_run_drains[OF assms, of call] by blast

theorem shutdown_drains_witness:
  "\<exists>s k t. content (out_buffer s) = ''hi'' \<and> k \<le> 2 \<and> write_run example_call (take k [one_byte, one_byte]) s = Inr t
     \<and> sent t = submitted s \<and> el_tasks t = el_tasks s @ [Release_task]"
proof -
  from example_send obtain b t where b: "buf_wf b" "SendInLoop b example_conn = Inr t"
    "content (out_buffer t) = ''hi''" by blast
  let ?s = "t\<lparr>statu := DISCONNECTING\<rparr>"
  have "conn_inv (\<lambda>_. True) t" using SendInLoop_ok[OF example_conn_inv b(1), of "{LengthError}"] by (simp add: b(2))
  then have s: "conn_inv (\<lambda>_. True) ?s" "statu ?s = DISCONNECTING" "content (out_buffer ?s) = ''hi''"
    by (simp_all add: conn_inv_def conn_core_def b(3))
  have a: "list_all (\<lambda>a. send_ok a \<and> makes_progress a) [one_byte, one_byte]"
    by (simp add: send_ok_def makes_progress_def one_byte_def)
  have "\<exists>k u. k \<le> length [one_byte, one_byte] \<and> write_run example_call (take k [one_byte, one_byte]) ?s = Inr u
     \<and> sent u = submitted ?s \<and> el_tasks u = el_tasks ?s @ [Release_task]
     \<and> (\<forall>j<k. \<exists>v. write_run example_call (take j [one_byte, one_byte]) ?s = Inr v \<and> el_tasks v = el_tasks ?s)"
    by (rule shutdown_drains[OF s(1,2) _ a]) (simp_all add: s(3)[simplified])
  then obtain k u where "k \<le> 2" "write_run example_call (take k [one_byte, one_byte]) ?s = Inr u"
    "sent u = submitted ?s" "el_tasks u = el_tasks ?s @ [Release_task]" by (auto simp: numeral_2_eq_2)
  with s(3) show ?thesis by blast
qed

lemma release_does:
  assumes "conn_inv P s" and "HasChannel (conn_channel s) (loop_poller s)" and "conn_fd s \<noteq> -1"
  shows "\<exists>r m. ReleaseInLoop call s = and_then (call_if call (closed_cb s) r) (\<lambda>t. call_if call (server_closed_cb t) t)
     \<and> statu r = DISCONNECTED \<and> closes r = [Sys_close (conn_fd s)] \<and> sockfd (conn_socket r) = -1
     \<and> interest (ctl_calls (loop_poller r)) (\<lambda>_. None) = Some m \<and> m (conn_fd s) = None
     \<and> wheel_abs (loop_wheel r) = timers_cancel (conn_id s) (wheel_abs (loop_wheel s))
     \<and> content (out_buffer r) = content (out_buffer s) \<and> sent r = sent s"
proof -
  note core = conn_invD[OF assms(1)]
  from released_kernel[OF core assms(2)] obtain m where m:
    "interest (ctl_calls (loop_poller (released s))) (\<lambda>_. None) = Some m" "m (conn_fd s) = None" by blast
  have "wheel_abs (loop_wheel (released s)) = timers_cancel (conn_id s) (wheel_abs (loop_wheel s))"
    using TimerCancel_simulates[OF conn_coreD(3)[OF core], of "conn_id s"] HasTimer_abs[OF conn_coreD(3)[OF core], of "conn_id s"]
    by (auto simp: released_def Let_def timers_cancel_def fun_upd_idem)
  then show ?thesis
    using m ReleaseInLoop_released[OF core assms(3), of call]
    by (intro exI[of _ "released s"] exI[of _ m]) (simp add: released_def Let_def Socket_new_def)
qed

text \<open>
  What a release does: the status becomes DISCONNECTED, the descriptor leaves the kernel's
  interest list by a call the kernel accepts and is then closed, once; the connection's timer is
  cancelled; the buffers stay.  Only then the user's closed callback runs and after it the server's.
\<close>

theorem release_in_loop_correct:
  assumes "conn_inv P s" and "HasChannel (conn_channel s) (loop_poller s)" and "conn_fd s \<noteq> -1"
  shows "\<exists>r m. ReleaseInLoop call s = and_then (call_if call (closed_cb s) r) (\<lambda>t. call_if call (server_closed_cb t) t)
     \<and> statu r = DISCONNECTED \<and> closes r = [Sys_close (conn_fd s)] \<and> sockfd (conn_socket r) = -1
     \<and> interest (ctl_calls (loop_poller r)) (\<lambda>_. None) = Some m \<and> m (conn_fd s) = None
     \<and> wheel_abs (loop_wheel r) = timers_cancel (conn_id s) (wheel_abs (loop_wheel s))
     \<and> content (out_buffer r) = content (out_buffer s) \<and> sent r = sent s"
  by (rule release_does[OF assms])

theorem release_in_loop_correct_witness:
  "\<exists>s r. conn_fd s = 5 \<and> ReleaseInLoop example_call s = Inr r \<and> statu r = DISCONNECTED \<and> closes r = [Sys_close 5]"
proof -
  from example_send obtain b t where b: "buf_wf b" "SendInLoop b example_conn = Inr t"
    "content (out_buffer t) = ''hi''" "conn_fd t = 5" by blast
  have t: "conn_inv (\<lambda>_. True) t" using SendInLoop_ok[OF example_conn_inv b(1), of "{LengthError}"] by (simp add: b(2))
  let ?s = "t\<lparr>closed_cb := None, server_closed_cb := None\<rparr>"
  have s: "conn_inv (\<lambda>_. True) ?s" using t by (simp add: conn_inv_def conn_core_def)
  have "WriteAble (conn_channel t)" using t b(3) by (simp add: conn_inv_def)
  then have "ch_events (conn_channel t) \<noteq> 0" by (auto simp: WriteAble_def)
  then have "HasChannel (conn_channel ?s) (loop_poller ?s)"
    using conn_coreD(9)[OF conn_invD[OF t]] by (auto simp: channel_wf_def)
  from release_in_loop_correct[OF s this, of example_call] b(4) obtain r where
    r: "ReleaseInLoop example_call ?s = and_then (call_if example_call (closed_cb ?s) r) (\<lambda>t. call_if example_call (server_closed_cb t) t)"
    "statu r = DISCONNECTED" "closes r = [Sys_close 5]" by auto
  have "ReleaseInLoop example_call ?s = and_then (call_if example_call (closed_cb ?s) (released ?s)) (\<lambda>t. call_if example_call (server_closed_cb t) t)"
    by (rule ReleaseInLoop_released[OF conn_invD[OF s]]) (simp add: b(4))
  then have "ReleaseInLoop example_call ?s = Inr (released ?s)"
    by (simp add: call_if_def released_def Let_def)
  moreover have "statu (released ?s) = DISCONNECTED \<and> closes (released ?s) = [Sys_close 5]"
    by (simp add: released_def Let_def b(4))
  ultimately show ?thesis using r b(4) by (intro exI[of _ ?s] exI[of _ "released ?s"]) simp
qed

text \<open>
  C8. An idle connection is released, and only then.  With the inactivity release enabled for sec ticks
  and no any-event callback set, any event within n ticks starts the time again; after the last event
  n - 1 ticks pass without a release, and the next tick queues exactly one.  For sec from 1 to 60 n is
  sec; any other is taken modulo the wheel's 60 slots, and 0 waits a whole turn.
\<close>

theorem idle_connection_released:
  assumes "wheel_wf (loop_wheel s)" and "\<not> HasTimer (conn_id s) (loop_wheel s)"
    and "action_unused (conn_id s) (loop_wheel s)" and "0 \<le> sec" and "sec + 60 \<le> 2 ^ 31"
    and "n = (if 1 \<le> sec \<and> sec \<le> 60 then nat sec else if nat sec mod 60 = 0 then 60 else nat sec mod 60)"
    and "any_event_cb s = None" and "j < n"
  shows "\<exists>s1 s2 s3 s4 s5. EnableInactiveReleaseInLoop sec s = Inr s1 \<and> conn_ticks j s1 = Inr s2
     \<and> HandleAnyEvent call s2 = Inr s3 \<and> conn_ticks (n - 1) s3 = Inr s4 \<and> el_tasks s4 = el_tasks s
     \<and> conn_OnTime 1 s4 = Inr s5 \<and> el_tasks s5 = el_tasks s @ [Release_task]"
proof -
  have k: "n = eff_delay (nat sec)" "1 \<le> n"
    using eff_delay_cases[of "nat sec"] eff_delay_bounds(1)[of "nat sec"] assms(4,6) by (simp_all add: nat_le_iff le_nat_iff)
  from enable_waits[OF assms(1-5) k(1)] obtain s1 where s1: "EnableInactiveReleaseInLoop sec s = Inr s1"
    "el_tasks s1 = el_tasks s" "waits n n s1" "inactive_release s1" "any_event_cb s1 = None"
    using assms(7) by auto
  from ticks_wait[OF s1(3) assms(8)] s1(4,5) obtain s2 where s2: "conn_ticks j s1 = Inr s2" "el_tasks s2 = el_tasks s1"
    "waits (n - j) n s2" "inactive_release s2" "any_event_cb s2 = None" by auto
  from activity_waits[OF s2(3-5)] obtain s3 where s3: "HandleAnyEvent call s2 = Inr s3" "el_tasks s3 = el_tasks s2"
    "waits n n s3" by blast
  have n: "n - 1 < n" "n - (n - 1) = 1" using k(2) by linarith+
  from ticks_wait[OF s3(3) n(1)] n(2) obtain s4 where s4: "conn_ticks (n - 1) s3 = Inr s4" "el_tasks s4 = el_tasks s3"
    "waits 1 n s4" by auto
  from tick_waits[OF s4(3)] obtain s5 where "conn_OnTime 1 s4 = Inr s5" "el_tasks s5 = el_tasks s4 @ [Release_task]" by auto
  then show ?thesis using s1(1,2) s2(1,2) s3(1,2) s4(1,2) by metis
qed

theorem idle_connection_released_witness:
  "\<exists>s1 s2 s3 s4 s5. EnableInactiveReleaseInLoop 3 example_conn = Inr s1 \<and> conn_ticks 2 s1 = Inr s2
     \<and> HandleAnyEvent example_call s2 = Inr s3 \<and> conn_ticks (3 - 1) s3 = Inr s4
     \<and> el_tasks s4 = el_tasks example_conn
     \<and> conn_OnTime 1 s4 = Inr s5 \<and> el_tasks s5 = el_tasks example_conn @ [Release_task]"
  by (rule idle_connection_released)
     (simp_all add: example_conn_def Connection_new_def wheel_wf_new HasTimer_def action_unused_def,
      simp_all add: TimerWheel_new_def)

text \<open>
  A reset of the peer is reported as EPOLLIN with EPOLLERR or EPOLLHUP, and recv fails: HandleRead
  then queues a release, and so does the error or close callback.  The first of the two lets the
  server drop the connection, the second runs on the destroyed object.
\<close>

lemma reset_queues_two_releases:
  assumes "conn_inv P s" and "content (in_buffer s) = []" and "content (out_buffer s) = []"
    and "inactive_release s = False" and "any_event_cb s = None"
  shows "\<exists>t. conn_events call (-1, Other_errno, []) ans (EPOLLIN OR EPOLLERR) s = Inr t
     \<and> el_tasks t = el_tasks s @ [Release_task, Release_task]
     \<and> alive t = alive s \<and> closed_cb t = closed_cb s \<and> server_closed_cb t = server_closed_cb s"
proof -
  note core = conn_invD[OF assms(1)]
  have b: "ReadAbleSize (in_buffer s) = 0" "ReadAbleSize (out_buffer s) = 0"
    using assms(2,3) drained_iff conn_coreD(1,2)[OF core] by auto
  have c: "read_callback (conn_channel s) = Some On_read" "error_callback (conn_channel s) = Some On_error"
    "event_callback (conn_channel s) = Some On_event"
    using conn_coreD(9)[OF core] by (auto simp: channel_wf_def)
  show ?thesis
    by (simp add: conn_events_def HandleEvent_def SetREvents_def c b HandleRead_def NonBlockRecv_def Recv_def ShutdownInLoop_def
        Let_def call_if_def HandleError_def HandleClose_def flush_input_def HandleAnyEvent_def assms(4,5) epoll_bits)
qed

theorem double_release_use_after_free:
  assumes "conn_inv P s" and "content (in_buffer s) = []" and "content (out_buffer s) = []"
    and "inactive_release s = False" and "any_event_cb s = None" and "el_tasks s = []"
    and "closed_cb s = None" and "server_closed_cb s = Some drop_connection"
    and "call = (\<lambda>k s. Inr (s\<lparr>alive := False\<rparr>))"
  shows "\<exists>t. conn_events call (-1, Other_errno, []) ans (EPOLLIN OR EPOLLERR) s = Inr t
     \<and> RunAllTask (run_task call) t = Inl UseAfterFree"
proof -
  from reset_queues_two_releases[OF assms(1-5), of call ans] obtain t where
    t: "conn_events call (-1, Other_errno, []) ans (EPOLLIN OR EPOLLERR) s = Inr t" "el_tasks t = [Release_task, Release_task]"
    "alive t" "closed_cb t = None" "server_closed_cb t = Some drop_connection"
    using assms(6-8) conn_coreD(6)[OF conn_invD[OF assms(1)]] by auto
  have "\<exists>u. ReleaseInLoop call (t\<lparr>el_tasks := []\<rparr>) = Inr u \<and> \<not> alive u"
    using t(4,5) by (simp add: ReleaseInLoop_def Let_def on_channel_def Close_def CancelInactiveReleaseInLoop_def call_if_def
        assms(9) split: prod.split)
  then obtain u where "ReleaseInLoop call (t\<lparr>el_tasks := []\<rparr>) = Inr u" "\<not> alive u" by blast
  then have "RunAllTask (run_task call) t = Inl UseAfterFree"
    using t(3) by (simp add: RunAllTask_def t(2) run_task_def)
  with t(1) show ?thesis by blast
qed

text \<open>
  Enabling the release again after cancelling it finds the cancelled timer and only refreshes it, so
  the connection counts as supervised but its timer does nothing when it is due.
\<close>

theorem cancelled_then_enabled:
  assumes "wheel_wf (loop_wheel s)" and "HasTimer (conn_id s) (loop_wheel s)"
  shows "\<exists>t tm. EnableInactiveReleaseInLoop sec (CancelInactiveReleaseInLoop s) = Inr t \<and> inactive_release t
     \<and> wheel_abs (loop_wheel t) (conn_id s) = Some tm \<and> canceled tm"
proof -
  let ?w = "TimerCancelInLoop (conn_id s) (loop_wheel s)"
  have w: "wheel_wf ?w" "wheel_abs ?w = timers_cancel (conn_id s) (wheel_abs (loop_wheel s))"
    using TimerCancel_simulates[OF assms(1)] by simp_all
  from assms obtain tm where tm: "wheel_abs (loop_wheel s) (conn_id s) = Some tm" by (auto simp: HasTimer_abs)
  then have "HasTimer (conn_id s) ?w" by (simp add: HasTimer_abs[OF w(1)] w(2) timers_cancel_def)
  with TimerRefresh_simulates[OF w(1), of "conn_id s"] assms(2) tm w(2) show ?thesis
    by (auto simp: EnableInactiveReleaseInLoop_def CancelInactiveReleaseInLoop_def TimerRefresh_def Let_def
        timers_refresh_def timers_cancel_def)
qed

text \<open>
  A shutdown that runs after the release revives the status, and with output pending registers the
  channel, whose descriptor is closed, with the poller again.
\<close>

theorem shutdown_after_release:
  assumes "statu s = DISCONNECTED" and "content (in_buffer s) = []" and "buf_wf (in_buffer s)" and "buf_wf (out_buffer s)"
    and "content (out_buffer s) \<noteq> []" and "\<not> WriteAble (conn_channel s)"
  shows "\<exists>t. ShutdownInLoop call s = Inr t \<and> statu t = DISCONNECTING \<and> HasChannel (conn_channel t) (loop_poller t)"
proof -
  have "ReadAbleSize (in_buffer s) = 0" "0 < ReadAbleSize (out_buffer s)" "ReadAbleSize (out_buffer s) \<noteq> 0"
    using assms(2,5) pending_iff[OF assms(4)] drained_iff[OF assms(3)] drained_iff[OF assms(4)] by simp_all
  moreover have "HasChannel ((conn_channel s)\<lparr>ch_events := ev\<rparr>) (loop_poller (set_events ev (s\<lparr>statu := DISCONNECTING\<rparr>)))" for ev
    by (simp add: set_events_def Let_def HasChannel_def UpdateEvent_def Poller_Update_def)
  ultimately show ?thesis using assms(6) by (simp add: ShutdownInLoop_def Let_def on_channel_set_events)
qed

end
