(* ===== verification/ConnectionStreams.thy ===== *)
theory ConnectionStreams
  imports ConnectionRuns
begin

text \<open>
  What a connection's client may additionally claim about the bytes: a relation between its context,
  what it has submitted, what it has not read yet and what has arrived.  The locale extends the contract of
  conn_client by such a relation, which holds between events, and by a weaker one, which holds when
  bytes have just arrived; when the callbacks bring the first back from the second, every run of the
  connection keeps it, since the connection itself only ever appends what it receives.
\<close>

section \<open>Sending and shutting down inside the loop\<close>

lemma Conn_Send_call: "Conn_Send call True data s = Conn_Send call' True data s"
  by (simp add: Conn_Send_def RunInLoop_def run_task_def cong: if_cong)

lemma Conn_Send_does:
  assumes s: "conn_inv P s" and d: "length data \<le> max_size"
  shows "Conn_Send call True data s = Inl LengthError \<or>
    (\<exists>t. Conn_Send call True data s = Inr t \<and> conn_inv P t \<and> conn_le s t \<and> in_buffer t = in_buffer s
       \<and> user_part t = user_part s \<and> submitted t = submitted s @ data \<and> statu t = statu s
       \<and> received_bytes t = received_bytes s \<and> el_tasks t = el_tasks s \<and> content (out_buffer t) = content (out_buffer s) @ data)"
proof -
  from WriteAndPush_total[OF buf_wf_new d] show ?thesis
  proof
    assume "WriteAndPush data Buffer_new = Inl LengthError"
    then show ?thesis by (simp add: Conn_Send_def)
  next
    assume "\<exists>b'. WriteAndPush data Buffer_new = Inr b' \<and> buf_wf b' \<and> content b' = content Buffer_new @ data"
    then obtain b where b: "WriteAndPush data Buffer_new = Inr b" "buf_wf b" "content b = data" by auto
    have run: "Conn_Send call True data s = SendInLoop b s"
      using b(1) conn_coreD(6)[OF conn_invD[OF s]] by (simp add: Conn_Send_def RunInLoop_def run_task_def)
    have out: "content c = content (out_buffer s) @ data" if "WriteBufferAndPush b (out_buffer s) = Inr c" for c
      using WriteBufferAndPush_total[OF conn_coreD(2)[OF conn_invD[OF s]] b(2)] that b(3) by auto
    have same: "in_buffer t = in_buffer s \<and> user_part t = user_part s \<and> submitted t = submitted s @ data \<and> statu t = statu s
       \<and> received_bytes t = received_bytes s \<and> el_tasks t = el_tasks s \<and> content (out_buffer t) = content (out_buffer s) @ data"
      if "SendInLoop b s = Inr t" for t
      using that conn_coreD(5)[OF conn_invD[OF s]] b(3) out
      by (auto simp: SendInLoop_def Let_def and_then_eq_Inr on_channel_set_events split: if_splits)
    show ?thesis
      using SendInLoop_ok[OF s b(2), of "{LengthError}"] same run by (cases "SendInLoop b s") auto
  qed
qed

lemma Conn_Send_room:
  assumes s: "conn_inv P s" and room: "has_room (out_buffer s) (length data + k)"
  shows "\<exists>t. Conn_Send call True data s = Inr t \<and> has_room (out_buffer t) k"
proof -
  have "has_room Buffer_new (length data)" using room by (simp add: has_room_def Buffer_new_def)
  from WriteAndPush_ok[OF buf_wf_new this] obtain buf where buf: "WriteAndPush data Buffer_new = Inr buf" "buf_wf buf" "content buf = data"
    by auto
  note core = conn_invD[OF s]
  have "has_room (out_buffer s) (length (content buf))" using room by (simp add: has_room_def buf(3))
  from WriteBufferAndPush_ok[OF conn_coreD(2)[OF core] buf(2) this] obtain b where
    b: "WriteBufferAndPush buf (out_buffer s) = Inr b" "unat (writer_idx b) \<le> unat (writer_idx (out_buffer s)) + length data"
    by (auto simp: buf(3))
  have "\<exists>t. SendInLoop buf s = Inr t \<and> out_buffer t = b"
    using b(1) conn_coreD(5)[OF core] by (simp add: SendInLoop_def Let_def on_channel_set_events)
  moreover have "Conn_Send call True data s = SendInLoop buf s"
    using buf(1) conn_coreD(6)[OF core] by (simp add: Conn_Send_def RunInLoop_def run_task_def)
  ultimately show ?thesis using b(2) room by (auto simp: has_room_def)
qed

lemma Shutdown_in_loop: "alive s \<Longrightarrow> Shutdown call True s = ShutdownInLoop call s"
  by (simp add: Shutdown_def RunInLoop_def run_task_def)

lemma shutdown_tail_keeps [simp]:
  "in_buffer (shutdown_tail t) = in_buffer t" "user_part (shutdown_tail t) = user_part t" "submitted (shutdown_tail t) = submitted t"
  "received_bytes (shutdown_tail t) = received_bytes t"
  by (simp_all add: shutdown_tail_def Let_def on_channel_set_events)

lemma Shutdown_idle: "conn_inv P s \<Longrightarrow> content (in_buffer s) = [] \<Longrightarrow>
   Shutdown call True s = Inr (shutdown_tail (s\<lparr>statu := DISCONNECTING\<rparr>))"
  using conn_coreD(1,6)[OF conn_invD, of P s] drained_iff[of "in_buffer s"]
  by (simp add: Shutdown_in_loop ShutdownInLoop_tail)

lemma shutdown_tail_statu [simp]: "statu (shutdown_tail t) = statu t"
  by (simp add: shutdown_tail_def Let_def on_channel_set_events)

lemma shutdown_tail_pending: "conn_inv P t \<Longrightarrow> content (out_buffer t) \<noteq> [] \<Longrightarrow>
    el_tasks (shutdown_tail t) = el_tasks t \<and> out_buffer (shutdown_tail t) = out_buffer t"
  using drained_iff[of "out_buffer t"] conn_coreD(2)[OF conn_invD, of P t]
  by (simp add: shutdown_tail_def Let_def on_channel_set_events)

section \<open>The bytes a client sees\<close>

definition stream_of :: "('x \<Rightarrow> string \<Rightarrow> string \<Rightarrow> string \<Rightarrow> bool) \<Rightarrow> ('k, 'x) connection \<Rightarrow> bool" where
  "stream_of I s \<longleftrightarrow> I (conn_context s) (submitted s) (content (in_buffer s)) (received_bytes s)"

text \<open>The part of the state the relation is about, and the steps that leave it alone.\<close>

definition streams :: "('k, 'x) connection \<Rightarrow> string \<times> buffer \<times> string" where
  "streams s = (submitted s, in_buffer s, received_bytes s)"

definition stream_state :: "('k, 'x) connection \<Rightarrow> 'x \<times> string \<times> buffer \<times> string" where
  "stream_state s = (conn_context s, streams s)"

lemma stream_state_streams: "stream_state t = stream_state s \<Longrightarrow> streams t = streams s"
  by (simp add: stream_state_def)

lemma stream_of_cong: "stream_state t = stream_state s \<Longrightarrow> stream_of I t \<longleftrightarrow> stream_of I s"
  by (simp add: stream_state_def streams_def stream_of_def)

lemma stream_state_simps [simp]:
  "stream_state (set_events ev s) = stream_state s" "stream_state (Release s) = stream_state s"
  "stream_state (CancelInactiveReleaseInLoop s) = stream_state s" "stream_state (QueueInLoop t s) = stream_state s"
  "stream_state (shutdown_tail s) = stream_state s" "stream_state (s\<lparr>statu := k\<rparr>) = stream_state s"
  by (auto simp: stream_state_def streams_def set_events_def Release_def QueueInLoop_def CancelInactiveReleaseInLoop_def
      shutdown_tail_def on_channel_set_events Let_def)

lemmas streams_simps [simp] = stream_state_simps[THEN stream_state_streams]

lemma TimerRefresh_streams: "TimerRefresh s = Inr t \<Longrightarrow> stream_state t = stream_state s"
  by (auto simp: TimerRefresh_def and_then_eq_Inr stream_state_def streams_def)

lemma EnableInactive_streams: "EnableInactiveReleaseInLoop sec s = Inr t \<Longrightarrow> stream_state t = stream_state s"
  by (auto simp: EnableInactiveReleaseInLoop_def TimerRefresh_def and_then_eq_Inr stream_state_def streams_def Let_def split: if_splits)

lemma OnTime_streams: "conn_OnTime n s = Inr t \<Longrightarrow> stream_state t = stream_state s"
  by (auto simp: conn_OnTime_def and_then_eq_Inr fold_Release stream_state_def streams_def split: prod.splits)

lemma HandleWrite_streams:
  assumes "conn_core s" "\<not> send_result ans s < 0" "HandleWrite call ans s = Inr t"
  shows "stream_state t = stream_state s"
  using assms by (auto simp: HandleWrite_def peek_all conn_coreD send_result_def Let_def split_beta and_then_eq_Inr
      on_channel_set_events stream_state_def streams_def set_events_def Release_def QueueInLoop_def split: if_splits)

lemmas stream_of_simps [simp] = stream_state_simps[THEN stream_of_cong]

text \<open>The closures a client's peer can bring about; a queued send is the client's own.\<close>

fun no_send :: "('k, 'x) conn_op \<Rightarrow> bool" where
  "no_send (Run_closure (Send_task b)) \<longleftrightarrow> False"
| "no_send op \<longleftrightarrow> True"

section \<open>Clients that relate what they send to what they read\<close>

definition keeps_stream :: "('x \<Rightarrow> string \<Rightarrow> string \<Rightarrow> string \<Rightarrow> bool) \<Rightarrow> ('k, 'x) conn_result \<Rightarrow> bool" where
  "keeps_stream I m \<longleftrightarrow> (case m of Inl e \<Rightarrow> True | Inr t \<Rightarrow> stream_of I t)"

lemma keeps_stream_simps [simp]: "keeps_stream I (Inl e)" "keeps_stream I (Inr t) \<longleftrightarrow> stream_of I t"
  by (simp_all add: keeps_stream_def)

lemma keeps_stream_then:
  "keeps_stream I m \<Longrightarrow> step_ok P E s m \<Longrightarrow> (\<And>t. conn_inv P t \<Longrightarrow> stream_of I t \<Longrightarrow> keeps_stream I (f t))
    \<Longrightarrow> keeps_stream I (and_then m f)"
  by (cases m) auto

lemma keeps_stream_same: "stream_of I s \<Longrightarrow> (\<And>t. m = Inr t \<Longrightarrow> stream_state t = stream_state s) \<Longrightarrow> keeps_stream I m"
  by (cases m) (use stream_of_cong in auto)

locale conn_stream = conn_client call P E
  for call :: "'k \<Rightarrow> ('k, 'x) connection \<Rightarrow> ('k, 'x) conn_result" and P :: "('k, 'x) user_part \<Rightarrow> bool" and E :: "fault set" +
  fixes I A :: "'x \<Rightarrow> string \<Rightarrow> string \<Rightarrow> string \<Rightarrow> bool"
  assumes arrives: "I x sub unread got \<Longrightarrow> A x sub (unread @ d) (got @ d)"
    and nothing_new: "A x sub [] got \<Longrightarrow> I x sub [] got"
    and callbacks_keep: "conn_inv P s \<Longrightarrow> stream_of A s \<Longrightarrow> Some k \<in> {message_cb s, any_event_cb s} \<Longrightarrow> keeps_stream I (call k s)"
begin

lemma at_rest: "stream_of I s \<Longrightarrow> stream_of A s"
  using arrives[of _ _ _ _ "[]"] by (simp add: stream_of_def)

lemma call_if_keeps: "conn_inv P s \<Longrightarrow> stream_of I s \<Longrightarrow> k \<in> {message_cb s, any_event_cb s}
    \<Longrightarrow> keeps_stream I (call_if call k s)"
  using callbacks_keep[of s] at_rest[of s] by (cases k) (auto simp: call_if_def)

lemma call_message_keeps: "conn_inv P s \<Longrightarrow> stream_of A s \<Longrightarrow> keeps_stream I (call_set call (message_cb s) s)"
  using callbacks_keep[of s] conn_coreD(4)[OF conn_invD, of P s] by (auto simp: call_set_def)

lemma flush_new: "conn_inv P s \<Longrightarrow> stream_of A s \<Longrightarrow> keeps_stream I (flush_input call s)"
  using call_message_keeps drained_iff[OF conn_coreD(1)[OF conn_invD, of P s]] nothing_new
  by (auto simp: flush_input_def stream_of_def word_gt_0)

lemma flush_keeps: "conn_inv P s \<Longrightarrow> stream_of I s \<Longrightarrow> keeps_stream I (flush_input call s)"
  using flush_new at_rest by blast

lemma release_keeps: "conn_inv P s \<Longrightarrow> stream_of I s \<Longrightarrow> keeps_stream I (and_then (flush_input call s) (\<lambda>s. Inr (Release s)))"
  by (rule keeps_stream_then[OF flush_keeps flush_input_ok]) simp_all

lemma shutdown_keeps: "conn_inv P s \<Longrightarrow> stream_of I s \<Longrightarrow> keeps_stream I (ShutdownInLoop call s)"
proof -
  assume s: "conn_inv P s" "stream_of I s"
  let ?s = "s\<lparr>statu := DISCONNECTING\<rparr>"
  have t: "conn_inv P ?s" "stream_of I ?s" using disconnecting_inv[OF s(1)] s(2) by simp_all
  have "keeps_stream I (if ReadAbleSize (in_buffer s) > 0 then call_if call (message_cb s) ?s else Inr ?s)"
    using call_if_keeps[OF t, of "message_cb s"] t(2) by simp
  moreover have "step_ok P E ?s (if ReadAbleSize (in_buffer s) > 0 then call_if call (message_cb s) ?s else Inr ?s)"
    using call_if_ok[OF t(1), of "message_cb s"] t(1) by simp
  ultimately show ?thesis
    unfolding ShutdownInLoop_tail by (rule keeps_stream_then) simp_all
qed

lemma read_keeps:
  assumes s: "conn_inv P s" "stream_of I s" and rcv: "recv_ok rcv"
  shows "keeps_stream I (HandleRead call rcv s)"
proof -
  obtain r err data where rcv': "rcv = (r, err, data)" by (cases rcv)
  let ?n = "NonBlockRecv r err" let ?d = "take (nat ?n) data"
  note core = conn_invD[OF s(1)]
  have "?n \<le> 65535" using rcv by (auto simp: recv_ok_def rcv' NonBlockRecv_def Recv_def)
  then have d: "length ?d \<le> max_size" by (simp add: max_size_def)
  show ?thesis
  proof (cases "?n < 0")
    case True then show ?thesis using shutdown_keeps[OF s] by (simp add: HandleRead_def rcv')
  next
    case False
    from WriteAndPush_total[OF conn_coreD(1)[OF core] d] consider
        "WriteAndPush ?d (in_buffer s) = Inl LengthError"
      | b where "WriteAndPush ?d (in_buffer s) = Inr b" "buf_wf b" "content b = content (in_buffer s) @ ?d"
      by blast
    then show ?thesis
    proof cases
      case (2 b)
      let ?s = "s\<lparr>in_buffer := b, received_bytes := received_bytes s @ ?d\<rparr>"
      have "suffix (content (in_buffer s) @ ?d) (received_bytes s @ ?d)" using conn_coreD(8)[OF core] by simp
      with s 2 have "conn_inv P ?s" by (simp add: conn_inv_def conn_core_def)
      moreover have "stream_of A ?s" using s(2) 2(3) by (simp add: stream_of_def arrives)
      ultimately have "keeps_stream I (flush_input call ?s)" by (rule flush_new)
      with False 2(1) show ?thesis by (simp add: HandleRead_def flush_input_def rcv' Let_def)
    qed (use False in \<open>simp add: HandleRead_def rcv' Let_def\<close>)
  qed
qed

lemma write_keeps:
  assumes s: "conn_inv P s" "stream_of I s"
  shows "keeps_stream I (HandleWrite call ans s)"
proof (cases "send_result ans s < 0")
  case True
  then show ?thesis using HandleWrite_fails[OF conn_invD[OF s(1)] True, of call] release_keeps[OF s] by simp
next
  case False
  from HandleWrite_streams[OF conn_invD[OF s(1)] this] show ?thesis by (rule keeps_stream_same[OF s(2)])
qed

lemma any_event_keeps:
  assumes s: "conn_inv P s" "stream_of I s"
  shows "keeps_stream I (HandleAnyEvent call s)"
proof -
  have "keeps_stream I (if inactive_release s then TimerRefresh s else Inr s)"
    using s(2) keeps_stream_same[OF s(2) TimerRefresh_streams] by simp
  moreover have "step_ok P E s (if inactive_release s then TimerRefresh s else Inr s)"
    using TimerRefresh_ok[OF s(1)] s(1) by simp
  ultimately show ?thesis
    unfolding HandleAnyEvent_def by (rule keeps_stream_then) (simp add: call_if_keeps)
qed

lemma handler_keeps: "conn_inv P s \<Longrightarrow> stream_of I s \<Longrightarrow> recv_ok rcv \<Longrightarrow> send_ok ans
    \<Longrightarrow> keeps_stream I (conn_handler call rcv ans ev s)"
  by (cases ev) (simp_all add: read_keeps write_keeps any_event_keeps HandleError_def HandleClose_def release_keeps)

lemma events_keep:
  assumes s: "conn_inv P s" "stream_of I s" and rcv: "recv_ok rcv" and ans: "send_ok ans"
  shows "keeps_stream I (conn_events call rcv ans ev s)"
proof -
  let ?call = "call_if (conn_handler call rcv ans)" let ?s = "s\<lparr>conn_channel := SetREvents ev (conn_channel s)\<rparr>"
  have cb: "step_ok P E t (?call k t)" "stream_of I t \<Longrightarrow> keeps_stream I (?call k t)" if "conn_inv P t" for k t
    using that handler_ok[OF _ rcv ans] handler_keeps[OF _ _ rcv ans] by (simp_all add: call_if_def split: option.split)
  have s': "conn_inv P ?s" "stream_of I ?s" using revents_inv[OF s(1), of ev] s(2) by (simp_all add: stream_of_def)
  show ?thesis
    unfolding conn_events_def HandleEvent_def
    using s' by (auto intro!: keeps_stream_then[where P = P and E = E] step_ok_then cb)
qed

lemma task_keeps: "conn_inv P s \<Longrightarrow> stream_of I s \<Longrightarrow> op_fine (Run_closure t) \<Longrightarrow> no_send (Run_closure t)
    \<Longrightarrow> keeps_stream I (run_task call t s)"
  using conn_coreD(6)[OF conn_invD, of P s] keeps_stream_same[OF _ EnableInactive_streams, of I s]
  by (cases t) (auto simp: run_task_def shutdown_keeps)

lemma step_keeps: "conn_inv P s \<Longrightarrow> stream_of I s \<Longrightarrow> op_fine op \<Longrightarrow> no_send op \<Longrightarrow> keeps_stream I (conn_step call op s)"
  using task_keeps[of s] keeps_stream_same[OF _ OnTime_streams, of I s]
  by (cases op) (auto simp: events_keep)

lemma run_keeps: "conn_inv P s \<Longrightarrow> stream_of I s \<Longrightarrow> list_all op_fine ops \<Longrightarrow> list_all no_send ops
    \<Longrightarrow> keeps_stream I (conn_run call ops s)"
proof (induction ops arbitrary: s)
  case (Cons op ops)
  then show ?case
    using keeps_stream_then[OF step_keeps conn_step_ok, of s op "conn_run call ops"] by auto
qed simp

end

end
