(* ===== verification/TcpServerModel.thy ===== *)
theory TcpServerModel
  imports ConnectionStreams LoopPool
begin

text \<open>
  The classes Acceptor and TcpServer of source/server.hpp: accepting connections, handing them to
  the loops of the pool, the table that keeps them alive, and the timers of RunAfter.  The state is
  the base loop's task queue with the server's own fields.  The connections' callbacks are names, as
  in ConnectionModel; a connection is kept in the table by its address.
\<close>

section \<open>Acceptor\<close>

datatype accept_event = On_accept

record 'k acceptor =
  acc_socket :: socket
  acc_channel :: "accept_event channel"
  accept_callback :: "'k option"

text \<open>\<open>s\<close> is the memory of \<open>_socket\<close>, which is used before the constructor has run on it.\<close>

definition Acceptor_CreateServer :: "kernel \<Rightarrow> int \<Rightarrow> socket \<Rightarrow> fault + (int \<times> socket \<times> syscall list)" where
  "Acceptor_CreateServer sys port s =
     (case CreateServer sys (of_int port) ''0.0.0.0'' False s of (s, ret, calls) \<Rightarrow>
        if \<not> ret then Inl AssertFailed else Inr (sockfd s, s, calls))"

definition Acceptor_new :: "kernel \<Rightarrow> int \<Rightarrow> socket \<Rightarrow> fault + ('k acceptor \<times> syscall list)" where
  "Acceptor_new sys port s = and_then (Acceptor_CreateServer sys port s) (\<lambda>(fd, s, calls).
     Inr (\<lparr>acc_socket = Socket_new fd,
       acc_channel = (Channel_new fd)\<lparr>read_callback := Some On_accept\<rparr>, accept_callback = None\<rparr>, calls))"

definition SetAcceptCallback :: "'k \<Rightarrow> 'k acceptor \<Rightarrow> 'k acceptor" where
  "SetAcceptCallback cb acc = acc\<lparr>accept_callback := Some cb\<rparr>"

definition Acceptor_Listen :: "nat \<Rightarrow> 'k acceptor \<Rightarrow> poller \<Rightarrow> 'k acceptor \<times> poller" where
  "Acceptor_Listen a acc p = (case EnableRead a (acc_channel acc) p of (c, p) \<Rightarrow> (acc\<lparr>acc_channel := c\<rparr>, p))"

text \<open>The read callback of the listening socket, on a state with the acceptor in it.\<close>

definition Acceptor_HandleRead :: "kernel \<Rightarrow> ('k \<Rightarrow> int \<Rightarrow> 's \<Rightarrow> fault + 's) \<Rightarrow> 'k acceptor \<Rightarrow> 's \<Rightarrow> fault + ('s \<times> syscall list)" where
  "Acceptor_HandleRead sys call acc s =
     (case Accept sys (acc_socket acc) of (newfd, calls) \<Rightarrow>
        if newfd < 0 then Inr (s, calls)
        else and_then (call_if (\<lambda>k. call k newfd) (accept_callback acc) s) (\<lambda>s. Inr (s, calls)))"

section \<open>TcpServer\<close>

text \<open>The closures the server queues in its base loop.\<close>

datatype ('k, 'x, 't) srv_task = Remove_task "('k, 'x) connection" | RunAfter_task 't int

datatype accept_cb = Cb_new_connection

record ('k, 'x, 't, 'l) tcp_server = "('k, 'x, 't) srv_task event_loop" +
  next_id :: u64
  srv_port :: int
  srv_timeout :: int
  srv_inactive :: bool
  srv_acceptor :: "accept_cb acceptor"
  srv_pool :: "'l loop_pool"
  conns :: "u64 \<Rightarrow> nat option"
  srv_connected_cb :: "'k option"
  srv_message_cb :: "'k option"
  srv_closed_cb :: "'k option"
  srv_event_cb :: "'k option"

text \<open>
  The constructor: the listening socket is set up and watched by the base loop's poller \<open>p\<close>.
  \<open>_timeout\<close> is not initialised: \<open>t\<close> is what its memory holds.
\<close>

definition TcpServer_new :: "kernel \<Rightarrow> 'l \<Rightarrow> int \<Rightarrow> socket \<Rightarrow> int \<Rightarrow> nat \<Rightarrow> poller
    \<Rightarrow> fault + (('k, 'x, 't, 'l) tcp_server \<times> poller \<times> syscall list)" where
  "TcpServer_new sys base port s t a p = and_then (Acceptor_new sys port s) (\<lambda>(acc, calls).
     case Acceptor_Listen a (SetAcceptCallback Cb_new_connection acc) p of (acc, p) \<Rightarrow>
     Inr (\<lparr>el_tasks = [], wakes = 0, next_id = 0, srv_port = port, srv_timeout = t, srv_inactive = False,
       srv_acceptor = acc, srv_pool = LoopThreadPool_new base, conns = (\<lambda>_. None),
       srv_connected_cb = None, srv_message_cb = None, srv_closed_cb = None, srv_event_cb = None\<rparr>, p, calls))"

definition Srv_SetThreadCount :: "int \<Rightarrow> ('k, 'x, 't, 'l) tcp_server \<Rightarrow> ('k, 'x, 't, 'l) tcp_server" where
  "Srv_SetThreadCount count srv = srv\<lparr>srv_pool := SetThreadCount count (srv_pool srv)\<rparr>"

definition Srv_SetConnectedCallback :: "'k option \<Rightarrow> ('k, 'x, 't, 'l) tcp_server \<Rightarrow> ('k, 'x, 't, 'l) tcp_server" where
  "Srv_SetConnectedCallback cb srv = srv\<lparr>srv_connected_cb := cb\<rparr>"

definition Srv_SetMessageCallback :: "'k option \<Rightarrow> ('k, 'x, 't, 'l) tcp_server \<Rightarrow> ('k, 'x, 't, 'l) tcp_server" where
  "Srv_SetMessageCallback cb srv = srv\<lparr>srv_message_cb := cb\<rparr>"

definition Srv_SetClosedCallback :: "'k option \<Rightarrow> ('k, 'x, 't, 'l) tcp_server \<Rightarrow> ('k, 'x, 't, 'l) tcp_server" where
  "Srv_SetClosedCallback cb srv = srv\<lparr>srv_closed_cb := cb\<rparr>"

definition Srv_SetAnyEventCallback :: "'k option \<Rightarrow> ('k, 'x, 't, 'l) tcp_server \<Rightarrow> ('k, 'x, 't, 'l) tcp_server" where
  "Srv_SetAnyEventCallback cb srv = srv\<lparr>srv_event_cb := cb\<rparr>"

definition Srv_EnableInactiveRelease :: "int \<Rightarrow> ('k, 'x, 't, 'l) tcp_server \<Rightarrow> ('k, 'x, 't, 'l) tcp_server" where
  "Srv_EnableInactiveRelease timeout srv = srv\<lparr>srv_timeout := timeout, srv_inactive := True\<rparr>"

text \<open>Start up to the endless loop of the base loop.\<close>

definition Srv_Start :: "(nat \<Rightarrow> 'l) \<Rightarrow> ('k, 'x, 't, 'l) tcp_server \<Rightarrow> ('k, 'x, 't, 'l) tcp_server" where
  "Srv_Start started srv = srv\<lparr>srv_pool := Pool_Create started (srv_pool srv)\<rparr>"

text \<open>
  NewConnection: \<open>view l\<close> is the poller and the wheel of loop \<open>l\<close>, \<open>a\<close> the address of the new object,
  \<open>removed\<close> the name of RemoveConnection as a callback, \<open>x\<close> an empty context.  The server runs in its
  base loop, so a connection of that loop is established at once, any other by queued closures.
\<close>

definition NewConnection :: "('k \<Rightarrow> ('k, 'x) connection \<Rightarrow> ('k, 'x) conn_result) \<Rightarrow> 'k
    \<Rightarrow> ('l \<Rightarrow> poller \<times> u64 wheel) \<Rightarrow> 'x \<Rightarrow> nat \<Rightarrow> int \<Rightarrow> ('k, 'x, 't, 'l) tcp_server
    \<Rightarrow> fault + (('k, 'x) connection \<times> 'l \<times> ('k, 'x, 't, 'l) tcp_server)" where
  "NewConnection call removed view x a fd srv =
     (let srv = srv\<lparr>next_id := next_id srv + 1\<rparr> in
      and_then (NextLoop (srv_pool srv)) (\<lambda>(l, p).
      let srv = srv\<lparr>srv_pool := p\<rparr>; in_loop = (l = baseloop p);
          conn = Connection_new (fst (view l)) (snd (view l)) [] a x (next_id srv) fd;
          conn = SetMessageCallback (srv_message_cb srv) conn;
          conn = SetClosedCallback (srv_closed_cb srv) conn;
          conn = SetConnectedCallback (srv_connected_cb srv) conn;
          conn = SetAnyEventCallback (srv_event_cb srv) conn;
          conn = SetSrvClosedCallback (Some removed) conn in
      and_then (if srv_inactive srv then EnableInactiveRelease call in_loop (srv_timeout srv) conn else Inr conn) (\<lambda>conn.
      and_then (Established call in_loop conn) (\<lambda>conn.
        Inr (conn, l, srv\<lparr>conns := (if conns srv (next_id srv) = None
          then (conns srv)(next_id srv \<mapsto> a) else conns srv)\<rparr>)))))"

text \<open>The int that Id returns is converted back to uint64_t by find.\<close>

definition RemoveConnectionInLoop :: "('k, 'x) connection \<Rightarrow> ('k, 'x, 't, 'l) tcp_server \<Rightarrow> ('k, 'x, 't, 'l) tcp_server" where
  "RemoveConnectionInLoop conn srv =
     (let id = Conn_Id conn in
      if conns srv (of_int id) \<noteq> None then srv\<lparr>conns := (conns srv)(of_int id := None)\<rparr> else srv)"

definition RemoveConnection :: "bool \<Rightarrow> ('k, 'x) connection \<Rightarrow> ('k, 'x, 't, 'l) tcp_server \<Rightarrow> ('k, 'x, 't, 'l) tcp_server" where
  "RemoveConnection in_loop conn srv =
     (if in_loop then RemoveConnectionInLoop conn srv else QueueInLoop (Remove_task conn) srv)"

definition RunAfterInLoop :: "'t \<Rightarrow> int \<Rightarrow> ('k, 'x, 't, 'l) tcp_server \<Rightarrow> 't wheel
    \<Rightarrow> fault + (('k, 'x, 't, 'l) tcp_server \<times> 't wheel)" where
  "RunAfterInLoop task delay srv w =
     (let srv = srv\<lparr>next_id := next_id srv + 1\<rparr> in
      and_then (TimerAddInLoop (next_id srv) (of_int delay) task w) (\<lambda>w. Inr (srv, w)))"

definition RunAfter :: "bool \<Rightarrow> 't \<Rightarrow> int \<Rightarrow> ('k, 'x, 't, 'l) tcp_server \<Rightarrow> 't wheel
    \<Rightarrow> fault + (('k, 'x, 't, 'l) tcp_server \<times> 't wheel)" where
  "RunAfter in_loop task delay srv w =
     (if in_loop then RunAfterInLoop task delay srv w else Inr (QueueInLoop (RunAfter_task task delay) srv, w))"

definition run_srv_task :: "('k, 'x, 't) srv_task \<Rightarrow> ('k, 'x, 't, 'l) tcp_server \<times> 't wheel
    \<Rightarrow> fault + (('k, 'x, 't, 'l) tcp_server \<times> 't wheel)" where
  "run_srv_task t = (\<lambda>(srv, w). case t of
       Remove_task c \<Rightarrow> Inr (RemoveConnectionInLoop c srv, w)
     | RunAfter_task task delay \<Rightarrow> RunAfterInLoop task delay srv w)"

section \<open>A new connection\<close>

lemma Connection_new_setters:
  "SetSrvClosedCallback sc (SetAnyEventCallback ev (SetConnectedCallback cn (SetClosedCallback cl (SetMessageCallback ms s))))
     = s\<lparr>message_cb := ms, closed_cb := cl, connected_cb := cn, any_event_cb := ev, server_closed_cb := sc\<rparr>"
  by (simp add: conn_setters)

lemma Connection_new_wakes: "Connection_new p w ts a x i fd\<lparr>wakes := 0\<rparr> = Connection_new p w ts a x i fd"
  by (simp add: Connection_new_def)

lemma run_tasks_end: "and_then m (run_tasks f []) = m"
  by (cases m) simp_all

lemma NextLoop_keeps: "NextLoop p = Inr (l, p') \<Longrightarrow> baseloop p' = baseloop p \<and> loops p' = loops p"
  by (auto simp: NextLoop_def Let_def split: if_splits)

text \<open>
  Accepting a descriptor up to the point where the connection is established in its loop: at once
  in the base loop, when the loop runs its queue in any other.
\<close>

definition accept_in_loop :: "('k \<Rightarrow> ('k, 'x) connection \<Rightarrow> ('k, 'x) conn_result) \<Rightarrow> 'k
    \<Rightarrow> ('l \<Rightarrow> poller \<times> u64 wheel) \<Rightarrow> 'x \<Rightarrow> nat \<Rightarrow> int \<Rightarrow> ('k, 'x, 't, 'l) tcp_server
    \<Rightarrow> fault + (('k, 'x) connection \<times> ('k, 'x, 't, 'l) tcp_server)" where
  "accept_in_loop call removed view x a fd srv =
     and_then (NewConnection call removed view x a fd srv) (\<lambda>(c, l, srv').
     and_then (if l = baseloop (srv_pool srv') then Inr c else RunAllTask (run_task call) c) (\<lambda>c. Inr (c, srv')))"

text \<open>What the server's settings make of a connection's user part.\<close>

definition srv_user :: "'x \<Rightarrow> ('k, 'x, 't, 'l) tcp_server \<Rightarrow> ('k, 'x) user_part" where
  "srv_user x srv = (x, srv_connected_cb srv, srv_message_cb srv, srv_event_cb srv)"

definition timeout_ok :: "('k, 'x, 't, 'l) tcp_server \<Rightarrow> bool" where
  "timeout_ok srv \<longleftrightarrow> (srv_inactive srv \<longrightarrow> 0 \<le> srv_timeout srv \<and> srv_timeout srv + 60 \<le> 2 ^ 31)"

definition fresh_in :: "(nat \<Rightarrow> conn_event channel option) \<Rightarrow> poller \<times> u64 wheel \<Rightarrow> nat \<Rightarrow> int \<Rightarrow> bool" where
  "fresh_in h v a fd \<longleftrightarrow> poller_wf (h, fst v) \<and> h a = None \<and> (\<forall>b c. h b = Some c \<longrightarrow> ch_fd c \<noteq> fd) \<and> wheel_wf (snd v)"

lemma Established_from:
  assumes s: "conn_inv U s" "statu s = CONNECTING"
    and call: "\<And>t. conn_inv U t \<Longrightarrow> connected_cb t = connected_cb s \<Longrightarrow> step_ok P E t (call_if call (connected_cb s) t)"
  shows "case EstablishedInLoop call s of Inl e \<Rightarrow> e \<in> E
    | Inr t \<Rightarrow> conn_inv P t \<and> conn_le s t \<and> CONNECTED \<le> statu t \<and> ReadAble (conn_channel t)"
proof -
  let ?s = "set_events (ch_events (conn_channel s) OR EPOLLIN) (s\<lparr>statu := CONNECTED\<rparr>)"
  have core: "conn_core (s\<lparr>statu := CONNECTED\<rparr>)" "conn_le s (s\<lparr>statu := CONNECTED\<rparr>)"
    using s by (simp_all add: conn_inv_def conn_core_def conn_le_def)
  have "WriteAble (conn_channel s) \<longrightarrow> WriteAble ((conn_channel s)\<lparr>ch_events := ch_events (conn_channel s) OR EPOLLIN\<rparr>)"
    by (simp add: WriteAble_def epoll_bits bit.conj_disj_distrib2)
  with s core have "conn_inv U ?s" and le: "conn_le s ?s" by (simp_all add: conn_inv_def)
  from call[OF this(1)] have ok: "step_ok P E ?s (call_if call (connected_cb s) ?s)" by simp
  have "ReadAble (conn_channel ?s)"
    by (simp add: ReadAble_def) (metis bit.conj_disj_distrib2 and.idem or_eq_0_iff word_bw_comms(1) one_neq_zero EPOLLIN_def)
  then have "ReadAble (conn_channel t) \<and> CONNECTED \<le> statu t" if "conn_le ?s t" for t
    using that by (auto simp: conn_le_def)
  with ok le s(2) show ?thesis
    by (cases "call_if call (connected_cb s) ?s") (auto simp: EstablishedInLoop_def on_channel_set_events intro: conn_le_trans)
qed

text \<open>Up to its establishment a new connection has met no callback of the client.\<close>

lemma accept_runs:
  fixes srv :: "('k, 'x, 't, 'l) tcp_server"
  assumes loop: "NextLoop (srv_pool srv) = Inr (l, q)" and new: "fresh_in h (view l) a fd"
    and user: "srv_message_cb srv \<noteq> None" "timeout_ok srv"
  shows "\<exists>s. conn_inv (\<lambda>u. u = srv_user x srv) s \<and> statu s = CONNECTING \<and> conn_id s = next_id srv + 1 \<and> conn_fd s = fd
     \<and> streams s = ([], Buffer_new, [])
     \<and> accept_in_loop call removed view x a fd srv = and_then (EstablishedInLoop call s) (\<lambda>c. Inr (c,
         srv\<lparr>next_id := next_id srv + 1, srv_pool := q,
           conns := (if conns srv (next_id srv + 1) = None then (conns srv)(next_id srv + 1 \<mapsto> a) else conns srv)\<rparr>))"
proof -
  let ?U = "\<lambda>u. u = srv_user x srv" and ?id = "next_id srv + 1"
  let ?ts = "(if srv_inactive srv then [EnableInactive_task (srv_timeout srv)] else []) @ [Established_task] :: ('k, 'x) conn_task list"
  let ?n = "if l = baseloop q then 0 else length ?ts"
  let ?c = "(Connection_new (fst (view l)) (snd (view l)) [] a x ?id fd :: ('k, 'x) connection)\<lparr>wakes := ?n, message_cb := srv_message_cb srv,
    closed_cb := srv_closed_cb srv, connected_cb := srv_connected_cb srv, any_event_cb := srv_event_cb srv, server_closed_cb := Some removed\<rparr>"
  let ?srv = "srv\<lparr>next_id := ?id, srv_pool := q,
    conns := (if conns srv ?id = None then (conns srv)(?id \<mapsto> a) else conns srv)\<rparr>"
  note q = NextLoop_keeps[OF loop]
  have "channel_wf a fd (conn_channel ?c) (fst (view l))"
    using channel_wf_new[of h "fst (view l)" a fd "snd (view l)" "[]" x ?id] new by (simp add: fresh_in_def)
  then have c: "conn_inv ?U ?c" "statu ?c = CONNECTING" "conn_id ?c = ?id" "conn_fd ?c = fd" "alive ?c" "el_tasks ?c = []"
    using new user by (simp_all add: conn_inv_def conn_core_def Connection_new_def Socket_new_def fresh_in_def srv_user_def)
  have enable: "\<exists>s. (if srv_inactive srv then run_task call (EnableInactive_task (srv_timeout srv)) ?c else Inr ?c) = Inr s
      \<and> conn_inv ?U s \<and> statu s = CONNECTING \<and> conn_id s = ?id \<and> conn_fd s = fd \<and> streams s = streams ?c"
  proof (cases "srv_inactive srv")
    case True
    then have sec: "0 \<le> srv_timeout srv" "srv_timeout srv + 60 \<le> 2 ^ 31" using user(2) by (simp_all add: timeout_ok_def)
    have statu: "EnableInactiveReleaseInLoop (srv_timeout srv) ?c = Inr s \<Longrightarrow> statu s = CONNECTING" for s
      using c(2) by (auto simp: EnableInactiveReleaseInLoop_def TimerRefresh_def and_then_eq_Inr Let_def split: if_splits)
    have "EnableInactiveReleaseInLoop (srv_timeout srv) ?c \<noteq> Inl e" for e
      using EnableInactive_ok[OF c(1) sec, of "{}"] by auto
    then obtain s where s: "EnableInactiveReleaseInLoop (srv_timeout srv) ?c = Inr s"
      by (cases "EnableInactiveReleaseInLoop (srv_timeout srv) ?c") auto
    from EnableInactive_ok[OF c(1) sec, of "{}"] have "conn_inv ?U s" "conn_le ?c s" by (simp_all only: s step_ok_Inr)
    with statu[OF s] stream_state_streams[OF EnableInactive_streams[OF s]] s c True show ?thesis by (simp add: run_task_def conn_le_def)
  qed (use c in simp)
  then obtain s where s: "(if srv_inactive srv then run_task call (EnableInactive_task (srv_timeout srv)) ?c else Inr ?c) = Inr s"
    "conn_inv ?U s" "statu s = CONNECTING" "conn_id s = ?id" "conn_fd s = fd" "streams s = streams ?c" by blast
  have alive: "alive s" using conn_coreD(6)[OF conn_invD[OF s(2)]] .
  have run: "accept_in_loop call removed view x a fd srv = and_then (EstablishedInLoop call s) (\<lambda>c. Inr (c, ?srv))"
  proof (cases "l = baseloop q")
    case True
    then show ?thesis using s(1) alive q
      by (auto simp: Connection_new_wakes accept_in_loop_def NewConnection_def loop Let_def Connection_new_setters EnableInactiveRelease_def
          Established_def RunInLoop_def and_then_assoc run_task_def split: if_splits cong: if_cong)
  next
    case False
    have new: "NewConnection call removed view x a fd srv = Inr (?c\<lparr>el_tasks := ?ts\<rparr>, l, ?srv)"
      using False by (simp add: NewConnection_def loop Let_def Connection_new_setters EnableInactiveRelease_def
          Established_def RunInLoop_def QueueInLoop_def Connection_new_def)
    have tasks: "RunAllTask (run_task call) (?c\<lparr>el_tasks := ?ts\<rparr>) = run_tasks (run_task call) ?ts ?c"
      by (simp add: RunAllTask_def Connection_new_def)
    have "run_tasks (run_task call) ?ts ?c = EstablishedInLoop call s"
      using s(1) alive False c(5) by (cases "srv_inactive srv") (auto simp: run_task_def run_tasks_end)
    with False new tasks show ?thesis by (simp only: accept_in_loop_def and_then_Inr prod.case) simp
  qed
  have "streams ?c = ([], Buffer_new, [])" by (simp add: streams_def Connection_new_def)
  with run s(2-6) show ?thesis by auto
qed

lemma accept_ok:
  fixes srv :: "('k, 'x, 't, 'l) tcp_server"
  assumes loop: "NextLoop (srv_pool srv) = Inr (l, q)" and new: "fresh_in h (view l) a fd"
    and user: "srv_message_cb srv \<noteq> None" "timeout_ok srv"
    and call: "\<And>t. conn_inv (\<lambda>u. u = srv_user x srv) t \<Longrightarrow> step_ok P E t (call_if call (srv_connected_cb srv) t)"
  shows "case accept_in_loop call removed view x a fd srv of Inl e \<Rightarrow> e \<in> E
    | Inr (c, srv') \<Rightarrow> conn_inv P c \<and> CONNECTED \<le> statu c \<and> ReadAble (conn_channel c)
        \<and> conn_id c = next_id srv + 1 \<and> conn_fd c = fd \<and> next_id srv' = next_id srv + 1 \<and> srv_pool srv' = q
        \<and> conns srv' = (if conns srv (conn_id c) = None then (conns srv)(conn_id c \<mapsto> a) else conns srv)"
proof -
  let ?U = "\<lambda>u. u = srv_user x srv"
  from accept_runs[where view = view and call = call and removed = removed and x = x, OF loop new user] obtain s where s: "conn_inv ?U s" "statu s = CONNECTING"
    "conn_id s = next_id srv + 1" "conn_fd s = fd"
    and run: "accept_in_loop call removed view x a fd srv = and_then (EstablishedInLoop call s) (\<lambda>c. Inr (c,
         srv\<lparr>next_id := next_id srv + 1, srv_pool := q,
           conns := (if conns srv (next_id srv + 1) = None then (conns srv)(next_id srv + 1 \<mapsto> a) else conns srv)\<rparr>))" by blast
  have user_cb: "connected_cb t = srv_connected_cb srv" if "conn_inv ?U t" for t
    using conn_inv_context[OF that] by (simp add: srv_user_def)
  from Established_from[OF s(1,2), of P E call] call user_cb[OF s(1)] user_cb
  have "case EstablishedInLoop call s of Inl e \<Rightarrow> e \<in> E
    | Inr t \<Rightarrow> conn_inv P t \<and> conn_le s t \<and> CONNECTED \<le> statu t \<and> ReadAble (conn_channel t)" by simp
  with s(3,4) show ?thesis unfolding run by (cases "EstablishedInLoop call s") (auto simp: conn_le_def)
qed

text \<open>A connected callback that neither reads nor sends leaves the new connection without bytes.\<close>

lemma accept_streams:
  fixes srv :: "('k, 'x, 't, 'l) tcp_server"
  assumes "NextLoop (srv_pool srv) = Inr (l, q)" "fresh_in h (view l) a fd" "srv_message_cb srv \<noteq> None" "timeout_ok srv"
    and call: "\<And>s t. call_if call (srv_connected_cb srv) s = Inr t \<Longrightarrow> streams t = streams s"
    and acc: "accept_in_loop call removed view x a fd srv = Inr (c, srv')"
  shows "streams c = ([], Buffer_new, [])"
proof -
  from accept_runs[where view = view and call = call and removed = removed and x = x, OF assms(1-4)] obtain s srv''
    where s: "conn_inv (\<lambda>u. u = srv_user x srv) s" "streams s = ([], Buffer_new, [])"
      and "accept_in_loop call removed view x a fd srv = and_then (EstablishedInLoop call s) (\<lambda>c. Inr (c, srv''))" by blast
  with acc have "EstablishedInLoop call s = Inr c" by (cases "EstablishedInLoop call s") simp_all
  moreover have "connected_cb s = srv_connected_cb srv" using conn_inv_context[OF s(1)] by (simp add: srv_user_def)
  ultimately show ?thesis using s(2) call[of "on_channel EnableRead (s\<lparr>statu := CONNECTED\<rparr>)" c]
    by (auto simp: EstablishedInLoop_def on_channel_set_events split: if_splits)
qed

section \<open>The table of connections\<close>

text \<open>
  The server's own operations as a run in its base loop, with n > 0 worker loops.  The connections'
  loops are not needed for what the server keeps, so their answer is an output.
\<close>

datatype ('k, 'x, 't) srv_op = Accepted nat int | Released bool "('k, 'x) connection" | Timer_asked bool 't int | Run_queue

fun srv_step :: "('k \<Rightarrow> ('k, 'x) connection \<Rightarrow> ('k, 'x) conn_result) \<Rightarrow> 'k \<Rightarrow> ('l \<Rightarrow> poller \<times> u64 wheel) \<Rightarrow> 'x
    \<Rightarrow> ('k, 'x, 't) srv_op \<Rightarrow> ('k, 'x, 't, 'l) tcp_server \<times> 't wheel
    \<Rightarrow> fault + ((('k, 'x, 't, 'l) tcp_server \<times> 't wheel) \<times> u64 option)" where
  "srv_step call removed view x (Accepted a fd) (srv, w) =
     and_then (NewConnection call removed view x a fd srv) (\<lambda>(c, l, srv). Inr ((srv, w), Some (conn_id c)))"
| "srv_step call removed view x (Released in_loop c) (srv, w) = Inr ((RemoveConnection in_loop c srv, w), None)"
| "srv_step call removed view x (Timer_asked in_loop t delay) (srv, w) =
     and_then (RunAfter in_loop t delay srv w) (\<lambda>s. Inr (s, None))"
| "srv_step call removed view x Run_queue (srv, w) =
     and_then (run_tasks run_srv_task (el_tasks srv) (srv\<lparr>el_tasks := []\<rparr>, w)) (\<lambda>s. Inr (s, None))"

text \<open>
  What the server promises: one counter numbers connections and timers from 1; a connection is in
  the table from its acceptance to its removal; the queue keeps the order of what was asked.
\<close>

type_synonym 't srv_abs = "nat \<times> (u64 \<Rightarrow> nat option) \<times> 't timers \<times> (u64 + 't \<times> nat) list"

fun spec_task :: "u64 + 't \<times> nat \<Rightarrow> 't srv_abs \<Rightarrow> 't srv_abs" where
  "spec_task (Inl i) (n, t, ts, q) = (n, t(i := None), ts, q)"
| "spec_task (Inr (k, d)) (n, t, ts, q) = (Suc n, t, timers_add (of_nat (Suc n)) d k ts, q)"

fun srv_spec :: "('k, 'x, 't) srv_op \<Rightarrow> 't srv_abs \<Rightarrow> u64 option \<Rightarrow> 't srv_abs \<Rightarrow> bool" where
  "srv_spec (Accepted a fd) (n, t, ts, q) out a' \<longleftrightarrow>
     out = Some (of_nat (Suc n)) \<and> t (of_nat (Suc n)) = None \<and> a' = (Suc n, t(of_nat (Suc n) \<mapsto> a), ts, q)"
| "srv_spec (Released in_loop c) (n, t, ts, q) out a' \<longleftrightarrow>
     a' = (if in_loop then spec_task (Inl (conn_id c)) (n, t, ts, q) else (n, t, ts, q @ [Inl (conn_id c)]))"
| "srv_spec (Timer_asked in_loop k d) (n, t, ts, q) out a' \<longleftrightarrow>
     a' = (if in_loop then spec_task (Inr (k, nat d)) (n, t, ts, q) else (n, t, ts, q @ [Inr (k, nat d)]))"
| "srv_spec Run_queue (n, t, ts, q) out a' \<longleftrightarrow> a' = fold spec_task q (n, t, ts, [])"

text \<open>
  Where the refinement holds: below the 2^31-th id, for connections the server has made, with delays
  an int can add up.
\<close>

definition int_ids :: nat where
  "int_ids = 2 ^ 31"

fun srv_ok :: "('k, 'x, 't) srv_op \<Rightarrow> 't srv_abs \<Rightarrow> bool" where
  "srv_ok (Accepted a fd) (n, t, ts, q) \<longleftrightarrow> Suc n < int_ids"
| "srv_ok (Released in_loop c) (n, t, ts, q) \<longleftrightarrow> unat (conn_id c) < int_ids"
| "srv_ok (Timer_asked in_loop k d) (n, t, ts, q) \<longleftrightarrow> Suc n < int_ids \<and> 0 \<le> d \<and> d + 60 \<le> 2 ^ 31"
| "srv_ok Run_queue (n, t, ts, q) \<longleftrightarrow> n + length q < int_ids"

fun task_abs :: "('k, 'x, 't) srv_task \<Rightarrow> u64 + 't \<times> nat" where
  "task_abs (Remove_task c) = Inl (conn_id c)"
| "task_abs (RunAfter_task t d) = Inr (t, nat d)"

definition srv_abs :: "('k, 'x, 't, 'l) tcp_server \<times> 't wheel \<Rightarrow> 't srv_abs" where
  "srv_abs = (\<lambda>(srv, w). (unat (next_id srv), conns srv, wheel_abs w, map task_abs (el_tasks srv)))"

fun srv_task_wf :: "('k, 'x, 't) srv_task \<Rightarrow> bool" where
  "srv_task_wf (Remove_task c) \<longleftrightarrow> unat (conn_id c) < int_ids"
| "srv_task_wf (RunAfter_task t d) \<longleftrightarrow> 0 \<le> d \<and> d + 60 \<le> 2 ^ 31"

text \<open>No id above the counter is in use, and the worker loops are not the base loop.\<close>

definition srv_wf :: "('k, 'x, 't, 'l) tcp_server \<times> 't wheel \<Rightarrow> bool" where
  "srv_wf = (\<lambda>(srv, w). pool_wf (srv_pool srv) \<and> baseloop (srv_pool srv) \<notin> set (loops (srv_pool srv)) \<and> wheel_wf w
     \<and> (\<forall>i. conns srv i \<noteq> None \<or> HasTimer i w \<longrightarrow> unat i \<le> unat (next_id srv))
     \<and> (\<forall>t \<in> set (el_tasks srv). srv_task_wf t))"

text \<open>Reading an id through an int gives the id back below 2^31, and again just below 2^64.\<close>

lemma sint_low: "sint (ucast (i :: u64) :: u32) = (uint i + 2 ^ 31) mod 2 ^ 32 - 2 ^ 31"
proof -
  have "sint (ucast i :: u32) = signed_take_bit 31 (take_bit 32 (uint i))"
    by (simp add: sint_uint unsigned_ucast_eq)
  also have "\<dots> = signed_take_bit 31 (uint i)" by (simp add: signed_take_bit_take_bit)
  finally show ?thesis by (simp add: signed_take_bit_eq_take_bit_shift take_bit_eq_mod)
qed

lemma neg_mod_u64: "- (2 ^ 64) \<le> z \<Longrightarrow> z < 0 \<Longrightarrow> z mod 2 ^ 64 = z + 2 ^ 64" for z :: int
proof -
  assume "- (2 ^ 64) \<le> z" "z < 0"
  then have "(z + 2 ^ 64) mod 2 ^ 64 = z + 2 ^ 64" by (intro mod_pos_pos_trivial) linarith+
  then show ?thesis by simp
qed

lemma low_bits_back:
  fixes k :: int
  assumes "0 \<le> k" "k < 2 ^ 64"
  shows "((k + 2 ^ 31) mod 2 ^ 32 - 2 ^ 31) mod 2 ^ 64 = k \<longleftrightarrow> k < 2 ^ 31 \<or> 2 ^ 64 - 2 ^ 31 \<le> k"
proof -
  define m where "m = (k + 2 ^ 31) mod 2 ^ 32"
  have m: "0 \<le> m" "m < 2 ^ 32" by (simp_all add: m_def)
  have "(m - 2 ^ 31) mod 2 ^ 64 = (if 2 ^ 31 \<le> m then m - 2 ^ 31 else m - 2 ^ 31 + 2 ^ 64)"
    using m mod_pos_pos_trivial[of "m - 2 ^ 31" "2 ^ 64"] neg_mod_u64[of "m - 2 ^ 31"] by simp
  moreover have "m = k + 2 ^ 31" if "k < 2 ^ 31"
    unfolding m_def by (rule mod_pos_pos_trivial) (use that assms in simp_all)
  moreover have "m = k + 2 ^ 31 - 2 ^ 64" if "2 ^ 64 - 2 ^ 31 \<le> k"
  proof -
    have "m = (k + 2 ^ 31 - 2 ^ 64 + 2 ^ 32 * 2 ^ 32) mod 2 ^ 32" by (simp add: m_def add.commute)
    also have "\<dots> = (k + 2 ^ 31 - 2 ^ 64) mod 2 ^ 32" by (simp only: mod_mult_self2)
    also have "\<dots> = k + 2 ^ 31 - 2 ^ 64" by (rule mod_pos_pos_trivial) (use that assms in simp_all)
    finally show ?thesis .
  qed
  ultimately show ?thesis unfolding m_def[symmetric] using m assms by (auto split: if_splits)
qed

lemma id_back_iff:
  "(of_int (sint (ucast (i :: u64) :: u32)) :: u64) = i \<longleftrightarrow> uint i < 2 ^ 31 \<or> 2 ^ 64 - 2 ^ 31 \<le> uint i"
proof -
  have r: "0 \<le> uint i" "uint i < 2 ^ 64" using uint_lt2p[of i] by simp_all
  have "(of_int z :: u64) = i \<longleftrightarrow> take_bit 64 z = uint i" for z
    using word_of_int_eq_iff[of z "uint i", where 'a = 64] take_bit_int_eq_self[OF r] by simp
  then have "(of_int (sint (ucast i :: u32)) :: u64) = i \<longleftrightarrow> take_bit 64 (sint (ucast i :: u32)) = uint i" .
  also have "\<dots> \<longleftrightarrow> uint i < 2 ^ 31 \<or> 2 ^ 64 - 2 ^ 31 \<le> uint i"
    unfolding take_bit_eq_mod sint_low by (rule low_bits_back[OF r])
  finally show ?thesis .
qed

lemma id_back: "unat i < int_ids \<Longrightarrow> (of_int (sint (ucast (i :: u64) :: u32)) :: u64) = i"
proof -
  assume "unat i < int_ids"
  then have "uint i < 2 ^ 31" unfolding int_ids_def using of_nat_less_iff[of "unat i" "2 ^ 31", where 'a = int] by (simp only: uint_nat) simp
  then show ?thesis unfolding id_back_iff ..
qed

lemma Conn_Id_back: "unat (conn_id c) < int_ids \<Longrightarrow> (of_int (Conn_Id c) :: u64) = conn_id c"
  by (simp only: Conn_Id_def id_back)

lemma remove_live: "unat (conn_id c) < int_ids \<Longrightarrow> conns (RemoveConnectionInLoop c srv) = (conns srv)(conn_id c := None)
   \<and> next_id (RemoveConnectionInLoop c srv) = next_id srv \<and> srv_pool (RemoveConnectionInLoop c srv) = srv_pool srv
   \<and> el_tasks (RemoveConnectionInLoop c srv) = el_tasks srv"
  by (auto simp: RemoveConnectionInLoop_def Conn_Id_back Let_def)

lemma next_id_Suc: "unat n < int_ids \<Longrightarrow> unat (n + 1 :: u64) = Suc (unat n)"
  using unat_plus_u64[of n 1] by (simp add: int_ids_def max_size_def)

lemma run_after_simulates:
  assumes wf: "srv_wf (srv, w)" and n: "Suc (unat (next_id srv)) < int_ids" and d: "0 \<le> d" "d + 60 \<le> 2 ^ 31"
  shows "\<exists>srv' w'. RunAfterInLoop k d srv w = Inr (srv', w') \<and> srv_wf (srv', w')
     \<and> srv_abs (srv', w') = spec_task (Inr (k, nat d)) (srv_abs (srv, w))"
proof -
  let ?i = "next_id srv + 1"
  have i: "unat ?i = Suc (unat (next_id srv))" by (rule next_id_Suc) (use n in simp)
  then have new: "\<not> HasTimer ?i w" using wf by (auto simp: srv_wf_def)
  have u: "unat (of_int d :: u32) = nat d"
    using d by (simp add: unat_eq_nat_uint uint_word_of_int_eq take_bit_int_eq_self)
  have "unat (of_int d :: u32) + 60 \<le> 2 ^ 31" unfolding u using d by (simp add: nat_le_iff)
  from TimerAdd_simulates[OF _ new this, of k] wf obtain w' where w': "TimerAddInLoop ?i (of_int d) k w = Inr w'" "wheel_wf w'"
    "wheel_abs w' = timers_add ?i (nat d) k (wheel_abs w)" by (auto simp: srv_wf_def u)
  have "HasTimer j w' \<Longrightarrow> HasTimer j w \<or> j = ?i" for j
    using w' wf by (auto simp: HasTimer_abs srv_wf_def timers_add_def split: if_splits)
  then have "srv_wf (srv\<lparr>next_id := ?i\<rparr>, w')"
    using wf w'(2) i by (auto simp: srv_wf_def) fastforce+
  moreover have "of_nat (unat ?i) = ?i" by simp
  then have "1 + (of_nat (unat (next_id srv)) :: u64) = ?i" by simp
  ultimately show ?thesis
    using w'(1,3) i by (simp add: RunAfterInLoop_def srv_abs_def Let_def add.commute)
qed

lemma queue_simulates:
  "srv_wf (srv, w) \<Longrightarrow> \<forall>t \<in> set ts. srv_task_wf t \<Longrightarrow> unat (next_id srv) + length ts < int_ids \<Longrightarrow>
   \<exists>srv' w'. run_tasks run_srv_task ts (srv, w) = Inr (srv', w') \<and> srv_wf (srv', w')
     \<and> srv_abs (srv', w') = fold spec_task (map task_abs ts) (srv_abs (srv, w))"
proof (induction ts arbitrary: srv w)
  case (Cons t ts)
  have "\<exists>srv' w'. run_srv_task t (srv, w) = Inr (srv', w') \<and> srv_wf (srv', w')
     \<and> srv_abs (srv', w') = spec_task (task_abs t) (srv_abs (srv, w)) \<and> unat (next_id srv') \<le> Suc (unat (next_id srv))"
  proof (cases t)
    case (Remove_task c)
    then have "unat (conn_id c) < int_ids" using Cons.prems(2) by simp
    from remove_live[OF this, of srv] Cons.prems(1) Remove_task show ?thesis
      by (simp add: run_srv_task_def srv_abs_def srv_wf_def)
  next
    case (RunAfter_task k d)
    with Cons.prems run_after_simulates[OF Cons.prems(1), of d k] obtain srv' w' where
      "RunAfterInLoop k d srv w = Inr (srv', w')" "srv_wf (srv', w')" "srv_abs (srv', w') = spec_task (Inr (k, nat d)) (srv_abs (srv, w))"
      by auto
    moreover from this(3) have "unat (next_id srv') = Suc (unat (next_id srv))" by (simp add: srv_abs_def)
    ultimately show ?thesis using RunAfter_task by (simp add: run_srv_task_def)
  qed
  then obtain srv' w' where 1: "run_srv_task t (srv, w) = Inr (srv', w')" "srv_wf (srv', w')"
    "srv_abs (srv', w') = spec_task (task_abs t) (srv_abs (srv, w))" "unat (next_id srv') \<le> Suc (unat (next_id srv))" by blast
  from Cons.IH[OF 1(2)] Cons.prems(2,3) 1(4) obtain srv'' w'' where "run_tasks run_srv_task ts (srv', w') = Inr (srv'', w'')"
    "srv_wf (srv'', w'')" "srv_abs (srv'', w'') = fold spec_task (map task_abs ts) (srv_abs (srv', w'))" by auto
  with 1 show ?case by simp
qed simp

lemma NewConnection_worker:
  assumes wf: "srv_wf (srv, w)" and n: "Suc (unat (next_id srv)) < int_ids"
  shows "\<exists>c l srv'. NewConnection call removed view x a fd srv = Inr (c, l, srv') \<and> srv_wf (srv', w)
     \<and> conn_id c = next_id srv + 1 \<and> conns srv (next_id srv + 1) = None
     \<and> srv_abs (srv', w) = (Suc (unat (next_id srv)), (conns srv)(next_id srv + 1 \<mapsto> a), wheel_abs w, map task_abs (el_tasks srv))"
proof -
  let ?p = "srv_pool srv" and ?i = "next_id srv + 1"
  have p: "pool_wf ?p" "baseloop ?p \<notin> set (loops ?p)" using wf by (simp_all add: srv_wf_def)
  have i: "unat ?i = Suc (unat (next_id srv))" by (rule next_id_Suc) (use n in simp)
  then have new: "conns srv ?i = None" using wf by (auto simp: srv_wf_def)
  define l q where "l = loops ?p ! pool_pos ?p" and "q = ?p\<lparr>next_idx := int (pool_pos ?p)\<rparr>"
  have next_loop: "NextLoop ?p = Inr (l, q)" "pool_wf q"
    using NextLoop_ok[OF p(1)] pool_wf_next[OF p(1)] by (simp_all add: l_def q_def)
  have "l \<in> set (loops ?p)" using pool_pos_less[OF p(1)] by (simp add: l_def)
  then have other: "l \<noteq> baseloop q" using p(2) by (auto simp: q_def)
  have "srv_wf (srv\<lparr>next_id := ?i, srv_pool := q, conns := (conns srv)(?i \<mapsto> a)\<rparr>, w)"
    using wf next_loop(2) i p(2) by (auto simp: srv_wf_def q_def)
  then show ?thesis
    using other new i by (simp add: NewConnection_def next_loop Let_def conn_setters EnableInactiveRelease_def Established_def
        RunInLoop_def QueueInLoop_def Connection_new_def srv_abs_def)
qed

lemma srv_step_simulates:
  assumes "srv_wf s" and "srv_ok op (srv_abs s)"
  shows "\<exists>s' out. srv_step call removed view x op s = Inr (s', out) \<and> srv_wf s' \<and> srv_spec op (srv_abs s) out (srv_abs s')"
proof -
  obtain srv w where s: "s = (srv, w)" by force
  have abs: "srv_abs s = (unat (next_id srv), conns srv, wheel_abs w, map task_abs (el_tasks srv))"
    by (simp add: srv_abs_def s)
  note wf = assms(1)[unfolded s]
  show ?thesis
  proof (cases op)
    case (Accepted a fd)
    with assms(2) have n: "Suc (unat (next_id srv)) < int_ids" by (simp add: abs)
    then have Suc_id: "unat (next_id srv + 1) = Suc (unat (next_id srv))" by (intro next_id_Suc) simp
    have "of_nat (unat (next_id srv + 1)) = next_id srv + 1" by simp
    then have i: "of_nat (Suc (unat (next_id srv))) = next_id srv + 1" unfolding Suc_id .
    from NewConnection_worker[OF wf n, of call removed view x a fd] Accepted abs i show ?thesis
      by (auto simp: s simp del: of_nat_Suc)
  next
    case (Released b c)
    then show ?thesis using assms(2) wf remove_live[of c srv]
      by (auto simp: s abs RemoveConnection_def QueueInLoop_def srv_wf_def srv_abs_def)
  next
    case (Timer_asked b k d)
    with assms(2) have d: "Suc (unat (next_id srv)) < int_ids" "0 \<le> d" "d + 60 \<le> 2 ^ 31" by (simp_all add: abs)
    show ?thesis
    proof (cases b)
      case True
      from run_after_simulates[OF wf d, of k] obtain srv' w' where "RunAfterInLoop k d srv w = Inr (srv', w')" "srv_wf (srv', w')"
        "srv_abs (srv', w') = spec_task (Inr (k, nat d)) (srv_abs (srv, w))" by blast
      then show ?thesis using True Timer_asked abs by (simp add: s RunAfter_def)
    next
      case False
      then show ?thesis using Timer_asked d wf by (auto simp: s RunAfter_def QueueInLoop_def srv_wf_def srv_abs_def)
    qed
  next
    case Run_queue
    have "srv_wf (srv\<lparr>el_tasks := []\<rparr>, w)" using wf by (simp add: srv_wf_def)
    moreover have "\<forall>t \<in> set (el_tasks srv). srv_task_wf t" using wf by (simp add: srv_wf_def)
    ultimately show ?thesis
      using queue_simulates[of "srv\<lparr>el_tasks := []\<rparr>" w "el_tasks srv"] assms(2) Run_queue
      by (auto simp: s abs srv_abs_def)
  qed
qed

interpretation srv_table: op_simulation "srv_step call removed view x" srv_spec srv_ok srv_wf srv_abs
  for call removed view x
  by (rule op_simulation.intro) (rule srv_step_simulates)

text \<open>A server with two worker loops on descriptor 3 of a kernel that grants everything.\<close>

definition example_server :: "(unit, unit, string, nat) tcp_server" where
  "example_server = Srv_Start Suc (Srv_SetThreadCount 2 (Srv_EnableInactiveRelease 10
     (fst (projr (TcpServer_new (\<lambda>_. 3) 0 8080 (Socket_new (-1)) 0 0 Poller_new)))\<lparr>srv_message_cb := Some ()\<rparr>))"

lemma example_server_eq:
  "next_id example_server = 0" "conns example_server = (\<lambda>_. None)" "el_tasks example_server = []"
  "srv_pool example_server = \<lparr>thread_count = 2, next_idx = 0, baseloop = 0, loops = [1, 2]\<rparr>"
  "srv_message_cb example_server = Some ()" "srv_timeout example_server = 10"
  by (simp_all add: example_server_def Srv_Start_def Srv_SetThreadCount_def Srv_EnableInactiveRelease_def TcpServer_new_def
      Acceptor_new_def Acceptor_CreateServer_def CreateServer_def Create_def Bind_def Listen_def Socket_new_def Let_def
      Acceptor_Listen_def EnableRead_def LoopThreadPool_new_def Pool_Create_def SetThreadCount_def upt_rec numeral_2_eq_2
      split: prod.split)

lemma example_server_wf: "srv_wf (example_server, TimerWheel_new)"
  by (simp add: srv_wf_def example_server_eq pool_wf_def wheel_wf_new HasTimer_def) (simp add: TimerWheel_new_def)

section \<open>Properties\<close>

text \<open>
  C22. A new connection is ready for its client.  NewConnection takes the next id and the next loop;
  once the loop has run the queued closures (at once in the base loop) the connection keeps the
  contract of conn_client with the callbacks the server was given, has left CONNECTING, watches its
  descriptor for input, and is a new entry of the table, under its id, beside all the old ones.  The
  ids up to the counter may be in use and the counter is not at its last value; of the server after
  it this holds again.  The only faults are those of the connected callback.
\<close>

theorem new_connection_ready:
  assumes "NextLoop (srv_pool srv) = Inr (l, q)" and "fresh_in h (view l) a fd"
    and "srv_message_cb srv \<noteq> None" and "timeout_ok srv"
    and "\<forall>i > next_id srv. conns srv i = None" and "next_id srv < - 1"
    and "\<forall>t. conn_inv (\<lambda>u. u = srv_user x srv) t \<longrightarrow> step_ok P E t (call_if call (srv_connected_cb srv) t)"
  shows "case accept_in_loop call removed view x a fd srv of Inl e \<Rightarrow> e \<in> E
    | Inr (c, srv') \<Rightarrow> conn_inv P c \<and> CONNECTED \<le> statu c \<and> conn_id c = next_id srv + 1
        \<and> next_id srv' = next_id srv + 1 \<and> srv_pool srv' = q
        \<and> conns srv (conn_id c) = None \<and> conns srv' = (conns srv)(conn_id c \<mapsto> a)
        \<and> (\<forall>i > next_id srv'. conns srv' i = None)
        \<and> (\<exists>m ev. interest (ctl_calls (loop_poller c)) (\<lambda>_. None) = Some m \<and> m fd = Some ev \<and> ev AND EPOLLIN \<noteq> 0)"
proof -
  have up: "next_id srv < next_id srv + 1"
    using assms(6) by uint_arith
  then have fresh: "conns srv (next_id srv + 1) = None" "\<forall>i > next_id srv + 1. conns srv i = None"
    using assms(5) by (auto intro: less_trans)
  have watch: "\<exists>m ev. interest (ctl_calls (loop_poller c)) (\<lambda>_. None) = Some m \<and> m (conn_fd c) = Some ev \<and> ev AND EPOLLIN \<noteq> 0"
    if c: "conn_inv P c" "ReadAble (conn_channel c)" for c
  proof -
    have "ch_events (conn_channel c) AND EPOLLIN \<noteq> 0" using c(2) by (simp add: ReadAble_def)
    moreover from this have "ch_events (conn_channel c) \<noteq> 0" by auto
    ultimately show ?thesis using armed_in_kernel[OF conn_invD[OF c(1)]] by blast
  qed
  from accept_ok[where call = call and removed = removed and view = view and h = h and P = P and E = E and x = x, OF assms(1-4)] assms(7)
  have "case accept_in_loop call removed view x a fd srv of Inl e \<Rightarrow> e \<in> E
    | Inr (c, srv') \<Rightarrow> conn_inv P c \<and> CONNECTED \<le> statu c \<and> ReadAble (conn_channel c)
        \<and> conn_id c = next_id srv + 1 \<and> conn_fd c = fd \<and> next_id srv' = next_id srv + 1 \<and> srv_pool srv' = q
        \<and> conns srv' = (if conns srv (conn_id c) = None then (conns srv)(conn_id c \<mapsto> a) else conns srv)" by blast
  then show ?thesis using watch fresh by (auto split: sum.splits)
qed

theorem new_connection_ready_witness:
  "case accept_in_loop (\<lambda>_. Inr) () (\<lambda>_. (Poller_new, TimerWheel_new)) () 7 5 example_server of Inl e \<Rightarrow> e \<in> {}
    | Inr (c, srv') \<Rightarrow> conn_inv (\<lambda>_. True) c \<and> CONNECTED \<le> statu c \<and> conn_id c = next_id example_server + 1
        \<and> next_id srv' = next_id example_server + 1 \<and> srv_pool srv' = \<lparr>thread_count = 2, next_idx = 1, baseloop = 0, loops = [1, 2]\<rparr>
        \<and> conns example_server (conn_id c) = None \<and> conns srv' = (conns example_server)(conn_id c \<mapsto> 7)
        \<and> (\<forall>i > next_id srv'. conns srv' i = None)
        \<and> (\<exists>m ev. interest (ctl_calls (loop_poller c)) (\<lambda>_. None) = Some m \<and> m 5 = Some ev \<and> ev AND EPOLLIN \<noteq> 0)"
proof (rule new_connection_ready)
  show "NextLoop (srv_pool example_server) = Inr (2, \<lparr>thread_count = 2, next_idx = 1, baseloop = 0, loops = [1, 2]\<rparr>)"
    by (simp add: example_server_eq NextLoop_def signed_modulo_int_def signed_divide_int_def)
  show "fresh_in (\<lambda>_. None) (Poller_new, TimerWheel_new) 7 5"
    by (simp add: fresh_in_def poller_wf_new wheel_wf_new)
  show "next_id example_server < - 1" unfolding example_server_eq by (simp add: word_gt_0)
qed (simp_all add: example_server_eq timeout_ok_def call_if_def conn_inv_def split: option.split)

text \<open>
  C21. The server's table is a table of live connections.  Any run of the server in its base loop with
  worker loops (accepting connections, releases reported from any thread, timers asked for from
  any thread, rounds of the task queue) with fewer than 2^31 ids does what the specification does:
  every connection and every timer gets a number of its own, an accepted connection stays in the
  table until its removal has run and no longer, no other entry is touched, and nothing faults.
\<close>

theorem server_table_refines:
  assumes "srv_wf s" and "all_ok srv_spec srv_ok ops (srv_abs s)"
  shows "\<exists>s' outs. run_steps (srv_step call removed view x) ops s = Inr (s', outs)
     \<and> srv_wf s' \<and> spec_run srv_spec ops (srv_abs s) outs (srv_abs s')"
  by (rule srv_table.run_simulates[OF assms])

theorem server_table_refines_witness:
  "\<exists>s' outs. run_steps (srv_step (\<lambda>_. Inr) () (\<lambda>_. (Poller_new, TimerWheel_new)) ())
       [Accepted 7 5, Timer_asked False ''log'' 3, Accepted 8 6, Released False (example_conn\<lparr>conn_id := 1\<rparr>), Run_queue]
       (example_server, TimerWheel_new) = Inr (s', outs)
     \<and> srv_wf s' \<and> spec_run srv_spec [Accepted 7 5, Timer_asked False ''log'' 3, Accepted 8 6,
         Released False (example_conn\<lparr>conn_id := 1\<rparr>), Run_queue]
       (srv_abs (example_server, TimerWheel_new)) outs (srv_abs s')"
  by (rule server_table_refines[OF example_server_wf])
     (simp add: srv_abs_def example_server_eq int_ids_def)

text \<open>
  Where that ends: Id returns an int, so a connection's removal finds its own entry exactly when
  its id is below 2^31 (or within 2^31 of 2^64).  From the 2^31-th id on released connections stay in
  the table, and after 2^32 a release removes the entry of the live connection with the same low bits.
\<close>

theorem remove_connection_bounds:
  assumes "conns srv (conn_id c) = Some a"
  shows "(conns (RemoveConnectionInLoop c srv) (conn_id c) = None
       \<longleftrightarrow> uint (conn_id c) < 2 ^ 31 \<or> 2 ^ 64 - 2 ^ 31 \<le> uint (conn_id c))
     \<and> (\<forall>i. i \<noteq> (of_int (sint (ucast (conn_id c) :: u32)) :: u64) \<longrightarrow>
          conns (RemoveConnectionInLoop c srv) i = conns srv i)"
  unfolding id_back_iff[symmetric] using assms
  by (auto simp: RemoveConnectionInLoop_def Conn_Id_def Let_def simp del: of_int_sint)

theorem remove_connection_bounds_witness:
  defines "srv \<equiv> example_server\<lparr>conns := [2 ^ 32 + 5 \<mapsto> 1, 5 \<mapsto> 2]\<rparr>" and "c \<equiv> example_conn\<lparr>conn_id := 2 ^ 32 + 5\<rparr>"
  shows "conns (RemoveConnectionInLoop c srv) (2 ^ 32 + 5) = Some 1 \<and> conns (RemoveConnectionInLoop c srv) 5 = None"
proof -
  have id: "conn_id c = 2 ^ 32 + 5" by (simp add: c_def)
  have at: "conns srv (conn_id c) = Some 1" by (simp add: srv_def c_def)
  have "\<not> (uint (conn_id c) < 2 ^ 31 \<or> 2 ^ 64 - 2 ^ 31 \<le> uint (conn_id c))" by (simp add: c_def)
  with remove_connection_bounds[OF at] have "conns (RemoveConnectionInLoop c srv) (conn_id c) \<noteq> None" by blast
  moreover have "conns (RemoveConnectionInLoop c srv) (2 ^ 32 + 5) \<in> {None, Some 1} \<and> conns (RemoveConnectionInLoop c srv) 5 = None"
    by (simp add: RemoveConnectionInLoop_def Conn_Id_def srv_def c_def Let_def)
  ultimately show ?thesis unfolding id by (simp only: insert_iff empty_iff simp_thms)
qed

end
