(* ===== verification/HttpServerModel.thy ===== *)
theory HttpServerModel
  imports HttpContextModel TcpServerModel
begin

text \<open>
  The class HttpServer of source/http.hpp on top of Connection: error pages, the response text, the
  static files, the routing tables and the message callback that answers every request in the
  input buffer.  Handlers are functions; a compiled std::regex is its expression tree; the order in
  which an unordered_map is iterated is a parameter \<open>order\<close>; the file system is that of UrlUtil.
\<close>

section \<open>State\<close>

type_synonym handler = "http_request \<Rightarrow> http_response \<Rightarrow> fault + http_response"
type_synonym handlers = "(rx \<times> handler) list"

record http_server =
  get_route :: handlers
  post_route :: handlers
  put_route :: handlers
  delete_route :: handlers
  basedir :: string

definition HttpServer_new :: http_server where
  "HttpServer_new = \<lparr>get_route = [], post_route = [], put_route = [], delete_route = [], basedir = []\<rparr>"

definition SetBaseDir :: "file_system \<Rightarrow> string \<Rightarrow> http_server \<Rightarrow> fault + http_server" where
  "SetBaseDir fs path srv =
     (if \<not> IsDirectory fs path then Inl AssertFailed else Inr (srv\<lparr>basedir := path\<rparr>))"

definition Get :: "rx \<Rightarrow> handler \<Rightarrow> http_server \<Rightarrow> http_server" where
  "Get pattern h srv = srv\<lparr>get_route := get_route srv @ [(pattern, h)]\<rparr>"

definition Post :: "rx \<Rightarrow> handler \<Rightarrow> http_server \<Rightarrow> http_server" where
  "Post pattern h srv = srv\<lparr>post_route := post_route srv @ [(pattern, h)]\<rparr>"

definition Put :: "rx \<Rightarrow> handler \<Rightarrow> http_server \<Rightarrow> http_server" where
  "Put pattern h srv = srv\<lparr>put_route := put_route srv @ [(pattern, h)]\<rparr>"

definition Delete :: "rx \<Rightarrow> handler \<Rightarrow> http_server \<Rightarrow> http_server" where
  "Delete pattern h srv = srv\<lparr>delete_route := delete_route srv @ [(pattern, h)]\<rparr>"

section \<open>Responses\<close>

definition ErrorHandler :: "http_request \<Rightarrow> http_response \<Rightarrow> http_response" where
  "ErrorHandler req rsp =
     SetContent (''<html>'' @ ''<head>''
       @ ''<meta http-equiv='' @ [CHR 0x27] @ ''Content-Type'' @ [CHR 0x27] @ '' content='' @ [CHR 0x27]
       @ ''text/html;charset=utf-8'' @ [CHR 0x27] @ ''>''
       @ ''</head>'' @ ''<body>'' @ ''<h1>'' @ to_string (rs_statu rsp) @ '' '' @ StatuDesc (rs_statu rsp)
       @ ''</h1>'' @ ''</body>'' @ ''</html>'') ''text/html'' rsp"

text \<open>The header fields WriteReponse adds, and the text it sends.\<close>

definition complete_response :: "http_request \<Rightarrow> http_response \<Rightarrow> http_response" where
  "complete_response req rsp =
     (let rsp = (if Request_Close req then rs_SetHeader ''Connection'' ''close'' rsp
                 else rs_SetHeader ''Connection'' ''keep-alive'' rsp);
          rsp = (if rs_body rsp \<noteq> [] \<and> \<not> rs_HasHeader ''Content-Length'' rsp
                 then rs_SetHeader ''Content-Length'' (to_string (int (length (rs_body rsp)))) rsp else rsp);
          rsp = (if rs_body rsp \<noteq> [] \<and> \<not> rs_HasHeader ''Content-Type'' rsp
                 then rs_SetHeader ''Content-Type'' ''application/octet-stream'' rsp else rsp) in
      if rs_redirect_flag rsp then rs_SetHeader ''Location'' (rs_redirect_url rsp) rsp else rsp)"

definition response_text :: "(str_map \<Rightarrow> str_map) \<Rightarrow> http_request \<Rightarrow> http_response \<Rightarrow> string" where
  "response_text order req rsp =
     rq_version req @ '' '' @ to_string (rs_statu rsp) @ '' '' @ StatuDesc (rs_statu rsp) @ crlf
     @ concat (map (\<lambda>(k, v). k @ '': '' @ v @ crlf) (order (rs_headers rsp)))
     @ crlf @ rs_body rsp"

text \<open>The callbacks set on the connections: those of the HTTP server, and the TCP server's removal.\<close>

datatype http_callback = Cb_connected | Cb_message | Cb_removed

type_synonym http_conn = "(http_callback, http_context option) connection"

definition WriteReponse :: "(str_map \<Rightarrow> str_map) \<Rightarrow> (http_callback \<Rightarrow> http_conn \<Rightarrow> fault + http_conn)
    \<Rightarrow> http_request \<Rightarrow> http_response \<Rightarrow> http_conn \<Rightarrow> fault + (http_response \<times> http_conn)" where
  "WriteReponse order call req rsp s =
     (let rsp = complete_response req rsp; rsp_str = response_text order req rsp in
      if length rsp_str > max_size then Inl LengthError
      else and_then (Conn_Send call True rsp_str s) (\<lambda>s. Inr (rsp, s)))"

section \<open>Routing\<close>

text \<open>\<open>req._path.back()\<close> on an empty path is undefined.\<close>

definition file_path :: "http_server \<Rightarrow> http_request \<Rightarrow> fault + string" where
  "file_path srv req =
     (if rq_path req = [] then Inl OutOfBounds
      else if last (rq_path req) = CHR ''/'' then Inr (basedir srv @ rq_path req @ ''index.html'')
      else Inr (basedir srv @ rq_path req))"

definition IsFileHandler :: "file_system \<Rightarrow> http_server \<Rightarrow> http_request \<Rightarrow> fault + bool" where
  "IsFileHandler fs srv req =
     (if basedir srv = [] then Inr False
      else if rq_method req \<noteq> ''GET'' \<and> rq_method req \<noteq> ''HEAD'' then Inr False
      else if ValidPath (rq_path req) \<noteq> Some True then Inr False
      else and_then (file_path srv req) (\<lambda>req_path. Inr (IsRegular fs req_path)))"

definition FileHandler :: "file_system \<Rightarrow> http_server \<Rightarrow> http_request \<Rightarrow> http_response \<Rightarrow> fault + http_response" where
  "FileHandler fs srv req rsp =
     and_then (file_path srv req) (\<lambda>req_path.
       case ReadFile fs req_path (rs_body rsp) of (ret, body) \<Rightarrow>
       let rsp = rsp\<lparr>rs_body := body\<rparr> in
       if \<not> ret then Inr rsp else Inr (rs_SetHeader ''Content-Type'' (ExtMime req_path) rsp))"

text \<open>\<open>std::regex_match(path, matches, re)\<close>: the whole match and the groups; no match empties them.\<close>

fun groups :: "rx \<Rightarrow> nat" where
  "groups (Seq a b) = max (groups a) (groups b)"
| "groups (Alt a b) = max (groups a) (groups b)"
| "groups (Opt a) = groups a"
| "groups (Group n a) = max n (groups a)"
| "groups _ = 0"

definition submatches :: "rx \<Rightarrow> string \<Rightarrow> string list option" where
  "submatches r s = map_option (\<lambda>m. s # map (\<lambda>i. capture i m) [1..<Suc (groups r)]) (regex_match r s)"

fun Dispatcher :: "http_request \<Rightarrow> http_response \<Rightarrow> handlers \<Rightarrow> fault + (http_request \<times> http_response)" where
  "Dispatcher req rsp [] = Inr (req, rsp\<lparr>rs_statu := 404\<rparr>)"
| "Dispatcher req rsp ((re, functor) # hs) =
     (case submatches re (rq_path req) of
        None \<Rightarrow> Dispatcher (req\<lparr>rq_matches := []\<rparr>) rsp hs
      | Some ms \<Rightarrow> let req = req\<lparr>rq_matches := ms\<rparr> in
          and_then (functor req rsp) (\<lambda>rsp. Inr (req, rsp)))"

definition Route :: "file_system \<Rightarrow> http_server \<Rightarrow> http_request \<Rightarrow> http_response
    \<Rightarrow> fault + (http_request \<times> http_response)" where
  "Route fs srv req rsp =
     and_then (IsFileHandler fs srv req) (\<lambda>is_file.
       if is_file then and_then (FileHandler fs srv req rsp) (\<lambda>rsp. Inr (req, rsp))
       else if rq_method req = ''GET'' \<or> rq_method req = ''HEAD'' then Dispatcher req rsp (get_route srv)
       else if rq_method req = ''POST'' then Dispatcher req rsp (post_route srv)
       else if rq_method req = ''PUT'' then Dispatcher req rsp (put_route srv)
       else if rq_method req = ''DELETE'' then Dispatcher req rsp (delete_route srv)
       else Inr (req, rsp\<lparr>rs_statu := 405\<rparr>))"

section \<open>The callbacks\<close>

definition OnConnected :: "http_conn \<Rightarrow> http_conn" where
  "OnConnected s = SetContext (Some HttpContext_new) s"

text \<open>
  OnMessage loops over the requests in the buffer; Shutdown, called inside it, runs ShutdownInLoop at
  once, which calls the message callback again while there is input.  One unit of fuel covers one
  round of the loop and one nested call: a round that goes on has taken a request off the buffer,
  so the number of bytes in it is enough fuel.  An empty Any is None, and reading it is undefined.
  \<open>remove\<close> is what the TCP server does when a connection is released.
\<close>

definition buffer_of :: "http_conn \<Rightarrow> buffer \<Rightarrow> http_context \<Rightarrow> http_conn" where
  "buffer_of s b c = s\<lparr>in_buffer := b, conn_context := Some c\<rparr>"

fun OnMessage :: "(str_map \<Rightarrow> str_map) \<Rightarrow> file_system \<Rightarrow> http_server \<Rightarrow> (http_conn \<Rightarrow> fault + http_conn)
    \<Rightarrow> nat \<Rightarrow> http_conn \<Rightarrow> fault + http_conn" where
  "OnMessage order fs srv remove 0 s = Inl OutOfFuel"
| "OnMessage order fs srv remove (Suc fuel) s =
     (let call = (\<lambda>k s. case k of Cb_connected \<Rightarrow> Inr (OnConnected s)
                    | Cb_message \<Rightarrow> OnMessage order fs srv remove fuel s | Cb_removed \<Rightarrow> remove s) in
      if \<not> ReadAbleSize (in_buffer s) > 0 then Inr s
      else case conn_context s of None \<Rightarrow> Inl NullDeref | Some context \<Rightarrow>
      and_then (RecvHttpRequest (in_buffer s) context) (\<lambda>(context, buffer).
        let s = buffer_of s buffer context; req = request context; rsp = HttpResponse_new (resp_statu context) in
        if resp_statu context \<ge> 400 then
          let rsp = ErrorHandler req rsp in
          and_then (WriteReponse order call req rsp s) (\<lambda>(rsp, s).
          and_then (MoveReadOffset (ReadAbleSize (in_buffer s)) (in_buffer s)) (\<lambda>buffer.
            Shutdown call True (buffer_of s buffer (HttpContext_ReSet context))))
        else if recv_statu context \<noteq> RECV_HTTP_OVER then Inr s
        else
          and_then (Route fs srv req rsp) (\<lambda>(req, rsp).
          and_then (WriteReponse order call req rsp s) (\<lambda>(rsp, s).
          let s = buffer_of s (in_buffer s) (HttpContext_ReSet context) in
          and_then (if Response_Close rsp then Shutdown call True s else Inr s)
            (OnMessage order fs srv remove fuel)))))"

declare OnMessage.simps(2) [simp del]

text \<open>The settings the constructor makes on its TcpServer.\<close>

definition HttpServer_tcp :: "int \<Rightarrow> (http_callback, http_context option, 't, 'l) tcp_server
    \<Rightarrow> (http_callback, http_context option, 't, 'l) tcp_server" where
  "HttpServer_tcp timeout tcp =
     Srv_SetMessageCallback (Some Cb_message) (Srv_SetConnectedCallback (Some Cb_connected)
       (Srv_EnableInactiveRelease timeout tcp))"

definition Http_SetThreadCount :: "int \<Rightarrow> (http_callback, http_context option, 't, 'l) tcp_server
    \<Rightarrow> (http_callback, http_context option, 't, 'l) tcp_server" where
  "Http_SetThreadCount count tcp = Srv_SetThreadCount count tcp"

definition Http_Listen :: "(nat \<Rightarrow> 'l) \<Rightarrow> (http_callback, http_context option, 't, 'l) tcp_server
    \<Rightarrow> (http_callback, http_context option, 't, 'l) tcp_server" where
  "Http_Listen started tcp = Srv_Start started tcp"

text \<open>The message callback with fuel for the bytes in the buffer.\<close>

definition http_call :: "(str_map \<Rightarrow> str_map) \<Rightarrow> file_system \<Rightarrow> http_server \<Rightarrow> (http_conn \<Rightarrow> fault + http_conn)
    \<Rightarrow> http_callback \<Rightarrow> http_conn \<Rightarrow> fault + http_conn" where
  "http_call order fs srv remove k s = (case k of
       Cb_connected \<Rightarrow> Inr (OnConnected s)
     | Cb_message \<Rightarrow> OnMessage order fs srv remove (Suc (unat (ReadAbleSize (in_buffer s)))) s
     | Cb_removed \<Rightarrow> remove s)"

end
