(* ===== verification/HttpServing.thy ===== *)
theory HttpServing
  imports HttpServerModel
begin

text \<open>
  The HTTP server over a connection: every round of its message loop makes progress, the fuel of the
  model is enough, and the callbacks keep the contract of a connection's client.
\<close>

section \<open>Reception makes progress\<close>

text \<open>A context between two calls of the message callback: a request in progress, nothing wrong yet.\<close>

definition ctx_rest :: "http_context \<Rightarrow> bool" where
  "ctx_rest c \<longleftrightarrow> context_wf c \<and> resp_statu c = 200 \<and> (case recv_statu c of
       RECV_HTTP_LINE \<Rightarrow> True | RECV_HTTP_HEAD \<Rightarrow> True
     | RECV_HTTP_BODY \<Rightarrow> (\<exists>n. ContentLength (request c) = Inr n \<and> length (rq_body (request c)) < unat n)
     | _ \<Rightarrow> False)"

lemma ctx_rest_new: "ctx_rest HttpContext_new" "ctx_rest (HttpContext_ReSet c)"
  using context_wf_new by (simp_all add: ctx_rest_def HttpContext_new_def HttpContext_ReSet_def)

lemma query_params_resp: "query_params strs c = (c', r) \<Longrightarrow> resp_statu c' = (if r then resp_statu c else 400)"
  by (induction strs arbitrary: c) (auto simp: Let_def split: option.splits)

lemma ParseHttpLine_resp: "ParseHttpLine line c = Inr (c', r) \<Longrightarrow> resp_statu c' = (if r then resp_statu c else 400)"
  by (auto simp: ParseHttpLine_def Let_def split: option.splits dest!: query_params_resp)

lemma ParseHttpHead_resp: "ParseHttpHead line c = Inr (c', r) \<Longrightarrow> resp_statu c' = (if r then resp_statu c else 400)"
  by (auto simp: ParseHttpHead_def and_then_eq_Inr split: option.splits)

lemma bytes_line_progress:
  assumes run: "bytes_line s c = Inr (c', s')" and st: "recv_statu c = RECV_HTTP_LINE" "resp_statu c = 200"
  shows "suffix s' s \<and> (resp_statu c' \<ge> 400 \<and> recv_statu c' = RECV_HTTP_ERROR \<or> c' = c
     \<or> recv_statu c' = RECV_HTTP_HEAD \<and> resp_statu c' = 200 \<and> length s' < length s)"
proof (cases "first_line s = []")
  case True
  then show ?thesis using run by (auto simp: bytes_line_def Let_def split: if_splits)
next
  case False
  then have "s \<noteq> []" "0 < length (first_line s)" by (auto simp: first_line_def)
  then have less: "length (drop (length (first_line s)) s) < length s" by simp
  show ?thesis
  proof (cases "length (first_line s) > MAX_LINE")
    case True
    then show ?thesis using False run by (auto simp: bytes_line_def Let_def suffix_drop)
  next
    case short: False
    with False run obtain d r where d: "ParseHttpLine (first_line s) c = Inr (d, r)"
      "c' = (if r then d\<lparr>recv_statu := RECV_HTTP_HEAD\<rparr> else d)" "s' = drop (length (first_line s)) s"
      by (auto simp: bytes_line_def Let_def and_then_eq_Inr)
    then show ?thesis
      using st less ParseHttpLine_keeps[OF d(1)] ParseHttpLine_resp[OF d(1)] by (simp add: suffix_drop)
  qed
qed

lemma bytes_head_progress:
  "bytes_head s c = Inr (c', s') \<Longrightarrow> recv_statu c = RECV_HTTP_HEAD \<Longrightarrow> resp_statu c = 200 \<Longrightarrow>
   suffix s' s \<and> (resp_statu c' \<ge> 400 \<and> recv_statu c' = RECV_HTTP_ERROR
     \<or> recv_statu c' = RECV_HTTP_HEAD \<and> resp_statu c' = 200
     \<or> recv_statu c' = RECV_HTTP_BODY \<and> resp_statu c' = 200 \<and> length s' < length s)"
proof (induction s c rule: bytes_head.induct)
  case (1 s c)
  let ?l = "first_line s" and ?r = "drop (length (first_line s)) s"
  have sub: "suffix ?r s" by (rule suffix_drop)
  have less: "?l \<noteq> [] \<Longrightarrow> length ?r < length s" by (cases s) (auto simp: first_line_def)
  show ?case
  proof (cases "?l = [] \<or> length ?l > MAX_LINE \<or> ?l = [CHR 0x0A] \<or> ?l = [CHR 0x0D, CHR 0x0A]")
    case True
    then show ?thesis using 1(2-4) sub less by (auto simp: bytes_head.simps[of s c] Let_def split: if_splits)
  next
    case False
    then obtain d r where d: "ParseHttpHead ?l c = Inr (d, r)"
      using 1(2) by (auto simp: bytes_head.simps[of s c] Let_def and_then_eq_Inr)
    note K = ParseHttpHead_keeps[OF d] ParseHttpHead_resp[OF d]
    show ?thesis
    proof (cases r)
      case True
      with False 1(2) d have "bytes_head ?r d = Inr (c', s')" by (simp add: bytes_head.simps[of s c] Let_def)
      with 1(1)[OF refl refl _ _ _ d refl True] False 1(3,4) K True
      have "suffix s' ?r \<and> (resp_statu c' \<ge> 400 \<and> recv_statu c' = RECV_HTTP_ERROR
         \<or> recv_statu c' = RECV_HTTP_HEAD \<and> resp_statu c' = 200
         \<or> recv_statu c' = RECV_HTTP_BODY \<and> resp_statu c' = 200 \<and> length s' < length ?r)" by auto
      moreover have "length ?r < length s" using less False by blast
      ultimately show ?thesis using suffix_order.trans[OF _ sub, of s'] by auto
    next
      case no: False
      then show ?thesis using 1(2) d K False sub by (auto simp: bytes_head.simps[of s c] Let_def)
    qed
  qed
qed

lemma bytes_body_progress:
  assumes run: "bytes_body s c = Inr (c', s')" and st: "recv_statu c = RECV_HTTP_BODY" "resp_statu c = 200"
    and wf: "context_wf c"
  shows "suffix s' s \<and> resp_statu c' = 200
     \<and> (recv_statu c' = RECV_HTTP_OVER \<and> (length s' < length s \<or> ContentLength (request c) = Inr 0) \<or> ctx_rest c')"
proof -
  from run obtain cl where cl: "ContentLength (request c) = Inr cl" by (auto simp: bytes_body_def and_then_eq_Inr)
  have same: "ContentLength ((request c)\<lparr>rq_body := b\<rparr>) = Inr cl" for b
    using cl ContentLength_cong[of "(request c)\<lparr>rq_body := b\<rparr>" "request c"] by simp
  have wf': "context_wf c'" by (rule bytes_body_keeps[OF run st(1) wf])
  show ?thesis
  proof (cases "cl = 0")
    case True
    then show ?thesis using run cl st by (auto simp: bytes_body_def)
  next
    case False
    then have less: "length (rq_body (request c)) < unat cl"
      using wf st cl unat_gt_0[of cl] by (auto simp: context_wf_def)
    then show ?thesis
      using run cl st False same wf' by (auto simp: bytes_body_def Let_def suffix_drop ctx_rest_def split: if_splits)
  qed
qed

text \<open>
  One call of RecvHttpRequest on a context at rest: it reports an error, it completes a request and
  uses at least one byte, or it waits for more.
\<close>

lemma recv_bytes_progress:
  assumes run: "recv_bytes s c = Inr (c', s')" and c: "ctx_rest c"
  shows "suffix s' s \<and> (resp_statu c' \<ge> 400 \<and> recv_statu c' = RECV_HTTP_ERROR
     \<or> resp_statu c' = 200 \<and> recv_statu c' = RECV_HTTP_OVER \<and> length s' < length s
     \<or> ctx_rest c')"
proof -
  from run obtain c1 s1 c2 s2 where
    1: "bytes_rest bytes_line RECV_HTTP_LINE (c, s) = Inr (c1, s1)" and
    2: "bytes_rest bytes_head RECV_HTTP_HEAD (c1, s1) = Inr (c2, s2)" and
    3: "bytes_rest bytes_body RECV_HTTP_BODY (c2, s2) = Inr (c', s')"
    by (auto simp: recv_bytes_def and_then_eq_Inr)
  have wf: "context_wf c" "resp_statu c = 200" using c by (simp_all add: ctx_rest_def)
  have wf1: "context_wf c1"
    using 1 wf(1) bytes_line_keeps[of s c c1 s1] by (auto simp: bytes_rest_def context_wf_def split: if_splits)
  have wf2: "context_wf c2"
    using 2 wf1 bytes_head_keeps[of s1 c1 c2 s2] by (auto simp: bytes_rest_def context_wf_def split: if_splits)
  have A: "suffix s1 s \<and> (resp_statu c1 \<ge> 400 \<and> recv_statu c1 = RECV_HTTP_ERROR \<or> c1 = c
     \<or> recv_statu c1 = RECV_HTTP_HEAD \<and> resp_statu c1 = 200 \<and> length s1 < length s)"
    using 1 bytes_line_progress[of s c c1 s1] wf(2) by (auto simp: bytes_rest_def split: if_splits)
  have B: "suffix s2 s1 \<and> (resp_statu c2 \<ge> 400 \<and> recv_statu c2 = RECV_HTTP_ERROR \<or> c2 = c
     \<or> recv_statu c2 = RECV_HTTP_HEAD \<and> resp_statu c2 = 200
     \<or> recv_statu c2 = RECV_HTTP_BODY \<and> resp_statu c2 = 200 \<and> length s2 < length s)"
    using 2 A bytes_head_progress[of s1 c1 c2 s2] wf(2) suffix_length_le[of s1 s] by (auto simp: bytes_rest_def split: if_splits)
  have sub: "suffix s2 s" using A B suffix_order.trans by blast
  show ?thesis
  proof (cases "recv_statu c2 = RECV_HTTP_BODY")
    case True
    then have "bytes_body s2 c2 = Inr (c', s')" using 3 by (simp add: bytes_rest_def)
    moreover have "resp_statu c2 = 200" using B True wf(2) by auto
    ultimately have C: "suffix s' s2 \<and> resp_statu c' = 200
      \<and> (recv_statu c' = RECV_HTTP_OVER \<and> (length s' < length s2 \<or> ContentLength (request c2) = Inr 0) \<or> ctx_rest c')"
      using bytes_body_progress[OF _ True _ wf2] by blast
    have "ContentLength (request c2) \<noteq> Inr 0 \<or> length s2 < length s"
      using B True c by (auto simp: ctx_rest_def)
    then have "recv_statu c' = RECV_HTTP_OVER \<Longrightarrow> length s' < length s \<or> ctx_rest c'"
      using C suffix_length_le[of s' s2] suffix_length_le[OF sub] by auto
    then show ?thesis using C sub suffix_order.trans[of s' s2 s] by blast
  next
    case False
    then have "c' = c2" "s' = s2" using 3 by (auto simp: bytes_rest_def)
    then show ?thesis using B False sub wf2 c by (auto simp: ctx_rest_def)
  qed
qed

lemma recv_request_progress:
  assumes b: "buf_wf b" and c: "ctx_rest c"
  shows "case RecvHttpRequest b c of Inl e \<Rightarrow> e \<in> {InvalidArgument, OutOfRange, LengthError}
     | Inr (c', b') \<Rightarrow> buf_wf b' \<and> suffix (content b') (content b)
         \<and> (resp_statu c' \<ge> 400 \<or> resp_statu c' = 200 \<and> recv_statu c' = RECV_HTTP_OVER \<and> length (content b') < length (content b)
            \<or> ctx_rest c')"
proof -
  have wf: "context_wf c" using c by (simp add: ctx_rest_def)
  note sim = RecvHttpRequest_sim[OF b wf]
  show ?thesis
  proof (cases "recv_bytes (content b) c")
    case (Inl e)
    with sim recv_bytes_faults[OF Inl] show ?thesis by auto
  next
    case (Inr r)
    obtain c' s' where r: "r = (c', s')" by force
    from sim Inr r obtain b' where "RecvHttpRequest b c = Inr (c', b')" "buf_wf b'" "content b' = s'" by auto
    with recv_bytes_progress[OF Inr[unfolded r] c] show ?thesis by auto
  qed
qed

section \<open>The message callback keeps the contract\<close>

lemma WriteReponse_does:
  assumes s: "conn_inv (\<lambda>_. True) s"
  shows "WriteReponse order call req rsp s = Inl LengthError \<or>
    (\<exists>t. WriteReponse order call req rsp s = Inr (complete_response req rsp, t) \<and> conn_inv (\<lambda>_. True) t \<and> conn_le s t
       \<and> in_buffer t = in_buffer s \<and> user_part t = user_part s
       \<and> submitted t = submitted s @ response_text order req (complete_response req rsp) \<and> statu t = statu s
       \<and> received_bytes t = received_bytes s)"
proof (cases "length (response_text order req (complete_response req rsp)) \<le> max_size")
  case True
  from Conn_Send_does[OF s True, of call] True show ?thesis by (auto simp: WriteReponse_def Let_def)
qed (simp add: WriteReponse_def Let_def)

text \<open>What holds of an HTTP connection's user part between events, and of the handlers.\<close>

definition http_user :: "(http_callback, http_context option) user_part \<Rightarrow> bool" where
  "http_user = (\<lambda>(x, conn, msg, ev). (\<exists>c. x = Some c \<and> ctx_rest c)
     \<and> conn = Some Cb_connected \<and> msg = Some Cb_message \<and> ev = None)"

definition handlers_ok :: "fault set \<Rightarrow> http_server \<Rightarrow> bool" where
  "handlers_ok E srv \<longleftrightarrow> (\<forall>(re, h) \<in> set (get_route srv @ post_route srv @ put_route srv @ delete_route srv).
     \<forall>req rsp e. h req rsp = Inl e \<longrightarrow> e \<in> E)"

text \<open>The faults of the server's own code: string and number limits, and \<open>back()\<close> of an empty path.\<close>

definition http_faults :: "fault set" where
  "http_faults = {LengthError, InvalidArgument, OutOfRange, OutOfBounds}"

lemma Dispatcher_faults: "Dispatcher req rsp hs = Inl e \<Longrightarrow> \<exists>(re, h) \<in> set hs. \<exists>req rsp. h req rsp = Inl e"
proof (induction hs arbitrary: req)
  case (Cons rh hs)
  obtain re h where rh: "rh = (re, h)" by force
  show ?case
  proof (cases "submatches re (rq_path req)")
    case None
    with Cons show ?thesis by (fastforce simp: rh)
  next
    case (Some ms)
    with Cons.prems have "h (req\<lparr>rq_matches := ms\<rparr>) rsp = Inl e" by (auto simp: rh Let_def and_then_eq_Inl)
    then show ?thesis by (auto simp: rh)
  qed
qed simp

lemma FileHandler_fault: "FileHandler fs srv req rsp = Inl e \<Longrightarrow> file_path srv req = Inl e"
  by (cases "file_path srv req") (auto simp: FileHandler_def Let_def split_beta split: if_splits)

lemma Route_faults:
  assumes "Route fs srv req rsp = Inl e" "handlers_ok E srv" "http_faults \<subseteq> E"
  shows "e \<in> E"
proof -
  have bad_path: "file_path srv req = Inl e \<Longrightarrow> e \<in> E" using assms(3) by (auto simp: file_path_def http_faults_def split: if_splits)
  have handler: "Dispatcher req rsp hs = Inl e \<Longrightarrow> e \<in> E"
    if "set hs \<subseteq> set (get_route srv @ post_route srv @ put_route srv @ delete_route srv)" for hs
    using Dispatcher_faults[of req rsp hs e] assms(2) that unfolding handlers_ok_def by fastforce
  show ?thesis
    using assms(1) bad_path handler
    by (auto simp: Route_def and_then_eq_Inl IsFileHandler_def split: if_splits dest: FileHandler_fault)
qed

text \<open>The call environment inside OnMessage.\<close>

definition fuel_call :: "(str_map \<Rightarrow> str_map) \<Rightarrow> file_system \<Rightarrow> http_server \<Rightarrow> (http_conn \<Rightarrow> fault + http_conn)
    \<Rightarrow> nat \<Rightarrow> http_callback \<Rightarrow> http_conn \<Rightarrow> fault + http_conn" where
  "fuel_call order fs srv remove fuel k s = (case k of Cb_connected \<Rightarrow> Inr (OnConnected s)
     | Cb_message \<Rightarrow> OnMessage order fs srv remove fuel s | Cb_removed \<Rightarrow> remove s)"

lemma fuel_call_eq:
  "(\<lambda>k s. case k of Cb_connected \<Rightarrow> Inr (OnConnected s) | Cb_message \<Rightarrow> OnMessage order fs srv remove fuel s
      | Cb_removed \<Rightarrow> remove s) = fuel_call order fs srv remove fuel"
  by (intro ext) (simp add: fuel_call_def)

lemmas OnMessage_Suc = OnMessage.simps(2)[unfolded fuel_call_eq Let_def]

definition msg_ok :: "fault set \<Rightarrow> http_conn \<Rightarrow> fault + http_conn \<Rightarrow> bool" where
  "msg_ok E s m \<longleftrightarrow> step_ok http_user E s m
     \<and> (\<forall>t. m = Inr t \<longrightarrow> length (content (in_buffer t)) \<le> length (content (in_buffer s)))"

lemma msg_ok_from:
  "conn_le s t \<Longrightarrow> length (content (in_buffer t)) \<le> length (content (in_buffer s)) \<Longrightarrow> msg_ok E t m \<Longrightarrow> msg_ok E s m"
  by (auto simp: msg_ok_def intro: step_ok_from)

lemma msg_ok_then:
  assumes m: "msg_ok E s m" and f: "\<And>t. conn_inv http_user t \<Longrightarrow>
      length (content (in_buffer t)) \<le> length (content (in_buffer s)) \<Longrightarrow> msg_ok E t (f t)"
  shows "msg_ok E s (and_then m f)"
proof (cases m)
  case (Inr t)
  with m have "conn_inv http_user t" "conn_le s t" "length (content (in_buffer t)) \<le> length (content (in_buffer s))"
    by (auto simp: msg_ok_def)
  from msg_ok_from[OF this(2,3) f[OF this(1,3)]] Inr show ?thesis by simp
qed (use m in \<open>simp add: msg_ok_def\<close>)

lemma Shutdown_msg_ok:
  assumes s: "conn_inv http_user s"
    and call: "content (in_buffer s) \<noteq> [] \<Longrightarrow> msg_ok E (s\<lparr>statu := DISCONNECTING\<rparr>) (call Cb_message (s\<lparr>statu := DISCONNECTING\<rparr>))"
  shows "msg_ok E s (Shutdown call True s)"
proof -
  let ?s = "s\<lparr>statu := DISCONNECTING\<rparr>"
  have cb: "call_if call (message_cb s) ?s = call Cb_message ?s"
    using conn_inv_context[OF s] by (simp add: http_user_def call_if_def)
  note s' = disconnecting_inv[OF s]
  have "msg_ok E ?s (if ReadAbleSize (in_buffer s) > 0 then call_if call (message_cb s) ?s else Inr ?s)"
    using call s' pending_iff[OF conn_coreD(1)[OF conn_invD[OF s]]] by (auto simp: cb msg_ok_def)
  then have "msg_ok E ?s (ShutdownInLoop call s)"
    unfolding ShutdownInLoop_tail by (rule msg_ok_then) (simp add: msg_ok_def shutdown_tail_inv)
  then show ?thesis
    using msg_ok_from[of s ?s] s' conn_coreD(6)[OF conn_invD[OF s]] by (simp add: Shutdown_in_loop)
qed

lemma buffer_of_inv:
  assumes s: "conn_inv P s" and b: "buf_wf b" "suffix (content b) (content (in_buffer s))"
  shows "conn_inv (\<lambda>_. True) (buffer_of s b c)" "conn_le s (buffer_of s b c)"
  using s b suffix_order.trans[OF b(2), of "received_bytes s"]
  by (simp_all add: conn_inv_def conn_core_def conn_le_def buffer_of_def)

lemma buffer_of_simps [simp]:
  "in_buffer (buffer_of s b c) = b" "conn_context (buffer_of s b c) = Some c" "submitted (buffer_of s b c) = submitted s"
  "connected_cb (buffer_of s b c) = connected_cb s" "message_cb (buffer_of s b c) = message_cb s"
  "any_event_cb (buffer_of s b c) = any_event_cb s" "statu (buffer_of s b c) = statu s"
  by (simp_all add: buffer_of_def)

lemma conn_inv_change: "conn_inv P s \<Longrightarrow> Q (user_part s) \<Longrightarrow> conn_inv Q s"
  by (simp add: conn_inv_def)

lemma http_userD:
  "conn_inv http_user s \<Longrightarrow> \<exists>c. conn_context s = Some c \<and> ctx_rest c"
  "conn_inv http_user s \<Longrightarrow> connected_cb s = Some Cb_connected \<and> message_cb s = Some Cb_message \<and> any_event_cb s = None"
  by (auto simp: conn_inv_def http_user_def)

text \<open>The two branches of a round that answer.\<close>

definition reply_error :: "(str_map \<Rightarrow> str_map) \<Rightarrow> (http_callback \<Rightarrow> http_conn \<Rightarrow> fault + http_conn)
    \<Rightarrow> http_context \<Rightarrow> http_conn \<Rightarrow> fault + http_conn" where
  "reply_error order call c s =
     and_then (WriteReponse order call (request c) (ErrorHandler (request c) (HttpResponse_new (resp_statu c))) s) (\<lambda>(rsp, s).
     and_then (MoveReadOffset (ReadAbleSize (in_buffer s)) (in_buffer s)) (\<lambda>b.
       Shutdown call True (buffer_of s b (HttpContext_ReSet c))))"

definition reply :: "(str_map \<Rightarrow> str_map) \<Rightarrow> file_system \<Rightarrow> http_server \<Rightarrow> (http_callback \<Rightarrow> http_conn \<Rightarrow> fault + http_conn)
    \<Rightarrow> http_context \<Rightarrow> http_conn \<Rightarrow> fault + http_conn" where
  "reply order fs srv call c s =
     and_then (Route fs srv (request c) (HttpResponse_new (resp_statu c))) (\<lambda>(req, rsp).
     and_then (WriteReponse order call req rsp s) (\<lambda>(rsp, s).
       let s = buffer_of s (in_buffer s) (HttpContext_ReSet c) in
       if Response_Close rsp then Shutdown call True s else Inr s))"

lemma OnMessage_round:
  assumes "ReadAbleSize (in_buffer s) > 0" and "conn_context s = Some c" and "RecvHttpRequest (in_buffer s) c = Inr (c', b)"
  shows "OnMessage order fs srv remove (Suc n) s =
    (if resp_statu c' \<ge> 400 then reply_error order (fuel_call order fs srv remove n) c' (buffer_of s b c')
     else if recv_statu c' \<noteq> RECV_HTTP_OVER then Inr (buffer_of s b c')
     else and_then (reply order fs srv (fuel_call order fs srv remove n) c' (buffer_of s b c'))
            (OnMessage order fs srv remove n))"
  using assms
  by (simp add: OnMessage_Suc reply_error_def reply_def and_then_assoc case_prod_unfold Let_def cong: if_cong)

lemma reply_error_ok:
  assumes s: "conn_inv (\<lambda>_. True) s" and u: "connected_cb s = Some Cb_connected" "message_cb s = Some Cb_message"
    "any_event_cb s = None" and E: "http_faults \<subseteq> E"
  shows "msg_ok E s (reply_error order call c s)"
proof -
  from WriteReponse_does[OF s, of order call "request c" "ErrorHandler (request c) (HttpResponse_new (resp_statu c))"]
  show ?thesis
  proof (elim disjE exE conjE)
    assume "WriteReponse order call (request c) (ErrorHandler (request c) (HttpResponse_new (resp_statu c))) s = Inl LengthError"
    with E show ?thesis by (auto simp: reply_error_def msg_ok_def http_faults_def)
  next
    fix t assume t: "WriteReponse order call (request c) (ErrorHandler (request c) (HttpResponse_new (resp_statu c))) s
        = Inr (complete_response (request c) (ErrorHandler (request c) (HttpResponse_new (resp_statu c))), t)"
      "conn_inv (\<lambda>_. True) t" "conn_le s t" "in_buffer t = in_buffer s" "user_part t = user_part s"
    note b = conn_coreD(1)[OF conn_invD[OF t(2)]]
    from MoveReadOffset_ok[OF b, of "ReadAbleSize (in_buffer t)"] obtain b' where
      b': "MoveReadOffset (ReadAbleSize (in_buffer t)) (in_buffer t) = Inr b'" "buf_wf b'" "content b' = []"
      by (auto simp: unat_ReadAbleSize[OF b])
    let ?u = "buffer_of t b' (HttpContext_ReSet c)"
    have "conn_inv (\<lambda>_. True) ?u" "conn_le t ?u" using buffer_of_inv[OF t(2) b'(2)] b'(3) by simp_all
    then have u': "conn_inv http_user ?u" "conn_le s ?u"
      using t(5) u ctx_rest_new(2) conn_le_trans[OF t(3)] by (auto simp: conn_inv_def http_user_def)
    have "msg_ok E ?u (Shutdown call True ?u)" by (rule Shutdown_msg_ok[OF u'(1)]) (simp add: b'(3))
    then have "msg_ok E s (Shutdown call True ?u)" by (rule msg_ok_from[OF u'(2), rotated]) (simp add: b'(3))
    then show ?thesis by (simp add: reply_error_def t(1) b'(1))
  qed
qed

lemma reply_ok:
  assumes s: "conn_inv (\<lambda>_. True) s" and u: "connected_cb s = Some Cb_connected" "message_cb s = Some Cb_message"
    "any_event_cb s = None" and E: "http_faults \<subseteq> E" "handlers_ok E srv"
    and call: "\<And>t. conn_inv http_user t \<Longrightarrow> length (content (in_buffer t)) \<le> length (content (in_buffer s)) \<Longrightarrow>
      msg_ok E t (call Cb_message t)"
  shows "msg_ok E s (reply order fs srv call c s)"
proof (cases "Route fs srv (request c) (HttpResponse_new (resp_statu c))")
  case (Inl e)
  with Route_faults[OF Inl E(2,1)] show ?thesis by (simp add: reply_def msg_ok_def)
next
  case (Inr r)
  obtain req rsp where r: "r = (req, rsp)" by force
  from WriteReponse_does[OF s, of order call req rsp] show ?thesis
  proof (elim disjE exE conjE)
    assume "WriteReponse order call req rsp s = Inl LengthError"
    with E(1) Inr show ?thesis by (auto simp: reply_def r msg_ok_def http_faults_def)
  next
    fix t assume t: "WriteReponse order call req rsp s = Inr (complete_response req rsp, t)"
      "conn_inv (\<lambda>_. True) t" "conn_le s t" "in_buffer t = in_buffer s" "user_part t = user_part s"
    let ?u = "buffer_of t (in_buffer t) (HttpContext_ReSet c)"
    have "conn_inv (\<lambda>_. True) ?u" "conn_le t ?u"
      using buffer_of_inv[OF t(2) conn_coreD(1)[OF conn_invD[OF t(2)]]] by simp_all
    then have u': "conn_inv http_user ?u" "conn_le s ?u"
      using t(5) u ctx_rest_new(2) conn_le_trans[OF t(3)] by (auto simp: conn_inv_def http_user_def)
    have "msg_ok E ?u (if Response_Close (complete_response req rsp) then Shutdown call True ?u else Inr ?u)"
    proof (cases "Response_Close (complete_response req rsp)")
      case True
      have "msg_ok E ?u (Shutdown call True ?u)"
        by (rule Shutdown_msg_ok[OF u'(1)], rule call) (use disconnecting_inv[OF u'(1)] in \<open>simp_all add: t(4)\<close>)
      with True show ?thesis by simp
    qed (simp add: msg_ok_def u'(1))
    then show ?thesis
      using msg_ok_from[OF u'(2)] t(4) by (simp add: reply_def Inr r t(1) Let_def)
  qed
qed

lemma OnMessage_ok:
  assumes E: "http_faults \<subseteq> E" "handlers_ok E srv"
  shows "conn_inv http_user s \<Longrightarrow> length (content (in_buffer s)) < fuel \<Longrightarrow> msg_ok E s (OnMessage order fs srv remove fuel s)"
proof (induction fuel arbitrary: s)
  case (Suc n)
  note s = Suc.prems(1)
  note b = conn_coreD(1)[OF conn_invD[OF s]]
  from http_userD(1)[OF s] obtain c where c: "conn_context s = Some c" "ctx_rest c" by blast
  show ?case
  proof (cases "content (in_buffer s) = []")
    case True
    with pending_iff[OF b] s show ?thesis by (simp add: OnMessage_Suc msg_ok_def)
  next
    case False
    then have pending: "ReadAbleSize (in_buffer s) > 0" using pending_iff[OF b] by simp
    note prog = recv_request_progress[OF b c(2)]
    show ?thesis
    proof (cases "RecvHttpRequest (in_buffer s) c")
      case (Inl e)
      with prog E(1) pending c(1) show ?thesis by (auto simp: OnMessage_Suc msg_ok_def http_faults_def)
    next
      case (Inr r)
      obtain c' b' where r: "r = (c', b')" by force
      from prog Inr r have b': "buf_wf b'" "suffix (content b') (content (in_buffer s))" and
        p: "resp_statu c' \<ge> 400 \<or> resp_statu c' = 200 \<and> recv_statu c' = RECV_HTTP_OVER
          \<and> length (content b') < length (content (in_buffer s)) \<or> ctx_rest c'" by simp_all
      let ?s = "buffer_of s b' c'"
      note s' = buffer_of_inv[OF s b', of c'] and le = suffix_length_le[OF b'(2)]
      note round = OnMessage_round[OF pending c(1) Inr[unfolded r], of order fs srv remove n]
      note user = http_userD(2)[OF s]
      consider (bad) "resp_statu c' \<ge> 400" | (wait) "\<not> resp_statu c' \<ge> 400" "ctx_rest c'"
        | (over) "\<not> resp_statu c' \<ge> 400" "recv_statu c' = RECV_HTTP_OVER" "length (content b') < length (content (in_buffer s))"
        using p by auto
      then show ?thesis
      proof cases
        case bad
        from reply_error_ok[OF s'(1) _ _ _ E(1), of order "fuel_call order fs srv remove n" c'] user
        have "msg_ok E ?s (reply_error order (fuel_call order fs srv remove n) c' ?s)" by simp
        then show ?thesis using msg_ok_from[OF s'(2)] le bad by (simp add: round)
      next
        case wait
        then have "conn_inv http_user ?s" using s'(1) user by (simp add: conn_inv_def http_user_def)
        moreover have "recv_statu c' \<noteq> RECV_HTTP_OVER" using wait(2) by (auto simp: ctx_rest_def)
        ultimately show ?thesis using s'(2) le wait(1) by (simp add: round msg_ok_def)
      next
        case over
        have "msg_ok E t (fuel_call order fs srv remove n Cb_message t)"
          if "conn_inv http_user t" "length (content (in_buffer t)) \<le> length (content (in_buffer ?s))" for t
          using Suc.IH[OF that(1)] that(2) over(3) Suc.prems(2) by (simp add: fuel_call_def)
        from reply_ok[where call = "fuel_call order fs srv remove n", OF s'(1) _ _ _ E this, of order fs c'] user
        have "msg_ok E ?s (reply order fs srv (fuel_call order fs srv remove n) c' ?s)" by simp
        then have "msg_ok E ?s (and_then (reply order fs srv (fuel_call order fs srv remove n) c' ?s)
             (OnMessage order fs srv remove n))"
          by (rule msg_ok_then) (use Suc.IH over(3) Suc.prems(2) in simp)
        then show ?thesis using msg_ok_from[OF s'(2)] le over(1,2) by (simp add: round)
      qed
    qed
  qed
qed simp

text \<open>
  So the server's callbacks meet the contract of a connection's client, the faults being the server's
  own and those its handlers raise.
\<close>

definition serve_faults :: "http_server \<Rightarrow> fault set" where
  "serve_faults srv = http_faults \<union> {e. \<exists>(re, h) \<in> set (get_route srv @ post_route srv @ put_route srv @ delete_route srv).
     \<exists>req rsp. h req rsp = Inl e}"

lemma handlers_serve: "handlers_ok (serve_faults srv) srv"
  by (fastforce simp: handlers_ok_def serve_faults_def)

lemma OnConnected_ok: "conn_inv http_user s \<Longrightarrow> conn_inv http_user (OnConnected s) \<and> conn_le s (OnConnected s)"
  using ctx_rest_new(1) by (auto simp: OnConnected_def SetContext_def conn_inv_def conn_core_def conn_le_def http_user_def)

lemma http_call_ok:
  assumes s: "conn_inv http_user s" and k: "is_callback (Some k) s"
  shows "step_ok http_user (serve_faults srv) s (http_call order fs srv remove k s)"
proof (cases k)
  case Cb_message
  have "length (content (in_buffer s)) < Suc (unat (ReadAbleSize (in_buffer s)))"
    by (simp add: unat_ReadAbleSize conn_coreD(1)[OF conn_invD[OF s]])
  from OnMessage_ok[OF _ handlers_serve s this, where order = order and fs = fs and remove = remove] show ?thesis
    by (simp add: Cb_message http_call_def msg_ok_def serve_faults_def)
qed (use OnConnected_ok[OF s] k http_userD(2)[OF s] in \<open>auto simp: http_call_def\<close>)

interpretation http_client: conn_client "http_call order fs srv remove" http_user "serve_faults srv"
  for order fs srv remove
  by unfold_locales (simp add: serve_faults_def http_faults_def, rule http_call_ok)

end
