(* ===== verification/HttpPipeline.thy ===== *)
theory HttpPipeline
  imports HttpServing
begin

text \<open>
  The fuel of the HTTP server's message loop does not matter; and what the server answers to a request
  a client has written.
\<close>

section \<open>The fuel does not matter\<close>

lemma WriteReponse_call: "WriteReponse order call req rsp s = WriteReponse order call' req rsp s"
  by (simp only: WriteReponse_def Conn_Send_call[of call _ _ call'])

lemma Shutdown_cong:
  assumes "conn_inv http_user s" and "content (in_buffer s) \<noteq> [] \<Longrightarrow>
      call Cb_message (s\<lparr>statu := DISCONNECTING\<rparr>) = call' Cb_message (s\<lparr>statu := DISCONNECTING\<rparr>)"
  shows "Shutdown call True s = Shutdown call' True s"
  using assms http_userD(2)[OF assms(1)] pending_iff[OF conn_coreD(1)[OF conn_invD[OF assms(1)]]]
    conn_coreD(6)[OF conn_invD[OF assms(1)]]
  by (cases "content (in_buffer s) = []") (simp_all add: Shutdown_in_loop ShutdownInLoop_tail call_if_def)

text \<open>The state after a response has been sent and the context reset.\<close>

lemma after_reply:
  assumes s: "conn_inv (\<lambda>_. True) s" and u: "connected_cb s = Some Cb_connected" "message_cb s = Some Cb_message"
    "any_event_cb s = None" and w: "WriteReponse order call req rsp s = Inr (rsp', t)"
  shows "rsp' = complete_response req rsp" "in_buffer t = in_buffer s" "statu t = statu s"
    "submitted t = submitted s @ response_text order req rsp'"
    "conn_inv http_user (buffer_of t (in_buffer t) (HttpContext_ReSet c))" "received_bytes t = received_bytes s"
proof -
  from WriteReponse_does[OF s, of order call req rsp] w have t: "rsp' = complete_response req rsp"
    "conn_inv (\<lambda>_. True) t" "in_buffer t = in_buffer s" "user_part t = user_part s"
    "submitted t = submitted s @ response_text order req rsp'" "statu t = statu s" by auto
  have "conn_inv (\<lambda>_. True) (buffer_of t (in_buffer t) (HttpContext_ReSet c))"
    by (rule buffer_of_inv[OF t(2)]) (simp_all add: conn_coreD(1)[OF conn_invD[OF t(2)]])
  then show "conn_inv http_user (buffer_of t (in_buffer t) (HttpContext_ReSet c))"
    using t(4) u ctx_rest_new(2) by (simp add: conn_inv_def http_user_def)
qed (use WriteReponse_does[OF s, of order call req rsp] w in auto)

lemma reply_cong:
  assumes s: "conn_inv (\<lambda>_. True) s" and u: "connected_cb s = Some Cb_connected" "message_cb s = Some Cb_message"
    "any_event_cb s = None"
    and call: "\<And>t. conn_inv http_user t \<Longrightarrow> length (content (in_buffer t)) \<le> length (content (in_buffer s)) \<Longrightarrow>
      call Cb_message t = call' Cb_message t"
  shows "reply order fs srv call c s = reply order fs srv call' c s"
proof -
  have "(if Response_Close rsp then Shutdown call True (buffer_of t (in_buffer t) (HttpContext_ReSet c))
         else Inr (buffer_of t (in_buffer t) (HttpContext_ReSet c)))
      = (if Response_Close rsp then Shutdown call' True (buffer_of t (in_buffer t) (HttpContext_ReSet c))
         else Inr (buffer_of t (in_buffer t) (HttpContext_ReSet c)))"
    if "WriteReponse order call' req rsp0 s = Inr (rsp, t)" for req rsp0 rsp t
  proof -
    note a = after_reply[OF s u that]
    have "Shutdown call True (buffer_of t (in_buffer t) (HttpContext_ReSet c))
        = Shutdown call' True (buffer_of t (in_buffer t) (HttpContext_ReSet c))"
      by (rule Shutdown_cong[OF a(5)], rule call) (use disconnecting_inv[OF a(5)] a(2) in simp_all)
    then show ?thesis by simp
  qed
  then show ?thesis
    unfolding reply_def Let_def WriteReponse_call[of order call _ _ _ call']
    by (intro and_then_cong refl) (auto intro!: and_then_cong)
qed

lemma reply_error_cong:
  assumes s: "conn_inv (\<lambda>_. True) s" and u: "connected_cb s = Some Cb_connected" "message_cb s = Some Cb_message"
    "any_event_cb s = None"
  shows "reply_error order call c s = reply_error order call' c s"
proof -
  have "Shutdown call True (buffer_of t b (HttpContext_ReSet c)) = Shutdown call' True (buffer_of t b (HttpContext_ReSet c))"
    if w: "WriteReponse order call' (request c) rsp0 s = Inr (rsp, t)"
      and b: "MoveReadOffset (ReadAbleSize (in_buffer t)) (in_buffer t) = Inr b" for rsp0 rsp t b
  proof -
    from WriteReponse_does[OF s, of order call' "request c" rsp0] w have t: "conn_inv (\<lambda>_. True) t" "user_part t = user_part s" by auto
    note bt = conn_coreD(1)[OF conn_invD[OF t(1)]]
    from MoveReadOffset_ok[OF bt, of "ReadAbleSize (in_buffer t)"] b have b': "buf_wf b" "content b = []"
      by (auto simp: unat_ReadAbleSize[OF bt])
    have "conn_inv (\<lambda>_. True) (buffer_of t b (HttpContext_ReSet c))" using buffer_of_inv(1)[OF t(1) b'(1)] b'(2) by simp
    then have "conn_inv http_user (buffer_of t b (HttpContext_ReSet c))"
      using t(2) u ctx_rest_new(2) by (simp add: conn_inv_def http_user_def)
    then show ?thesis by (rule Shutdown_cong) (simp add: b'(2))
  qed
  then show ?thesis
    unfolding reply_error_def WriteReponse_call[of order call _ _ _ call']
    by (intro and_then_cong refl) (auto intro!: and_then_cong)
qed

lemma OnMessage_fuel:
  "conn_inv http_user s \<Longrightarrow> length (content (in_buffer s)) < n \<Longrightarrow> length (content (in_buffer s)) < m \<Longrightarrow>
   OnMessage order fs srv remove n s = OnMessage order fs srv remove m s"
proof (induction n arbitrary: m s)
  case (Suc n)
  then obtain m' where m: "m = Suc m'" by (cases m) auto
  note s = Suc.prems(1)
  note b = conn_coreD(1)[OF conn_invD[OF s]] and user = http_userD(2)[OF s]
  from http_userD(1)[OF s] obtain c where c: "conn_context s = Some c" "ctx_rest c" by blast
  note prog = recv_request_progress[OF b c(2)]
  show ?case
  proof (cases "ReadAbleSize (in_buffer s) > 0 \<and> (\<exists>c' b'. RecvHttpRequest (in_buffer s) c = Inr (c', b'))")
    case False
    then show ?thesis using c(1) by (cases "RecvHttpRequest (in_buffer s) c") (auto simp: OnMessage_Suc m)
  next
    case True
    then obtain c' b' where r: "RecvHttpRequest (in_buffer s) c = Inr (c', b')" and pending: "ReadAbleSize (in_buffer s) > 0" by blast
    from prog r have b': "buf_wf b'" "suffix (content b') (content (in_buffer s))" and
      p: "resp_statu c' \<ge> 400 \<or> recv_statu c' \<noteq> RECV_HTTP_OVER \<or> length (content b') < length (content (in_buffer s))"
      by (auto simp: ctx_rest_def)
    let ?s = "buffer_of s b' c'"
    note s' = buffer_of_inv(1)[OF s b', of c']
    have bad: "reply_error order (fuel_call order fs srv remove n) c' ?s = reply_error order (fuel_call order fs srv remove m') c' ?s"
      by (rule reply_error_cong[OF s']) (simp_all add: user)
    have again: "OnMessage order fs srv remove n t = OnMessage order fs srv remove m' t"
      if "conn_inv http_user t" "length (content (in_buffer t)) \<le> length (content b')" "length (content b') < length (content (in_buffer s))" for t
      using that Suc.IH[of t m'] Suc.prems(2,3) m by simp
    have good: "and_then (reply order fs srv (fuel_call order fs srv remove n) c' ?s) (OnMessage order fs srv remove n)
        = and_then (reply order fs srv (fuel_call order fs srv remove m') c' ?s) (OnMessage order fs srv remove m')"
      if less: "length (content b') < length (content (in_buffer s))"
    proof (rule and_then_cong)
      show "reply order fs srv (fuel_call order fs srv remove n) c' ?s = reply order fs srv (fuel_call order fs srv remove m') c' ?s"
        by (rule reply_cong[OF s']) (simp_all add: user fuel_call_def again less)
      fix t assume t: "reply order fs srv (fuel_call order fs srv remove m') c' ?s = Inr t"
      have E: "http_faults \<subseteq> serve_faults srv" by (simp add: serve_faults_def)
      have "msg_ok (serve_faults srv) ?s (reply order fs srv (fuel_call order fs srv remove m') c' ?s)"
        by (rule reply_ok[OF s' _ _ _ E handlers_serve])
           (use user less Suc.prems(3) m in \<open>auto simp: fuel_call_def intro!: OnMessage_ok[OF E handlers_serve]\<close>)
      then show "OnMessage order fs srv remove n t = OnMessage order fs srv remove m' t"
        using again[of t] less by (simp add: t msg_ok_def)
    qed
    show ?thesis
      unfolding m OnMessage_round[OF pending c(1) r] using bad good p by (auto simp: not_le)
  qed
qed simp

section \<open>Requests and their answers\<close>

text \<open>
  A request as a client writes it: method, path in the client's encoding, version, parameters, headers
  and body.
\<close>

type_synonym client_request =
  "string \<times> string \<times> string \<times> (string \<times> string) list \<times> (string \<times> string) list \<times> string"

definition print_client :: "client_request \<Rightarrow> string" where
  "print_client = (\<lambda>(m, p, v, params, hs, body). raw_request m p v params hs body)"

definition client_ok :: "client_request \<Rightarrow> bool" where
  "client_ok = (\<lambda>(m, p, v, params, hs, body). raw_ok m p v params hs body)"

definition parsed_client :: "client_request \<Rightarrow> http_context" where
  "parsed_client = (\<lambda>(m, p, v, params, hs, body). parsed_context m (UrlDecode p False) v params hs body)"

text \<open>
  The specification of the server: the answer to one request is the text of the completed response
  of its route, with whether the connection is to be closed; the answer to many is their answers
  in order.
\<close>

definition answer :: "(str_map \<Rightarrow> str_map) \<Rightarrow> file_system \<Rightarrow> http_server \<Rightarrow> http_request \<Rightarrow> fault + (string \<times> bool)" where
  "answer order fs srv rq = and_then (Route fs srv rq (HttpResponse_new 200)) (\<lambda>(req, rsp).
     let rsp = complete_response req rsp in Inr (response_text order req rsp, Response_Close rsp))"

fun answers :: "(str_map \<Rightarrow> str_map) \<Rightarrow> file_system \<Rightarrow> http_server \<Rightarrow> http_request list \<Rightarrow> fault + (string \<times> bool)" where
  "answers order fs srv [] = Inr ([], False)"
| "answers order fs srv (rq # rqs) = and_then (answer order fs srv rq) (\<lambda>(text, closing).
     and_then (answers order fs srv rqs) (\<lambda>(texts, closings). Inr (text @ texts, closing \<or> closings)))"

lemma parsed_client_facts:
  "resp_statu (parsed_client r) = 200" "recv_statu (parsed_client r) = RECV_HTTP_OVER"
  using received_parsed by (simp_all add: parsed_client_def received_def split: prod.split)

lemma print_client_not_Nil [simp]: "print_client r \<noteq> []"
  by (simp add: print_client_def raw_request_def crlf_def split: prod.split)

lemma ReSet_new: "HttpContext_ReSet c = HttpContext_new"
  by (rule context_reset_is_new)

text \<open>Room in the output buffer for a response and \<open>k\<close> bytes more is enough.\<close>

lemma WriteReponse_room:
  assumes s: "conn_inv (\<lambda>_. True) s"
    and room: "has_room (out_buffer s) (length (response_text order req (complete_response req rsp)) + k)"
  shows "\<exists>t. WriteReponse order call req rsp s = Inr (complete_response req rsp, t) \<and> has_room (out_buffer t) k"
  using Conn_Send_room[OF s room, of call] room by (auto simp: WriteReponse_def Let_def has_room_def)

end
