(* ===== verification/HttpStream.thy ===== *)
theory HttpStream
  imports HttpPipeline
begin

text \<open>
  The HTTP server as a function on bytes: what it answers to a text and what it keeps of it.  The message
  callback on a connection, with its buffers, context, nested calls and fuel, implements this
  function.  It does not matter in what pieces the bytes arrive while the connection stays open.
\<close>

section \<open>The specification\<close>

text \<open>The error page that answers a request refused with a status of 400 or more.\<close>

definition error_text :: "(str_map \<Rightarrow> str_map) \<Rightarrow> http_context \<Rightarrow> string" where
  "error_text order c = response_text order (request c)
     (complete_response (request c) (ErrorHandler (request c) (HttpResponse_new (resp_statu c))))"

text \<open>
  From the unread bytes and the context of the request in progress: the text submitted, whether the
  connection is being closed, the next context and the bytes left unread.  A refused request is
  answered by its error page and the rest of the bytes is dropped.  (A request that is complete has
  used at least one byte, so the last fault never occurs.)
\<close>

function serve :: "(str_map \<Rightarrow> str_map) \<Rightarrow> file_system \<Rightarrow> http_server \<Rightarrow> string \<Rightarrow> http_context
    \<Rightarrow> fault + (string \<times> bool \<times> http_context \<times> string)" where
  "serve order fs srv s c =
     (if s = [] then Inr ([], False, c, [])
      else and_then (recv_bytes s c) (\<lambda>(c', s').
        if resp_statu c' \<ge> 400 then Inr (error_text order c', True, HttpContext_new, [])
        else if recv_statu c' \<noteq> RECV_HTTP_OVER then Inr ([], False, c', s')
        else if length s \<le> length s' then Inl OutOfFuel
        else and_then (answer order fs srv (request c')) (\<lambda>(text, closing).
          and_then (serve order fs srv s' HttpContext_new) (\<lambda>(texts, closings, c'', s'').
            Inr (text @ texts, closing \<or> closings, c'', s'')))))"
  by pat_completeness auto
termination by (relation "measure (\<lambda>(order, fs, srv, s, c). length s)") auto

declare serve.simps [simp del]

lemma serve_Nil [simp]: "serve order fs srv [] c = Inr ([], False, c, [])"
  by (simp add: serve.simps)

text \<open>One round of the specification, by what the parser makes of the bytes.\<close>

lemma serve_round:
  assumes "s \<noteq> []" and "recv_bytes s c = Inr (c', s')" and "ctx_rest c"
  shows "resp_statu c' \<ge> 400 \<Longrightarrow> serve order fs srv s c = Inr (error_text order c', True, HttpContext_new, [])"
    and "\<not> resp_statu c' \<ge> 400 \<Longrightarrow> recv_statu c' \<noteq> RECV_HTTP_OVER \<Longrightarrow> serve order fs srv s c = Inr ([], False, c', s') \<and> ctx_rest c'"
    and "\<not> resp_statu c' \<ge> 400 \<Longrightarrow> recv_statu c' = RECV_HTTP_OVER \<Longrightarrow> length s' < length s \<and> resp_statu c' = 200
      \<and> serve order fs srv s c = and_then (answer order fs srv (request c')) (\<lambda>(text, closing).
          and_then (serve order fs srv s' HttpContext_new) (\<lambda>(texts, closings, c'', s'').
            Inr (text @ texts, closing \<or> closings, c'', s'')))"
  using assms(1,2) recv_bytes_progress[OF assms(2,3)] by (auto simp: serve.simps[of order fs srv s c] ctx_rest_def)

lemma serve_over:
  assumes "s \<noteq> []" and "recv_bytes s c = Inr (c', s')" and "ctx_rest c"
    and "\<not> resp_statu c' \<ge> 400" and "recv_statu c' = RECV_HTTP_OVER" and "serve order fs srv s c = Inr (out, closing, c'', rest)"
  obtains one cl texts cls where "answer order fs srv (request c') = Inr (one, cl)"
    "serve order fs srv s' HttpContext_new = Inr (texts, cls, c'', rest)" "out = one @ texts" "closing = (cl \<or> cls)"
    "length s' < length s" "resp_statu c' = 200"
proof -
  note round = serve_round(3)[OF assms(1-5), of order fs srv]
  then have "and_then (answer order fs srv (request c')) (\<lambda>(text, closing).
          and_then (serve order fs srv s' HttpContext_new) (\<lambda>(texts, closings, c'', s'').
            Inr (text @ texts, closing \<or> closings, c'', s''))) = Inr (out, closing, c'', rest)"
    using assms(6) by simp
  with round that show thesis by (auto simp: and_then_eq_Inr)
qed

lemma serve_fault: "s \<noteq> [] \<Longrightarrow> recv_bytes s c = Inl e \<Longrightarrow> serve order fs srv s c = Inl e"
  by (simp add: serve.simps)

text \<open>Bytes that have been served without an error are not served differently a second time.\<close>

lemma recv_bytes_again:
  assumes "recv_bytes s c = Inr (c', s')" and "recv_statu c' \<noteq> RECV_HTTP_ERROR"
  shows "recv_bytes s' c' = Inr (c', s')"
  using recv_bytes_split[of s "[]" c] assms by (auto simp: same_outcome_def split: sum.splits)

lemma ctx_restD: "ctx_rest c \<Longrightarrow> resp_statu c = 200 \<and> recv_statu c \<noteq> RECV_HTTP_ERROR \<and> recv_statu c \<noteq> RECV_HTTP_OVER"
  by (auto simp: ctx_rest_def)

lemma serve_again:
  "serve order fs srv s c = Inr (out, closing, c', rest) \<Longrightarrow> ctx_rest c \<Longrightarrow>
   ctx_rest c' \<and> serve order fs srv rest c' = Inr ([], False, c', rest)"
proof (induction "length s" arbitrary: s c out closing rule: less_induct)
  case less
  note run = less.prems(1) and c = less.prems(2)
  show ?case
  proof (cases "s = []")
    case True
    with run c show ?thesis by auto
  next
    case False
    with run obtain c1 s1 where r: "recv_bytes s c = Inr (c1, s1)"
      by (cases "recv_bytes s c") (auto simp: serve.simps[of order fs srv s c])
    note round = serve_round[OF False r c, of order fs srv]
    consider (bad) "resp_statu c1 \<ge> 400" | (wait) "\<not> resp_statu c1 \<ge> 400" "recv_statu c1 \<noteq> RECV_HTTP_OVER"
      | (over) "\<not> resp_statu c1 \<ge> 400" "recv_statu c1 = RECV_HTTP_OVER" by blast
    then show ?thesis
    proof cases
      case bad
      with round(1) run show ?thesis using ctx_rest_new by auto
    next
      case wait
      from round(2)[OF wait] run have e: "c' = c1" "rest = s1" "ctx_rest c1" by auto
      have "recv_bytes s1 c1 = Inr (c1, s1)" using recv_bytes_again[OF r] ctx_restD[OF e(3)] by simp
      with serve_round(2)[OF _ this e(3)] wait e show ?thesis by (cases "s1 = []") auto
    next
      case over
      from serve_over[OF False r c over run] obtain texts cls where
        s1: "serve order fs srv s1 HttpContext_new = Inr (texts, cls, c', rest)" "length s1 < length s" by blast
      from less.hyps[OF s1(2,1) ctx_rest_new(1)] show ?thesis .
    qed
  qed
qed

lemma serve_rest: "serve order fs srv s c = Inr (out, closing, c', rest) \<Longrightarrow> ctx_rest c \<Longrightarrow> length rest \<le> length s"
proof (induction "length s" arbitrary: s c out closing rule: less_induct)
  case less
  note run = less.prems(1) and c = less.prems(2)
  show ?case
  proof (cases "s = []")
    case False
    with run obtain c1 s1 where r: "recv_bytes s c = Inr (c1, s1)"
      by (cases "recv_bytes s c") (auto simp: serve_fault)
    note round = serve_round[OF False r c, of order fs srv]
    have "suffix s1 s" using recv_bytes_progress[OF r c] by simp
    show ?thesis
    proof (cases "resp_statu c1 \<ge> 400 \<or> recv_statu c1 \<noteq> RECV_HTTP_OVER")
      case True
      with round(1,2) run suffix_length_le[OF \<open>suffix s1 s\<close>] show ?thesis by (cases "resp_statu c1 \<ge> 400") auto
    next
      case over: False
      then obtain texts cls where "serve order fs srv s1 HttpContext_new = Inr (texts, cls, c', rest)" "length s1 < length s"
        using serve_over[OF False r c _ _ run] by blast
      from less.hyps[OF this(2,1) ctx_rest_new(1)] \<open>length s1 < length s\<close> show ?thesis by simp
    qed
  qed (use run in simp)
qed

section \<open>The message callback implements it\<close>

text \<open>
  What one call of the callback has done.  The input buffer's write index stays where it was, and the
  output buffer has used no more of its room than the text needs.
\<close>

definition served :: "string \<Rightarrow> bool \<Rightarrow> http_context \<Rightarrow> string \<Rightarrow> http_conn \<Rightarrow> http_conn \<Rightarrow> bool" where
  "served out closing c rest s t \<longleftrightarrow> conn_inv http_user t \<and> submitted t = submitted s @ out \<and> content (in_buffer t) = rest
     \<and> conn_context t = Some c \<and> statu t = (if closing then DISCONNECTING else statu s)
     \<and> received_bytes t = received_bytes s \<and> writer_idx (in_buffer t) = writer_idx (in_buffer s)
     \<and> (\<forall>k. has_room (out_buffer s) (length out + k) \<longrightarrow> has_room (out_buffer t) k)"

text \<open>The outcome of a call against the specification: with no room for the output it may be std::length_error.\<close>

definition implements :: "fault + (string \<times> bool \<times> http_context \<times> string) \<Rightarrow> http_conn \<Rightarrow> fault + http_conn \<Rightarrow> bool" where
  "implements r s m \<longleftrightarrow> (case r of
       Inl e \<Rightarrow> m = Inl e \<or> m = Inl LengthError
     | Inr (out, closing, c, rest) \<Rightarrow> m = Inl LengthError \<and> \<not> has_room (out_buffer s) (length out)
         \<or> (\<exists>t. m = Inr t \<and> served out closing c rest s t))"

lemma implements_simps [simp]:
  "implements (Inl e) s m \<longleftrightarrow> m = Inl e \<or> m = Inl LengthError"
  "implements (Inr (out, closing, c, rest)) s m \<longleftrightarrow> m = Inl LengthError \<and> \<not> has_room (out_buffer s) (length out)
         \<or> (\<exists>t. m = Inr t \<and> served out closing c rest s t)"
  by (simp_all add: implements_def)

lemma served_trans:
  "served one cl c rest s u \<Longrightarrow> served texts cls c' rest' u t \<Longrightarrow> served (one @ texts) (cl \<or> cls) c' rest' s t"
  by (auto simp: served_def add.assoc)

lemma served_no_room: "served one cl c rest s u \<Longrightarrow> \<not> has_room (out_buffer u) n \<Longrightarrow> \<not> has_room (out_buffer s) (length one + n)"
  by (auto simp: served_def)

lemma implements_then:
  assumes "served one cl c rest s u" and "implements r u m"
  shows "implements (and_then r (\<lambda>(texts, closings, c, rest). Inr (one @ texts, cl \<or> closings, c, rest))) s m"
  using assms(2) served_trans[OF assms(1)] served_no_room[OF assms(1)] by (cases r) auto

lemma implements_bind:
  assumes "implements r s m"
    and "\<And>out closing c rest t. r = Inr (out, closing, c, rest) \<Longrightarrow> served out closing c rest s t \<Longrightarrow>
      \<exists>y. f t = Inr y \<and> served [] False c rest t y"
  shows "implements r s (and_then m f)"
proof (cases r)
  case (Inr a)
  obtain out closing c rest where a: "a = (out, closing, c, rest)" by (cases a)
  show ?thesis
  proof (cases m)
    case ok: (Inr t)
    with assms(1) Inr a have t: "served out closing c rest s t" by simp
    from assms(2)[OF Inr[unfolded a] this] served_trans[OF t] show ?thesis by (fastforce simp: Inr a ok)
  qed (use assms(1) Inr a in simp)
qed (use assms(1) in auto)

lemma shutdown_tail_out [simp]: "out_buffer (shutdown_tail t) = out_buffer t"
  by (simp add: shutdown_tail_def Let_def on_channel_set_events)

lemma served_tail: "served out closing c rest s t \<Longrightarrow> served out closing c rest s (shutdown_tail t)"
  using shutdown_tail_inv[of http_user t] shutdown_tail_keeps(2)[of t] by (simp add: served_def)

lemma has_room_0: "conn_inv P s \<Longrightarrow> has_room (out_buffer s) 0"
  using conn_coreD(2)[OF conn_invD, of P s] by (auto simp: has_room_def buf_wf_def)

lemma OnMessage_idle:
  "conn_inv P s \<Longrightarrow> content (in_buffer s) = [] \<Longrightarrow> OnMessage order fs srv remove (Suc n) s = Inr s"
  using pending_iff[OF conn_coreD(1)[OF conn_invD, of P s]] by (simp add: OnMessage_Suc)

text \<open>Submitting a response: it fails only for want of room.\<close>

lemma WriteReponse_cases:
  assumes s: "conn_inv (\<lambda>_. True) s"
  obtains "WriteReponse order call req rsp s = Inl LengthError"
      "\<not> has_room (out_buffer s) (length (response_text order req (complete_response req rsp)))"
    | t where "WriteReponse order call req rsp s = Inr (complete_response req rsp, t)"
      "\<And>k. has_room (out_buffer s) (length (response_text order req (complete_response req rsp)) + k) \<Longrightarrow> has_room (out_buffer t) k"
proof (cases "WriteReponse order call req rsp s")
  case (Inl e)
  with WriteReponse_does[OF s, of order call req rsp] WriteReponse_room[OF s, of order req rsp 0 call] that(1)
  show ?thesis by auto
next
  case (Inr r)
  with WriteReponse_does[OF s, of order call req rsp] obtain t where t: "WriteReponse order call req rsp s = Inr (complete_response req rsp, t)"
    by auto
  with that(2)[OF this] WriteReponse_room[OF s, of order req rsp _ call] show ?thesis by auto
qed

lemma implements_no_room:
  assumes "\<not> has_room (out_buffer s) (length one)"
  shows "implements (and_then r (\<lambda>(texts, closings, c, rest). Inr (one @ texts, cl \<or> closings, c, rest))) s (Inl LengthError)"
  using assms by (cases r) (auto simp: has_room_def)

lemma implements_buffer:
  assumes "writer_idx b = writer_idx (in_buffer s)"
  shows "implements r (buffer_of s b c) m \<longleftrightarrow> implements r s m"
proof -
  have "served out closing c' rest (buffer_of s b c) = served out closing c' rest s" for out closing c' rest
    using assms by (simp add: served_def buffer_of_def fun_eq_iff)
  moreover have "out_buffer (buffer_of s b c) = out_buffer s" by (simp add: buffer_of_def)
  ultimately show ?thesis unfolding implements_def by (simp only:)
qed

text \<open>A refused request: the page is submitted, the input dropped, the connection shut down.\<close>

lemma reply_error_implements:
  assumes s: "conn_inv (\<lambda>_. True) s" and u: "connected_cb s = Some Cb_connected" "message_cb s = Some Cb_message"
    "any_event_cb s = None"
  shows "implements (Inr (error_text order c, True, HttpContext_new, [])) s (reply_error order call c s)"
proof -
  let ?rsp = "ErrorHandler (request c) (HttpResponse_new (resp_statu c))"
  show ?thesis
  proof (rule WriteReponse_cases[OF s, of order call "request c" ?rsp])
    assume "WriteReponse order call (request c) ?rsp s = Inl LengthError"
      "\<not> has_room (out_buffer s) (length (response_text order (request c) (complete_response (request c) ?rsp)))"
    then show ?thesis by (simp add: reply_error_def error_text_def)
  next
    fix t assume t: "WriteReponse order call (request c) ?rsp s = Inr (complete_response (request c) ?rsp, t)"
      "\<And>k. has_room (out_buffer s) (length (response_text order (request c) (complete_response (request c) ?rsp)) + k) \<Longrightarrow> has_room (out_buffer t) k"
    with WriteReponse_does[OF s, of order call "request c" ?rsp] have w: "conn_inv (\<lambda>_. True) t" "in_buffer t = in_buffer s"
      "user_part t = user_part s" "submitted t = submitted s @ error_text order c" "received_bytes t = received_bytes s"
      by (auto simp: error_text_def)
    note b = conn_coreD(1)[OF conn_invD[OF w(1)]]
    from MoveReadOffset_ok[OF b, of "ReadAbleSize (in_buffer t)"] obtain b' where b': "MoveReadOffset (ReadAbleSize (in_buffer t)) (in_buffer t) = Inr b'"
      "buf_wf b'" "content b' = []" "writer_idx b' = writer_idx (in_buffer t)" by (auto simp: unat_ReadAbleSize[OF b])
    let ?u = "buffer_of t b' (HttpContext_ReSet c)" let ?v = "?u\<lparr>statu := DISCONNECTING\<rparr>"
    have "conn_inv (\<lambda>_. True) ?u" using buffer_of_inv(1)[OF w(1) b'(2)] b'(3) by simp
    then have inv: "conn_inv http_user ?u" using w(3) u ctx_rest_new(2) by (simp add: conn_inv_def http_user_def)
    have "served (error_text order c) True HttpContext_new [] s ?v"
      using disconnecting_inv[OF inv] w(2,4,5) t(2) b'(3,4) by (simp add: served_def ReSet_new buffer_of_def error_text_def)
    from served_tail[OF this] Shutdown_idle[OF inv, of call] b'(1,3) t(1) show ?thesis by (simp add: reply_error_def)
  qed
qed

text \<open>
  After a closing response Shutdown calls the callback again for the rest of the bytes; what that
  leaves, the outer call finds nothing more to do with.
\<close>

lemma closing_reply_implements:
  assumes IH: "\<And>s c. conn_inv http_user s \<Longrightarrow> conn_context s = Some c \<Longrightarrow> length (content (in_buffer s)) < n \<Longrightarrow>
      implements (serve order fs srv (content (in_buffer s)) c) s (OnMessage order fs srv remove n s)"
    and u: "conn_inv http_user u" "conn_context u = Some HttpContext_new" "length (content (in_buffer u)) < n"
  shows "implements (serve order fs srv (content (in_buffer u)) HttpContext_new) (u\<lparr>statu := DISCONNECTING\<rparr>)
     (and_then (Shutdown (fuel_call order fs srv remove n) True u) (OnMessage order fs srv remove n))"
proof -
  let ?v = "u\<lparr>statu := DISCONNECTING\<rparr>"
  have v: "conn_inv http_user ?v" using disconnecting_inv[OF u(1)] by simp
  obtain n' where n': "n = Suc n'" using u(3) by (cases n) auto
  have "(if ReadAbleSize (in_buffer u) > 0 then OnMessage order fs srv remove n ?v else Inr ?v) = OnMessage order fs srv remove n ?v"
    using OnMessage_idle[OF v, of order fs srv remove n'] pending_iff[OF conn_coreD(1)[OF conn_invD[OF u(1)]]] n' by auto
  then have shut: "Shutdown (fuel_call order fs srv remove n) True u = and_then (OnMessage order fs srv remove n ?v) (\<lambda>w. Inr (shutdown_tail w))"
    using conn_coreD(6)[OF conn_invD[OF u(1)]] http_userD(2)[OF u(1)]
    by (simp add: Shutdown_in_loop ShutdownInLoop_tail call_if_def fuel_call_def cong: if_cong)
  have run: "implements (serve order fs srv (content (in_buffer u)) HttpContext_new) ?v (OnMessage order fs srv remove n ?v)"
    using IH[OF v, of HttpContext_new] u(2,3) by simp
  show ?thesis
    unfolding shut and_then_assoc and_then_Inr
  proof (rule implements_bind[OF run])
    fix texts cls c rest w
    assume rec: "serve order fs srv (content (in_buffer u)) HttpContext_new = Inr (texts, cls, c, rest)"
      and w: "served texts cls c rest ?v w"
    note again = serve_again[OF rec ctx_rest_new(1)] serve_rest[OF rec ctx_rest_new(1)]
    note x = served_tail[OF w]
    let ?x = "shutdown_tail w"
    have x': "conn_inv http_user ?x" "conn_context ?x = Some c" "content (in_buffer ?x) = rest" using x by (simp_all add: served_def)
    with IH[OF x'(1,2)] again u(3) have "implements (Inr ([], False, c, rest)) ?x (OnMessage order fs srv remove n ?x)" by simp
    with has_room_0[OF x'(1)] obtain y where y: "OnMessage order fs srv remove n ?x = Inr y" "served [] False c rest ?x y" by auto
    then have "served [] False c rest w y" by (simp add: served_def)
    with y(1) show "\<exists>y. OnMessage order fs srv remove n (shutdown_tail w) = Inr y \<and> served [] False c rest w y" by blast
  qed
qed

lemma OnMessage_implements:
  assumes "conn_inv http_user s" and "conn_context s = Some c" and "length (content (in_buffer s)) < fuel"
  shows "implements (serve order fs srv (content (in_buffer s)) c) s (OnMessage order fs srv remove fuel s)"
  using assms
proof (induction fuel arbitrary: s c)
  case (Suc n)
  note s = Suc.prems(1) and ctx = Suc.prems(2)
  note b = conn_coreD(1)[OF conn_invD[OF s]] and user = http_userD(2)[OF s]
  have c: "ctx_rest c" using http_userD(1)[OF s] ctx by auto
  show ?case
  proof (cases "content (in_buffer s) = []")
    case True
    with s ctx OnMessage_idle[OF s True] show ?thesis by (auto simp: served_def has_room_def)
  next
    case False
    then have pending: "ReadAbleSize (in_buffer s) > 0" using pending_iff[OF b] by simp
    have wf: "context_wf c" using c by (simp add: ctx_rest_def)
    note sim = RecvHttpRequest_sim[OF b wf]
    show ?thesis
    proof (cases "recv_bytes (content (in_buffer s)) c")
      case (Inl e)
      with sim pending ctx show ?thesis by (simp add: serve_fault[OF False] OnMessage_Suc)
    next
      case (Inr a)
      then obtain c1 s1 where r: "recv_bytes (content (in_buffer s)) c = Inr (c1, s1)" by (cases a) auto
      from sim r obtain b1 where b1: "RecvHttpRequest (in_buffer s) c = Inr (c1, b1)" "buf_wf b1"
        "content b1 = s1" "writer_idx b1 = writer_idx (in_buffer s)" by (auto simp: recv_sim_def)
      let ?s = "buffer_of s b1 c1" and ?call = "fuel_call order fs srv remove n"
      have sub: "suffix (content b1) (content (in_buffer s))" using recv_bytes_progress[OF r c] b1(3) by simp
      note s' = buffer_of_inv(1)[OF s b1(2) sub, of c1] and same = implements_buffer[OF b1(4), of _ c1]
      have u: "connected_cb ?s = Some Cb_connected" "message_cb ?s = Some Cb_message" "any_event_cb ?s = None" using user by simp_all
      note round = OnMessage_round[OF pending ctx b1(1), of order fs srv remove n] and spec = serve_round[OF False r c, of order fs srv]
      consider (bad) "resp_statu c1 \<ge> 400" | (wait) "\<not> resp_statu c1 \<ge> 400" "recv_statu c1 \<noteq> RECV_HTTP_OVER"
        | (over) "\<not> resp_statu c1 \<ge> 400" "recv_statu c1 = RECV_HTTP_OVER" by blast
      then show ?thesis
      proof cases
        case bad
        with reply_error_implements[OF s' u, of order c1 ?call] show ?thesis by (simp add: round spec(1) same del: implements_simps)
      next
        case wait
        have "conn_inv http_user ?s" using s' u spec(2)[OF wait] by (simp add: conn_inv_def http_user_def)
        with wait b1(3,4) spec(2)[OF wait] show ?thesis by (simp add: round served_def buffer_of_def)
      next
        case over
        note o = spec(3)[OF over]
        then have ok: "resp_statu c1 = 200" by blast
        show ?thesis
        proof (cases "answer order fs srv (request c1)")
          case (Inl e)
          then have "Route fs srv (request c1) (HttpResponse_new 200) = Inl e" by (simp add: answer_def and_then_eq_Inl Let_def split: prod.splits)
          with over o Inl show ?thesis by (simp add: round reply_def)
        next
          case (Inr x)
          then obtain req rsp where route: "Route fs srv (request c1) (HttpResponse_new 200) = Inr (req, rsp)"
            and x: "x = (response_text order req (complete_response req rsp), Response_Close (complete_response req rsp))"
            by (auto simp: answer_def and_then_eq_Inr Let_def)
          let ?rsp = "complete_response req rsp" let ?one = "response_text order req ?rsp"
          have n: "length s1 < n" using o Suc.prems(3) by simp
          have spec': "serve order fs srv (content (in_buffer s)) c = and_then (serve order fs srv s1 HttpContext_new)
              (\<lambda>(texts, closings, c, rest). Inr (?one @ texts, Response_Close ?rsp \<or> closings, c, rest))"
            using o Inr x by simp
          show ?thesis
          proof (rule WriteReponse_cases[OF s', of order ?call req rsp])
            assume "WriteReponse order ?call req rsp ?s = Inl LengthError" "\<not> has_room (out_buffer ?s) (length ?one)"
            with over ok show ?thesis
              unfolding spec' using implements_no_room[of s ?one] by (simp add: round reply_def route buffer_of_def)
          next
            fix t assume sent: "WriteReponse order ?call req rsp ?s = Inr (?rsp, t)"
              and room: "\<And>k. has_room (out_buffer ?s) (length ?one + k) \<Longrightarrow> has_room (out_buffer t) k"
            note a = after_reply[OF s' u sent]
            let ?u = "buffer_of t (in_buffer t) (HttpContext_ReSet c1)"
            note inv = a(5)[of c1]
            have in_u: "conn_context ?u = Some HttpContext_new" "content (in_buffer ?u) = s1"
              using a(2) b1(3) by (simp_all add: ReSet_new)
            let ?v = "if Response_Close ?rsp then ?u\<lparr>statu := DISCONNECTING\<rparr> else ?u"
            have first: "served ?one (Response_Close ?rsp) HttpContext_new s1 s ?v"
              using inv disconnecting_inv[OF inv] a(2,3,4,6) b1(3,4) room by (simp add: served_def ReSet_new buffer_of_def)
            have "implements (serve order fs srv s1 HttpContext_new) ?v
               (and_then (if Response_Close ?rsp then Shutdown ?call True ?u else Inr ?u) (OnMessage order fs srv remove n))"
              using closing_reply_implements[where u = ?u, OF Suc.IH inv in_u(1)] Suc.IH[OF inv in_u(1)] in_u(2) n
              by (simp del: implements_simps)
            from implements_then[OF first this] over ok show ?thesis
              unfolding spec' by (simp add: round reply_def route sent Let_def del: implements_simps)
          qed
        qed
      qed
    qed
  qed
qed simp

section \<open>The specification on a text in two parts\<close>

lemma recv_bytes_fixed:
  "recv_statu c = RECV_HTTP_OVER \<or> recv_statu c = RECV_HTTP_ERROR \<Longrightarrow> recv_bytes s c = Inr (c, s)"
  by (auto simp: recv_bytes_def bytes_rest_def)

lemma serve_append:
  "serve order fs srv s c = Inr (one, False, c1, r1) \<Longrightarrow> ctx_rest c \<Longrightarrow>
   serve order fs srv (s @ t) c
     = and_then (serve order fs srv (r1 @ t) c1) (\<lambda>(texts, closing, c', rest). Inr (one @ texts, closing, c', rest))"
proof (induction "length s" arbitrary: s c one rule: less_induct)
  case less
  note run = less.prems(1) and c = less.prems(2)
  have drop_Nil: "and_then r (\<lambda>(texts, closing, c', rest). Inr ([] @ texts, closing, c', rest)) = r"
    for r :: "fault + (string \<times> bool \<times> http_context \<times> string)" by (cases r) auto
  show ?case
  proof (cases "s = []")
    case True
    with run drop_Nil show ?thesis by auto
  next
    case False
    with run obtain c2 s2 where r: "recv_bytes s c = Inr (c2, s2)"
      by (cases "recv_bytes s c") (auto simp: serve_fault)
    note spec = serve_round[OF False r c, of order fs srv]
    have same: "same_outcome (recv_bytes (s @ t) c) (recv_bytes (s2 @ t) c2)" using recv_bytes_split[of s t c] r by simp
    have ok: "\<not> resp_statu c2 \<ge> 400" using spec(1) run by auto
    show ?thesis
    proof (cases "recv_statu c2 = RECV_HTTP_OVER")
      case wait: False
      from spec(2)[OF ok wait] run have e: "one = []" "c1 = c2" "r1 = s2" "ctx_rest c2" by auto
      have again: "recv_bytes (s2 @ t) c2 = recv_bytes (s @ t) c \<or>
        (\<exists>c' r r'. recv_bytes (s @ t) c = Inr (c', r) \<and> recv_bytes (s2 @ t) c2 = Inr (c', r') \<and> recv_statu c' = RECV_HTTP_ERROR)"
        using same by (cases "recv_bytes (s2 @ t) c2"; cases "recv_bytes (s @ t) c") (auto simp: same_outcome_def)
      have "serve order fs srv (s @ t) c = serve order fs srv (s2 @ t) c2"
      proof (cases "s2 @ t = []")
        case True
        with spec(2)[OF ok wait] show ?thesis by simp
      next
        case pending: False
        have "serve order fs srv (s @ t) c = serve order fs srv (s2 @ t) c2"
          if x: "recv_bytes (s @ t) c = Inr (c', r)" "recv_bytes (s2 @ t) c2 = Inr (c', r')" "recv_statu c' = RECV_HTTP_ERROR" for c' r r'
        proof -
          have bad: "resp_statu c' \<ge> 400" using recv_bytes_progress[OF x(1) c] ctx_restD[of c'] x(3) by auto
          from serve_round(1)[OF _ x(1) c bad] serve_round(1)[OF pending x(2) e(4) bad] False show ?thesis by simp
        qed
        moreover have "serve order fs srv (s @ t) c = serve order fs srv (s2 @ t) c2" if x: "recv_bytes (s2 @ t) c2 = recv_bytes (s @ t) c"
        proof (cases "recv_bytes (s @ t) c")
          case (Inl f)
          with x serve_fault[OF pending] serve_fault[of "s @ t"] False show ?thesis by simp
        next
          case (Inr a)
          obtain c' r' where a: "a = (c', r')" by force
          note y = Inr[unfolded a] x[unfolded Inr a]
          from serve_round[OF _ y(1) c, of order fs srv] serve_round[OF pending y(2) e(4), of order fs srv] False
          show ?thesis by (cases "resp_statu c' \<ge> 400"; cases "recv_statu c' = RECV_HTTP_OVER") auto
        qed
        ultimately show ?thesis using again by blast
      qed
      then show ?thesis using e drop_Nil by simp
    next
      case over: True
      have "recv_bytes (s2 @ t) c2 = Inr (c2, s2 @ t)" by (rule recv_bytes_fixed) (use over in simp)
      with same over have r': "recv_bytes (s @ t) c = Inr (c2, s2 @ t)" by (auto simp: same_outcome_def split: sum.splits)
      from serve_over[OF False r c ok over run] obtain page cl texts cls where
        x: "answer order fs srv (request c2) = Inr (page, cl)" "serve order fs srv s2 HttpContext_new = Inr (texts, cls, c1, r1)"
          "one = page @ texts" "False = (cl \<or> cls)" "length s2 < length s" by metis
      then have "cl = False" "cls = False" by auto
      note IH = less.hyps[OF x(5) x(2)[unfolded this(2)] ctx_rest_new(1)]
      have "s @ t \<noteq> []" using False by simp
      note spec' = serve_round(3)[OF this r' c ok over, of order fs srv]
      show ?thesis
        using spec' x(1,3) IH \<open>cl = False\<close>
        by (cases "serve order fs srv (r1 @ t) c1") (auto split: prod.splits)
    qed
  qed
qed

text \<open>Once the server closes, more bytes do not change that.\<close>

lemma serve_close_stays:
  "serve order fs srv s c = Inr (one, True, c1, r1) \<Longrightarrow> ctx_rest c \<Longrightarrow>
   serve order fs srv (s @ t) c = Inr (out, closing, c', rest) \<Longrightarrow> closing"
proof (induction "length s" arbitrary: s c one out closing rule: less_induct)
  case less
  note run = less.prems(1) and c = less.prems(2) and whole = less.prems(3)
  from run have False: "s \<noteq> []" by auto
  with run obtain c2 s2 where r: "recv_bytes s c = Inr (c2, s2)"
    by (cases "recv_bytes s c") (auto simp: serve_fault)
  note spec = serve_round[OF False r c, of order fs srv]
  have pending: "s @ t \<noteq> []" using False by simp
  have same: "same_outcome (recv_bytes (s @ t) c) (recv_bytes (s2 @ t) c2)" using recv_bytes_split[of s t c] r by simp
  consider (bad) "resp_statu c2 \<ge> 400" | (wait) "\<not> resp_statu c2 \<ge> 400" "recv_statu c2 \<noteq> RECV_HTTP_OVER"
    | (over) "\<not> resp_statu c2 \<ge> 400" "recv_statu c2 = RECV_HTTP_OVER" by blast
  then show ?case
  proof cases
    case bad
    then have "recv_statu c2 = RECV_HTTP_ERROR" using recv_bytes_progress[OF r c] ctx_restD[of c2] by auto
    with same recv_bytes_fixed[of c2] obtain x where "recv_bytes (s @ t) c = Inr (c2, x)" by (auto simp: same_outcome_def split: sum.splits)
    from serve_round(1)[OF pending this c bad, of order fs srv] whole show ?thesis by simp
  next
    case wait
    with spec(2) run show ?thesis by simp
  next
    case over
    with same recv_bytes_fixed[of c2] have r': "recv_bytes (s @ t) c = Inr (c2, s2 @ t)" by (auto simp: same_outcome_def split: sum.splits)
    from serve_over[OF False r c over run] obtain page cl texts cls where
      x: "answer order fs srv (request c2) = Inr (page, cl)" "serve order fs srv s2 HttpContext_new = Inr (texts, cls, c1, r1)"
        "cl \<or> cls" "length s2 < length s" by (metis (full_types))
    from serve_over[OF pending r' c over whole] obtain page' cl' texts' cls' where
      y: "answer order fs srv (request c2) = Inr (page', cl')" "serve order fs srv (s2 @ t) HttpContext_new = Inr (texts', cls', c', rest)"
        "closing = (cl' \<or> cls')" by (metis (full_types))
    show ?thesis
    proof (cases cl)
      case True
      with x(1) y(1,3) show ?thesis by simp
    next
      case no: False
      with x(3) have "cls" by simp
      with less.hyps[OF x(4) _ ctx_rest_new(1) y(2)] x(2) y(3) show ?thesis by auto
    qed
  qed
qed

text \<open>Pipelined requests are answered one after the other.\<close>

lemma serve_pipeline:
  "list_all client_ok reqs \<Longrightarrow> serve order fs srv (concat (map print_client reqs)) HttpContext_new
     = and_then (answers order fs srv (map (\<lambda>r. request (parsed_client r)) reqs)) (\<lambda>(out, closing). Inr (out, closing, HttpContext_new, []))"
proof (induction reqs)
  case (Cons r reqs)
  let ?rest = "concat (map print_client reqs)"
  obtain m p v params hs body where r: "r = (m, p, v, params, hs, body)" by (cases r)
  have "raw_ok m p v params hs body" using Cons.prems by (simp add: client_ok_def r)
  from recv_bytes_raw[OF this, of ?rest] have run: "recv_bytes (print_client r @ ?rest) HttpContext_new = Inr (parsed_client r, ?rest)"
    by (simp add: print_client_def parsed_client_def r)
  have "print_client r @ ?rest \<noteq> []" by simp
  from serve_round(3)[OF this run ctx_rest_new(1) _ parsed_client_facts(2), of order fs srv]
  have "serve order fs srv (print_client r @ ?rest) HttpContext_new = and_then (answer order fs srv (request (parsed_client r)))
      (\<lambda>(one, closing). and_then (serve order fs srv ?rest HttpContext_new) (\<lambda>(texts, closings, c, rest).
        Inr (one @ texts, closing \<or> closings, c, rest)))"
    by (simp add: parsed_client_facts)
  moreover have "serve order fs srv ?rest HttpContext_new
     = and_then (answers order fs srv (map (\<lambda>r. request (parsed_client r)) reqs)) (\<lambda>(out, closing). Inr (out, closing, HttpContext_new, []))"
    using Cons.IH Cons.prems by simp
  ultimately show ?case
    by (simp only: list.map concat.simps answers.simps)
       (cases "answers order fs srv (map (\<lambda>r. request (parsed_client r)) reqs)";
        cases "answer order fs srv (request (parsed_client r))"; simp add: split_beta)
qed simp

end
