(* ===== verification/HttpConnections.thy ===== *)
theory HttpConnections
  imports HttpStream
begin

text \<open>
  The properties of the HTTP server's connections: from acceptance through any run of events, the
  message loop without its fuel, and pipelined requests.
\<close>

section \<open>Lemmas\<close>

lemma http_new_connection:
  assumes "conn_inv (\<lambda>u. u = srv_user None (HttpServer_tcp timeout tcp)) t" and "srv_event_cb tcp = None"
  shows "step_ok (\<lambda>u. http_user u \<and> fst u = Some HttpContext_new) (serve_faults srv) t
    (call_if (http_call order fs srv remove) (srv_connected_cb (HttpServer_tcp timeout tcp)) t)"
proof -
  have "conn_inv (\<lambda>u. http_user u \<and> fst u = Some HttpContext_new) (OnConnected t)" "conn_le t (OnConnected t)"
    using assms ctx_rest_new(1)
    by (auto simp: conn_inv_def conn_core_def conn_le_def OnConnected_def SetContext_def http_user_def srv_user_def
        HttpServer_tcp_def Srv_SetMessageCallback_def Srv_SetConnectedCallback_def Srv_EnableInactiveRelease_def)
  then show ?thesis
    by (simp add: call_if_def http_call_def HttpServer_tcp_def Srv_SetMessageCallback_def Srv_SetConnectedCallback_def
        Srv_EnableInactiveRelease_def)
qed

text \<open>What has been accepted, before its first event.\<close>

lemma http_accepted:
  fixes tcp :: "(http_callback, http_context option, 't, 'l) tcp_server"
  assumes "NextLoop (srv_pool tcp) = Inr (l, q)" and "fresh_in h (view l) a fd"
    and "srv_event_cb tcp = None" and "0 \<le> timeout" and "timeout + 60 \<le> 2 ^ 31"
  shows "case accept_in_loop (http_call order fs srv remove) Cb_removed view None a fd (HttpServer_tcp timeout tcp) of
      Inl e \<Rightarrow> e \<in> serve_faults srv
    | Inr (c, _) \<Rightarrow> conn_inv http_user c \<and> conn_context c = Some HttpContext_new \<and> streams c = ([], Buffer_new, [])
        \<and> CONNECTED \<le> statu c \<and> conn_fd c = fd \<and> ReadAble (conn_channel c)"
proof -
  let ?tcp = "HttpServer_tcp timeout tcp" and ?call = "http_call order fs srv remove"
  have tcp: "srv_pool ?tcp = srv_pool tcp" "srv_message_cb ?tcp \<noteq> None" "timeout_ok ?tcp" "srv_connected_cb ?tcp = Some Cb_connected"
    using assms(4,5) by (simp_all add: HttpServer_tcp_def Srv_SetMessageCallback_def Srv_SetConnectedCallback_def
        Srv_EnableInactiveRelease_def timeout_ok_def)
  have quiet: "call_if ?call (srv_connected_cb ?tcp) s = Inr t \<Longrightarrow> streams t = streams s" for s t
    by (auto simp: tcp(4) call_if_def http_call_def OnConnected_def SetContext_def streams_def)
  show ?thesis
    using accept_ok[where call = ?call and removed = Cb_removed and view = view and h = h
        and P = "\<lambda>u. http_user u \<and> fst u = Some HttpContext_new" and E = "serve_faults srv" and x = None,
        OF assms(1)[folded tcp(1)] assms(2) tcp(2,3) http_new_connection[OF _ assms(3)]]
      accept_streams[where call = ?call and removed = Cb_removed and view = view and x = None,
        OF assms(1)[folded tcp(1)] assms(2) tcp(2,3) quiet]
    by (auto simp: conn_inv_def split: sum.splits)
qed

text \<open>The callbacks inside a round are the callbacks themselves: what a round leaves needs no more fuel.\<close>

lemma http_call_fuel:
  "conn_inv http_user t \<Longrightarrow> length (content (in_buffer t)) < n \<Longrightarrow>
   OnMessage order fs srv remove n t = http_call order fs srv remove Cb_message t"
  using OnMessage_fuel[of t n "Suc (unat (ReadAbleSize (in_buffer t)))"] unat_ReadAbleSize[OF conn_coreD(1)[OF conn_invD[of http_user t]]]
  by (simp add: http_call_def)

text \<open>The callback implements the specification on bytes.\<close>

lemma http_call_implements:
  "conn_inv http_user s \<Longrightarrow> conn_context s = Some c \<Longrightarrow>
   implements (serve order fs srv (content (in_buffer s)) c) s (http_call order fs srv remove Cb_message s)"
  using OnMessage_implements[of s c "Suc (unat (ReadAbleSize (in_buffer s)))"] unat_ReadAbleSize[OF conn_coreD(1)[OF conn_invD[of http_user s]]]
  by (simp add: http_call_def)

lemma http_round:
  assumes s: "conn_inv http_user s" and pending: "ReadAbleSize (in_buffer s) > 0" and c: "conn_context s = Some c"
    and r: "RecvHttpRequest (in_buffer s) c = Inr (c', b)"
    and call_def: "call = http_call order fs srv remove"
  shows "call Cb_message s =
    (if resp_statu c' \<ge> 400 then reply_error order call c' (buffer_of s b c')
     else if recv_statu c' \<noteq> RECV_HTTP_OVER then Inr (buffer_of s b c')
     else and_then (reply order fs srv call c' (buffer_of s b c')) (call Cb_message))"
proof -
  let ?n = "unat (ReadAbleSize (in_buffer s))" and ?s = "buffer_of s b c'"
  note wf = conn_coreD(1)[OF conn_invD[OF s]] and user = http_userD(2)[OF s]
  from http_userD(1)[OF s] c have rest: "ctx_rest c" by auto
  from recv_request_progress[OF wf rest] r have b: "buf_wf b" "suffix (content b) (content (in_buffer s))" and
    p: "resp_statu c' \<ge> 400 \<or> recv_statu c' \<noteq> RECV_HTTP_OVER \<or> length (content b) < ?n"
    by (auto simp: ctx_rest_def unat_ReadAbleSize[OF wf])
  note s' = buffer_of_inv(1)[OF s b, of c']
  have bad: "reply_error order (fuel_call order fs srv remove ?n) c' ?s = reply_error order call c' ?s"
    by (rule reply_error_cong[OF s']) (simp_all add: user)
  have same: "OnMessage order fs srv remove ?n t = call Cb_message t"
    if "conn_inv http_user t" "length (content (in_buffer t)) \<le> length (content b)" "length (content b) < ?n" for t
    using http_call_fuel[OF that(1), of ?n] that by (simp add: call_def)
  have "and_then (reply order fs srv (fuel_call order fs srv remove ?n) c' ?s) (OnMessage order fs srv remove ?n)
      = and_then (reply order fs srv call c' ?s) (call Cb_message)" if less: "length (content b) < ?n"
  proof (rule and_then_cong)
    show "reply order fs srv (fuel_call order fs srv remove ?n) c' ?s = reply order fs srv call c' ?s"
      by (rule reply_cong[OF s']) (simp_all add: user fuel_call_def same less)
    fix t assume t: "reply order fs srv call c' ?s = Inr t"
    have E: "http_faults \<subseteq> serve_faults srv" by (simp add: serve_faults_def)
    have "msg_ok (serve_faults srv) ?s (reply order fs srv call c' ?s)"
      by (rule reply_ok[OF s' _ _ _ E handlers_serve])
         (use user less in \<open>auto simp: same[symmetric] intro!: OnMessage_ok[OF E handlers_serve]\<close>)
    then show "OnMessage order fs srv remove ?n t = call Cb_message t"
      using same[of t] less by (simp add: t msg_ok_def)
  qed
  moreover have "call Cb_message s = OnMessage order fs srv remove (Suc ?n) s" by (simp add: call_def http_call_def)
  ultimately show ?thesis
    unfolding OnMessage_round[OF pending c r] using bad p by (auto simp: not_le)
qed

section \<open>The specification over a run\<close>

text \<open>
  What an HTTP connection has submitted against what has arrived: the answer of the specification to
  all of it; or the server has begun to close the connection at some point, and what it submitted
  until then was the answer to the bytes up to there.
\<close>

definition closed_stream :: "(str_map \<Rightarrow> str_map) \<Rightarrow> file_system \<Rightarrow> http_server \<Rightarrow> string \<Rightarrow> string \<Rightarrow> bool" where
  "closed_stream order fs srv sub got \<longleftrightarrow>
     (\<exists>g out c rest. prefix g got \<and> serve order fs srv g HttpContext_new = Inr (out, True, c, rest) \<and> prefix out sub)"

definition answered_stream :: "(str_map \<Rightarrow> str_map) \<Rightarrow> file_system \<Rightarrow> http_server \<Rightarrow> http_context option
    \<Rightarrow> string \<Rightarrow> string \<Rightarrow> string \<Rightarrow> bool" where
  "answered_stream order fs srv x sub unread got \<longleftrightarrow>
     (\<exists>c. x = Some c \<and> serve order fs srv got HttpContext_new = Inr (sub, False, c, unread)) \<or> closed_stream order fs srv sub got"

text \<open>The same when bytes have arrived that the callback has not seen yet.\<close>

definition arrived_stream :: "(str_map \<Rightarrow> str_map) \<Rightarrow> file_system \<Rightarrow> http_server \<Rightarrow> http_context option
    \<Rightarrow> string \<Rightarrow> string \<Rightarrow> string \<Rightarrow> bool" where
  "arrived_stream order fs srv x sub unread got \<longleftrightarrow>
     (\<exists>c g d rest. x = Some c \<and> got = g @ d \<and> unread = rest @ d \<and> serve order fs srv g HttpContext_new = Inr (sub, False, c, rest))
     \<or> closed_stream order fs srv sub got"

lemma closed_stream_mono: "closed_stream order fs srv sub got \<Longrightarrow> prefix sub sub' \<Longrightarrow> prefix got got' \<Longrightarrow> closed_stream order fs srv sub' got'"
  using prefix_order.trans by (fastforce simp: closed_stream_def)

lemma http_call_answers:
  assumes s: "conn_inv http_user s" and I: "stream_of (arrived_stream order fs srv) s"
  shows "keeps_stream (answered_stream order fs srv) (http_call order fs srv remove Cb_message s)"
proof (cases "http_call order fs srv remove Cb_message s")
  case (Inr t)
  have "is_callback (Some Cb_message) s" using http_userD(2)[OF s] by simp
  from http_call_ok[OF s this, of srv order fs remove] have le: "prefix (submitted s) (submitted t)" "prefix (received_bytes s) (received_bytes t)"
    by (simp_all add: Inr conn_le_def)
  from I consider c g d rest where "conn_context s = Some c" "received_bytes s = g @ d" "content (in_buffer s) = rest @ d"
        "serve order fs srv g HttpContext_new = Inr (submitted s, False, c, rest)"
    | "closed_stream order fs srv (submitted s) (received_bytes s)" by (auto simp: stream_of_def arrived_stream_def)
  then show ?thesis
  proof cases
    case 1
    note run = serve_append[OF 1(4) ctx_rest_new(1), of d]
    from http_call_implements[OF s 1(1), of order fs srv remove] Inr 1(3) obtain out closing c' rest' where
      x: "serve order fs srv (rest @ d) c = Inr (out, closing, c', rest')" and t: "served out closing c' rest' s t"
      by (cases "serve order fs srv (rest @ d) c") auto
    with run 1(2) have "serve order fs srv (received_bytes t) HttpContext_new = Inr (submitted t, closing, c', content (in_buffer t))"
      "conn_context t = Some c'" by (simp_all add: served_def)
    then show ?thesis
      by (cases closing) (auto simp: Inr stream_of_def answered_stream_def closed_stream_def)
  next
    case 2
    from closed_stream_mono[OF this le] show ?thesis by (simp add: Inr stream_of_def answered_stream_def)
  qed
qed simp

interpretation http_stream: conn_stream "http_call order fs srv remove" http_user "serve_faults srv"
    "answered_stream order fs srv" "arrived_stream order fs srv"
  for order fs srv remove
proof unfold_locales
  show "arrived_stream order fs srv x sub (unread @ d) (got @ d)" if "answered_stream order fs srv x sub unread got" for x sub unread got d
    using that closed_stream_mono[of order fs srv sub got sub "got @ d"] by (auto simp: answered_stream_def arrived_stream_def)
  show "answered_stream order fs srv x sub [] got" if "arrived_stream order fs srv x sub [] got" for x sub got
    using that by (auto simp: answered_stream_def arrived_stream_def)
  show "keeps_stream (answered_stream order fs srv) (http_call order fs srv remove k s)"
    if "conn_inv http_user s" "stream_of (arrived_stream order fs srv) s" "Some k \<in> {message_cb s, any_event_cb s}" for s k
    using that http_userD(2)[OF that(1)] http_call_answers by auto
qed

lemma http_stream_run:
  fixes tcp :: "(http_callback, http_context option, 't, 'l) tcp_server"
  assumes "NextLoop (srv_pool tcp) = Inr (l, q)" and "fresh_in h (view l) a fd"
    and "srv_event_cb tcp = None" and "0 \<le> timeout" and "timeout + 60 \<le> 2 ^ 31"
    and "list_all op_fine ops" and "list_all no_send ops"
  shows "case and_then (accept_in_loop (http_call order fs srv remove) Cb_removed view None a fd (HttpServer_tcp timeout tcp))
            (\<lambda>(c, _). conn_run (http_call order fs srv remove) ops c) of
      Inl e \<Rightarrow> e \<in> serve_faults srv
    | Inr t \<Rightarrow> answered_stream order fs srv (conn_context t) (sent t @ content (out_buffer t)) (content (in_buffer t)) (received_bytes t)"
proof -
  let ?call = "http_call order fs srv remove"
  note acc = http_accepted[where view = view and h = h and order = order and fs = fs and srv = srv and remove = remove, OF assms(1-5)]
  show ?thesis
  proof (cases "accept_in_loop ?call Cb_removed view None a fd (HttpServer_tcp timeout tcp)")
    case (Inr r)
    obtain c srv' where r: "r = (c, srv')" by force
    with acc Inr have c: "conn_inv http_user c" "conn_context c = Some HttpContext_new" "streams c = ([], Buffer_new, [])" by simp_all
    then have I: "stream_of (answered_stream order fs srv) c" by (simp add: stream_of_def streams_def answered_stream_def)
    from http_stream.run_keeps[OF c(1) I assms(6,7), of remove] http_client.conn_run_ok[OF c(1) assms(6), of srv order fs remove] show ?thesis
      using conn_coreD(7)[OF conn_invD[of http_user]]
      by (cases "conn_run ?call ops c") (auto simp: Inr r stream_of_def)
  qed (use acc in auto)
qed

text \<open>While the specification does not close, the first of the two cases holds.\<close>

lemma answered_open:
  assumes "answered_stream order fs srv x sub unread got" and "serve order fs srv got HttpContext_new = Inr (out, False, c, rest)"
  shows "x = Some c \<and> sub = out \<and> unread = rest"
proof -
  have "\<not> closed_stream order fs srv sub got"
    using serve_close_stays[OF _ ctx_rest_new(1)] assms(2) by (auto simp: closed_stream_def prefix_def)
  with assms show ?thesis by (auto simp: answered_stream_def)
qed

section \<open>An example server and connection\<close>

text \<open>One handler, for the paths \<open>/[^/]*\<close>.\<close>

definition example_http :: http_server where
  "example_http = Get (Seq (Cls (\<lambda>c. c = CHR ''/'')) (Many (\<lambda>c. c \<noteq> CHR ''/'')))
     (\<lambda>req rsp. Inr (SetContent ''ok'' ''text/plain'' rsp)) HttpServer_new"

definition http_example_conn :: "buffer \<Rightarrow> http_conn" where
  "http_example_conn b = (Connection_new Poller_new TimerWheel_new [] 0 (Some HttpContext_new) 1 5)\<lparr>
     message_cb := Some Cb_message, connected_cb := Some Cb_connected, in_buffer := b, received_bytes := content b\<rparr>"

lemma http_example_inv: "buf_wf b \<Longrightarrow> conn_inv http_user (http_example_conn b)"
  using channel_wf_new[OF poller_wf_new, where a = 0 and fd = 5 and w = TimerWheel_new and ts = "[]" and x = "Some HttpContext_new" and i = 1] ctx_rest_new(1)
  by (simp add: http_example_conn_def conn_inv_def conn_core_def Connection_new_def Socket_new_def wheel_wf_new http_user_def)

definition example_tcp :: "(http_callback, http_context option, string, nat) tcp_server" where
  "example_tcp = fst (projr (TcpServer_new (\<lambda>_. 3) 0 8080 (Socket_new (-1)) 0 0 Poller_new))"

lemma example_tcp_eq: "srv_pool example_tcp = LoopThreadPool_new 0" "srv_event_cb example_tcp = None"
  by (simp_all add: example_tcp_def TcpServer_new_def Acceptor_new_def Acceptor_CreateServer_def CreateServer_def Create_def
      Bind_def Listen_def Socket_new_def Let_def Acceptor_Listen_def EnableRead_def split: prod.split)

lemma example_http_faults: "serve_faults example_http = http_faults"
  by (simp add: serve_faults_def example_http_def Get_def HttpServer_new_def)

section \<open>Properties\<close>



text \<open>
  C1. The HTTP server as a function on bytes.  From its acceptance through any run of events, closures and
  timers (without sends of the application's own), what an HTTP connection has sent and what it
  still has to send is the specification's answer to all the bytes that have arrived, in
  whatever pieces, its context and its unread bytes are the ones the specification leaves; unless
  the server has begun to close the connection (an error page, or a response that closes), and
  then what it submitted begins with the specification's answer to the bytes up to there.
\<close>

theorem http_answers_the_stream:
  fixes tcp :: "(http_callback, http_context option, 't, 'l) tcp_server"
  assumes "NextLoop (srv_pool tcp) = Inr (l, q)" and "fresh_in h (view l) a fd"
    and "srv_event_cb tcp = None" and "0 \<le> timeout" and "timeout + 60 \<le> 2 ^ 31"
    and "list_all op_fine ops" and "list_all no_send ops"
  shows "case and_then (accept_in_loop (http_call order fs srv remove) Cb_removed view None a fd (HttpServer_tcp timeout tcp))
            (\<lambda>(c, _). conn_run (http_call order fs srv remove) ops c) of
      Inl e \<Rightarrow> e \<in> serve_faults srv
    | Inr t \<Rightarrow> (\<exists>c. conn_context t = Some c \<and> serve order fs srv (received_bytes t) HttpContext_new
            = Inr (sent t @ content (out_buffer t), False, c, content (in_buffer t)))
        \<or> (\<exists>g out c rest. prefix g (received_bytes t) \<and> serve order fs srv g HttpContext_new = Inr (out, True, c, rest)
            \<and> prefix out (sent t @ content (out_buffer t)))"
  using http_stream_run[where view = view and h = h and order = order and fs = fs and srv = srv and remove = remove, OF assms]
  by (auto simp: answered_stream_def closed_stream_def split: sum.splits)

theorem http_answers_the_stream_witness:
  "case and_then (accept_in_loop (http_call id (\<lambda>_. None) example_http (\<lambda>s. Inr (s\<lparr>alive := False\<rparr>))) Cb_removed
        (\<lambda>_. (Poller_new, TimerWheel_new)) None 7 5 (HttpServer_tcp 10 example_tcp))
      (\<lambda>(c, _). conn_run (http_call id (\<lambda>_. None) example_http (\<lambda>s. Inr (s\<lparr>alive := False\<rparr>)))
        [Ready_events (2, EAGAIN, ''GE'') (\<lambda>n. (0, EAGAIN)) EPOLLIN, Ready_events (4, EAGAIN, ''T /a'') (\<lambda>n. (0, EAGAIN)) EPOLLIN] c) of
      Inl e \<Rightarrow> e \<in> serve_faults example_http
    | Inr t \<Rightarrow> (\<exists>c. conn_context t = Some c \<and> serve id (\<lambda>_. None) example_http (received_bytes t) HttpContext_new
            = Inr (sent t @ content (out_buffer t), False, c, content (in_buffer t)))
        \<or> (\<exists>g out c rest. prefix g (received_bytes t) \<and> serve id (\<lambda>_. None) example_http g HttpContext_new = Inr (out, True, c, rest)
            \<and> prefix out (sent t @ content (out_buffer t)))"
proof (rule http_answers_the_stream)
  show "NextLoop (srv_pool example_tcp) = Inr (0, LoopThreadPool_new 0)"
    by (simp add: example_tcp_eq NextLoop_def LoopThreadPool_new_def)
  show "fresh_in (\<lambda>_. None) (Poller_new, TimerWheel_new) 7 5"
    by (simp add: fresh_in_def poller_wf_new wheel_wf_new)
qed (simp_all add: example_tcp_eq recv_ok_def send_ok_def)

text \<open>
  C3. The message loop terminates.  On every connection between two events the callback OnMessage, its
  nested calls through Shutdown included, is the solution of its own recursive description, in
  which no fuel occurs: report the error and shut down, wait for more bytes, or reply and go on with
  the rest of the buffer, which is shorter than before.  The fuel of the model never runs out.
\<close>

theorem message_loop_terminates:
  assumes "conn_inv http_user s" and "OutOfFuel \<notin> serve_faults srv" and "conn_context s = Some c"
    and "call = http_call order fs srv remove"
  shows "call Cb_message s \<noteq> Inl OutOfFuel
   \<and> (ReadAbleSize (in_buffer s) = 0 \<longrightarrow> call Cb_message s = Inr s)
   \<and> (ReadAbleSize (in_buffer s) > 0 \<longrightarrow> call Cb_message s =
        and_then (RecvHttpRequest (in_buffer s) c) (\<lambda>(c', b).
          if resp_statu c' \<ge> 400 then reply_error order call c' (buffer_of s b c')
          else if recv_statu c' \<noteq> RECV_HTTP_OVER then Inr (buffer_of s b c')
          else and_then (reply order fs srv call c' (buffer_of s b c')) (call Cb_message)))
   \<and> (\<forall>c' b. RecvHttpRequest (in_buffer s) c = Inr (c', b) \<longrightarrow> resp_statu c' < 400 \<longrightarrow> recv_statu c' = RECV_HTTP_OVER \<longrightarrow>
        length (content b) < length (content (in_buffer s)))"
proof (intro conjI impI allI)
  have "is_callback (Some Cb_message) s" using http_userD(2)[OF assms(1)] by simp
  from http_call_ok[OF assms(1) this, of srv order fs remove] show "call Cb_message s \<noteq> Inl OutOfFuel"
    using assms(2) by (auto simp: assms(4))
  show "call Cb_message s = Inr s" if "ReadAbleSize (in_buffer s) = 0"
    using that by (simp add: assms(4) http_call_def OnMessage_Suc)
  show "call Cb_message s =
        and_then (RecvHttpRequest (in_buffer s) c) (\<lambda>(c', b).
          if resp_statu c' \<ge> 400 then reply_error order call c' (buffer_of s b c')
          else if recv_statu c' \<noteq> RECV_HTTP_OVER then Inr (buffer_of s b c')
          else and_then (reply order fs srv call c' (buffer_of s b c')) (call Cb_message))"
    if pending: "ReadAbleSize (in_buffer s) > 0"
  proof (cases "RecvHttpRequest (in_buffer s) c")
    case (Inl e)
    then show ?thesis using pending assms(3) by (simp add: assms(4) http_call_def OnMessage_Suc)
  next
    case (Inr r)
    obtain c' b where r: "r = (c', b)" by force
    show ?thesis using http_round[OF assms(1) pending assms(3) Inr[unfolded r] assms(4)] by (simp add: Inr r)
  qed
  fix c' b assume *: "RecvHttpRequest (in_buffer s) c = Inr (c', b)" "resp_statu c' < 400" "recv_statu c' = RECV_HTTP_OVER"
  have "ctx_rest c" using http_userD(1)[OF assms(1)] assms(3) by auto
  from recv_request_progress[OF conn_coreD(1)[OF conn_invD[OF assms(1)]] this] * show "length (content b) < length (content (in_buffer s))"
    by (auto simp: ctx_rest_def)
qed

lemma buffer_with: "length d \<le> max_size \<Longrightarrow> \<exists>b. buf_wf b \<and> content b = d"
proof -
  assume d: "length d \<le> max_size"
  then have "has_room Buffer_new (length d)" by (simp add: has_room_def Buffer_new_def)
  from WriteAndPush_ok[OF buf_wf_new this] show ?thesis by auto
qed

theorem message_loop_terminates_witness:
  "\<exists>b. content b = ''GE'' \<and> http_call id (\<lambda>_. None) example_http Inr Cb_message (http_example_conn b) \<noteq> Inl OutOfFuel"
proof -
  from buffer_with[of "''GE''"] obtain b where b: "buf_wf b" "content b = ''GE''" by (auto simp: max_size_def)
  have c: "conn_context (http_example_conn b) = Some HttpContext_new" by (simp add: http_example_conn_def Connection_new_def)
  have "OutOfFuel \<notin> serve_faults example_http" by (simp add: example_http_faults http_faults_def)
  from message_loop_terminates[OF http_example_inv[OF b(1)] this c refl] b(2) show ?thesis by blast
qed

text \<open>
  C4. Pipelined requests are answered in order.  When the input is the concatenation of well-formed
  requests and the output buffer has room, one call of the message callback leaves no input, submits
  exactly the responses the routing function gives for these requests, one after the other, resets
  the context, and shuts the connection down exactly when one of the responses closes it.  (A request
  behind a closing one in the same buffer is still answered, since Shutdown runs the callback again.)
\<close>

theorem pipelined_requests_answered:
  assumes "list_all client_ok reqs" and "conn_inv http_user s" and "conn_context s = Some HttpContext_new"
    and "content (in_buffer s) = concat (map print_client reqs)"
    and "answers order fs srv (map (\<lambda>r. request (parsed_client r)) reqs) = Inr (out, closing)"
    and "has_room (out_buffer s) (length out)"
  shows "\<exists>t. http_call order fs srv remove Cb_message s = Inr t \<and> submitted t = submitted s @ out
     \<and> content (in_buffer t) = [] \<and> conn_context t = Some HttpContext_new
     \<and> statu t = (if closing then DISCONNECTING else statu s) \<and> conn_inv http_user t"
proof -
  have "serve order fs srv (content (in_buffer s)) HttpContext_new = Inr (out, closing, HttpContext_new, [])"
    using serve_pipeline[OF assms(1), of order fs srv] assms(4,5) by simp
  with http_call_implements[OF assms(2,3), of order fs srv remove] assms(6) show ?thesis by (auto simp: served_def)
qed

definition example_requests :: "client_request list" where
  "example_requests = [(''GET'', ''/a'', ''HTTP/1.1'', [], [(''Connection'', ''keep-alive'')], []), (''GET'', ''/b'', ''HTTP/1.0'', [], [], [])]"

lemma example_requests_ok: "list_all client_ok example_requests"
  by (simp add: example_requests_def client_ok_def raw_ok_def length_ok_def methods_def raw_line_def header_ok_def newline_def
      MAX_LINE_def crlf_def percent_def unreserved_def isalnum_def max_size_def)

lemma example_answers:
  "case answers id (\<lambda>_. None) example_http (map (\<lambda>r. request (parsed_client r)) example_requests) of
     Inl e \<Rightarrow> False | Inr (out, closing) \<Rightarrow> length out \<le> 500 \<and> closing"
  by code_simp

theorem pipelined_requests_answered_witness:
  "\<exists>b t out. content b = concat (map print_client example_requests)
     \<and> answers id (\<lambda>_. None) example_http (map (\<lambda>r. request (parsed_client r)) example_requests) = Inr (out, True)
     \<and> http_call id (\<lambda>_. None) example_http Inr Cb_message (http_example_conn b) = Inr t
     \<and> submitted t = out \<and> content (in_buffer t) = [] \<and> statu t = DISCONNECTING"
proof -
  have "length (concat (map print_client example_requests)) \<le> 500" by code_simp
  then have "length (concat (map print_client example_requests)) \<le> max_size" by (simp add: max_size_def)
  from buffer_with[OF this] obtain b where b: "buf_wf b" "content b = concat (map print_client example_requests)" by blast
  from example_answers obtain out where
    out: "answers id (\<lambda>_. None) example_http (map (\<lambda>r. request (parsed_client r)) example_requests) = Inr (out, True)" "length out \<le> 500"
    by (auto split: sum.splits)
  let ?s = "http_example_conn b"
  have s: "conn_context ?s = Some HttpContext_new" "in_buffer ?s = b" "has_room (out_buffer ?s) (length out)" "submitted ?s = []"
    using out(2) by (simp_all add: http_example_conn_def Connection_new_def has_room_def Buffer_new_def max_size_def)
  from pipelined_requests_answered[OF example_requests_ok http_example_inv[OF b(1)] s(1) _ out(1) s(3), of Inr] b(2) s(2,4)
  show ?thesis using b(2) out(1) by auto
qed

end
