(* ===== verification/HttpRouting.thy ===== *)
theory HttpRouting
  imports HttpServerModel "HOL-Library.Multiset"
begin

text \<open>
  What the HTTP server answers to one request: the text of a response and how a client reads it back,
  the routing to static files and handlers, and where static files come from.
\<close>

section \<open>Lines without a newline\<close>

lemma digit_no_newline: "isdigit c \<Longrightarrow> c \<noteq> newline"
  by (auto simp: isdigit_def newline_def Let_def)

lemma to_string_line: "newline \<notin> set (to_string n)"
proof -
  have "newline \<notin> set (decimal k)" for k using decimal_digits[of k] digit_no_newline by blast
  moreover have "newline \<noteq> CHR ''-''" by (simp add: newline_def)
  ultimately show ?thesis by (simp add: to_string_def)
qed

lemma StatuDesc_line: "newline \<notin> set (StatuDesc n)"
proof -
  have "\<forall>d \<in> set (map snd statu_msg). newline \<notin> set d" by code_simp
  then show ?thesis by (auto simp: StatuDesc_def newline_def dest!: map_of_SomeD split: option.splits)
qed

section \<open>Headers of a response\<close>

lemma complete_headers_distinct:
  "distinct (map fst (rs_headers rsp)) \<Longrightarrow> distinct (map fst (rs_headers (complete_response req rsp)))"
  by (simp add: complete_response_def Let_def rs_SetHeader_def map_insert_distinct)

lemma complete_keeps [simp]:
  "rs_body (complete_response req rsp) = rs_body rsp" "rs_statu (complete_response req rsp) = rs_statu rsp"
  by (simp_all add: complete_response_def Let_def rs_SetHeader_def)

lemma SetHeader_simps [simp]:
  "rs_body (rs_SetHeader k v r) = rs_body r" "rs_redirect_flag (rs_SetHeader k v r) = rs_redirect_flag r"
  "map_of (rs_headers (rs_SetHeader k v r)) j = (if j = k \<and> \<not> rs_HasHeader k r then Some v else map_of (rs_headers r) j)"
  using response_headers.look_ins[of k v r] response_headers.has_look[of k r]
  by (simp_all add: rs_SetHeader_def split: option.splits)

lemma complete_length:
  assumes "\<not> rs_HasHeader ''Content-Length'' rsp"
  shows "map_of (rs_headers (complete_response req rsp)) ''Content-Length''
    = (if rs_body rsp = [] then None else Some (to_string (int (length (rs_body rsp)))))"
proof -
  let ?r = "if Request_Close req then rs_SetHeader ''Connection'' ''close'' rsp else rs_SetHeader ''Connection'' ''keep-alive'' rsp"
  have r: "\<not> rs_HasHeader ''Content-Length'' ?r" "rs_body ?r = rs_body rsp" "map_of (rs_headers ?r) ''Content-Length'' = None"
    using assms by (simp_all add: response_headers.has_ins response_headers.has_look)
  show ?thesis
    unfolding complete_response_def Let_def
    by (cases "rs_body rsp = []") (simp_all add: r)
qed

lemma drop_length_append: "drop (length xs) (xs @ ys) = ys"
  by simp

lemma map_of_order:
  assumes "mset (order m) = mset m" and "distinct (map fst m)"
  shows "map_of (order m) = map_of m" "set (order m) = set m"
proof -
  show set: "set (order m) = set m" using assms(1) by (metis set_mset_mset)
  have "mset (map fst (order m)) = mset (map fst m)" using assms(1) by simp
  then have "distinct (map fst (order m))" using assms(2) mset_eq_imp_distinct_iff by blast
  with set assms(2) show "map_of (order m) = map_of m" by (simp add: map_of_inject_set)
qed

section \<open>Routing\<close>

text \<open>A handler matches a path when its whole expression does; the first in order of registration is taken.\<close>

definition handles :: "string \<Rightarrow> rx \<times> handler \<Rightarrow> bool" where
  "handles path rh \<longleftrightarrow> regex_match (fst rh) path \<noteq> None"

definition route_table :: "http_server \<Rightarrow> string \<Rightarrow> handlers" where
  "route_table srv m = (if m = ''GET'' \<or> m = ''HEAD'' then get_route srv else if m = ''POST'' then post_route srv
     else if m = ''PUT'' then put_route srv else delete_route srv)"

lemma submatches_None [simp]: "submatches r s = None \<longleftrightarrow> regex_match r s = None"
  by (simp add: submatches_def)

lemma Dispatcher_first:
  "Dispatcher req rsp hs = (case find (handles (rq_path req)) hs of
      None \<Rightarrow> Inr (req\<lparr>rq_matches := (if hs = [] then rq_matches req else [])\<rparr>, rsp\<lparr>rs_statu := 404\<rparr>)
    | Some (re, h) \<Rightarrow> let req = req\<lparr>rq_matches := the (submatches re (rq_path req))\<rparr> in
        and_then (h req rsp) (\<lambda>rsp. Inr (req, rsp)))"
proof (induction hs arbitrary: req)
  case (Cons rh hs)
  obtain re h where rh: "rh = (re, h)" by force
  show ?case
    using Cons.IH[of "req\<lparr>rq_matches := []\<rparr>"]
    by (cases "submatches re (rq_path req)")
       (auto simp: rh handles_def submatches_def Let_def split: option.splits)
qed simp

text \<open>The file a path names under the served directory.\<close>

definition static_path :: "http_server \<Rightarrow> string \<Rightarrow> string" where
  "static_path srv path = basedir srv @ path @ (if last path = CHR ''/'' then ''index.html'' else [])"

definition is_static :: "file_system \<Rightarrow> http_server \<Rightarrow> http_request \<Rightarrow> bool" where
  "is_static fs srv req \<longleftrightarrow> basedir srv \<noteq> [] \<and> rq_method req \<in> {''GET'', ''HEAD''}
     \<and> ValidPath (rq_path req) = Some True \<and> IsRegular fs (static_path srv (rq_path req))"

lemma file_path_static: "rq_path req \<noteq> [] \<Longrightarrow> file_path srv req = Inr (static_path srv (rq_path req))"
  by (simp add: file_path_def static_path_def)

lemma IsFileHandler_static: "rq_path req \<noteq> [] \<Longrightarrow> IsFileHandler fs srv req = Inr (is_static fs srv req)"
  by (auto simp: IsFileHandler_def is_static_def file_path_static)

lemma FileHandler_static:
  assumes "rq_path req \<noteq> []" and "fs (static_path srv (rq_path req)) = Some (RegularFile d)"
  shows "FileHandler fs srv req rsp
    = Inr (rs_SetHeader ''Content-Type'' (ExtMime (static_path srv (rq_path req))) (rsp\<lparr>rs_body := d\<rparr>))"
  using assms by (simp add: FileHandler_def file_path_static ReadFile_def)

lemma is_staticD: "is_static fs srv req \<Longrightarrow> \<exists>d. fs (static_path srv (rq_path req)) = Some (RegularFile d)"
  by (auto simp: is_static_def IsRegular_def split: option.splits file_node.splits)

lemma Route_static:
  assumes "rq_path req \<noteq> []"
  shows "is_static fs srv req \<Longrightarrow> fs (static_path srv (rq_path req)) = Some (RegularFile d) \<Longrightarrow> Route fs srv req rsp
      = Inr (req, rs_SetHeader ''Content-Type'' (ExtMime (static_path srv (rq_path req))) (rsp\<lparr>rs_body := d\<rparr>))"
    and "\<not> is_static fs srv req \<Longrightarrow> rq_method req \<in> set methods \<Longrightarrow>
      Route fs srv req rsp = Dispatcher req rsp (route_table srv (rq_method req))"
  using assms by (auto simp: Route_def IsFileHandler_static FileHandler_static route_table_def methods_def)

section \<open>Properties\<close>

text \<open>
  C14. A client reads back what the server answered.  The text of a completed response is the status line
  with version, number and description; the lines after it, read by the header parser, give exactly the
  headers of the response, in whatever order the map iterates them, and leave exactly the body; and the
  Content-Length a client computes from them is the length of the body.
\<close>

theorem response_roundtrip:
  assumes "\<forall>m. mset (order m) = mset m" and "distinct (map fst (rs_headers rsp))"
    and "\<forall>h \<in> set (rs_headers (complete_response req rsp)). header_ok h"
    and "newline \<notin> set (rq_version req)" and "length (rs_body rsp) < 2 ^ 63" and "\<not> rs_HasHeader ''Content-Length'' rsp"
    and rsp'_def: "rsp' = complete_response req rsp" and sent: "sent_text = response_text order req rsp'"
  shows "first_line sent_text = rq_version req @ '' '' @ to_string (rs_statu rsp) @ '' '' @ StatuDesc (rs_statu rsp) @ crlf
     \<and> (\<exists>c. bytes_head (drop (length (first_line sent_text)) sent_text) (HttpContext_new\<lparr>recv_statu := RECV_HTTP_HEAD\<rparr>)
            = Inr (c, rs_body rsp)
         \<and> recv_statu c = RECV_HTTP_BODY \<and> map_of (rq_headers (request c)) = map_of (rs_headers rsp')
         \<and> ContentLength (request c) = Inr (of_nat (length (rs_body rsp))))"
proof -
  let ?hs = "order (rs_headers rsp')" and ?line = "rq_version req @ '' '' @ to_string (rs_statu rsp) @ '' '' @ StatuDesc (rs_statu rsp)"
  let ?rest = "concat (map print_header ?hs) @ crlf @ rs_body rsp" and ?start = "HttpContext_new\<lparr>recv_statu := RECV_HTTP_HEAD\<rparr>"
  let ?c = "?start\<lparr>request := fold (\<lambda>(k, v). SetHeader k v) ?hs (request ?start), recv_statu := RECV_HTTP_BODY\<rparr>"
  have order: "map_of ?hs = map_of (rs_headers rsp')" "set ?hs = set (rs_headers rsp')"
    using map_of_order[of order "rs_headers rsp'"] assms(1) complete_headers_distinct[OF assms(2), of req]
    by (simp_all add: rsp'_def)
  have whole: "sent_text = (?line @ crlf) @ ?rest"
    by (simp add: sent response_text_def print_header_def rsp'_def)
  have nl: "newline \<notin> set ?line" using assms(4) to_string_line StatuDesc_line by (simp add: newline_def)
  have first: "first_line sent_text = ?line @ crlf" unfolding whole append_assoc[of ?line crlf] by (rule first_line_crlf[OF nl])
  have rest: "drop (length (first_line sent_text)) sent_text = ?rest"
    unfolding first unfolding whole by (rule drop_length_append)
  have head: "bytes_head ?rest ?start = Inr (?c, rs_body rsp)"
    by (rule bytes_head_print) (use assms(3) order(2) in \<open>simp add: rsp'_def\<close>)
  have headers: "map_of (rq_headers (request ?c)) = map_of (rs_headers rsp')"
    using request_headers.look_fold[of ?hs "request ?start"]
    by (simp add: HttpContext_new_def HttpRequest_new_def order(1) fun_eq_iff)
  have "ContentLength (request ?c) = Inr (of_nat (length (rs_body rsp)))"
  proof (cases "rs_body rsp = []")
    case True
    then have "map_of (rq_headers (request ?c)) ''Content-Length'' = None"
      using complete_length[OF assms(6), of req] unfolding headers by (simp add: rsp'_def)
    then show ?thesis using True by (simp add: ContentLength_def request_headers.has_look)
  next
    case False
    then have "map_of (rq_headers (request ?c)) ''Content-Length'' = Some (to_string (int (length (rs_body rsp))))"
      using complete_length[OF assms(6), of req] unfolding headers by (simp add: rsp'_def)
    then show ?thesis using stol_to_string[OF assms(5)]
      by (simp add: ContentLength_def request_headers.has_look request_headers.get_look)
  qed
  with head headers have "\<exists>c. bytes_head ?rest ?start = Inr (c, rs_body rsp) \<and> recv_statu c = RECV_HTTP_BODY
      \<and> map_of (rq_headers (request c)) = map_of (rs_headers rsp')
      \<and> ContentLength (request c) = Inr (of_nat (length (rs_body rsp)))" by (intro exI[of _ ?c]) simp
  then show ?thesis unfolding rest unfolding first append_assoc by blast
qed

theorem response_roundtrip_witness:
  defines "req \<equiv> HttpRequest_new\<lparr>rq_version := ''HTTP/1.1''\<rparr>" and "rsp \<equiv> SetContent ''ok'' ''text/plain'' (HttpResponse_new 200)"
  shows "first_line (response_text rev req (complete_response req rsp)) = ''HTTP/1.1'' @ '' '' @ to_string 200 @ '' '' @ StatuDesc 200 @ crlf"
proof -
  have parts: "rs_headers rsp = [(''Content-Type'', ''text/plain'')]" "rs_body rsp = ''ok''" "rs_statu rsp = 200" "\<not> rs_redirect_flag rsp"
    "Request_Close req"
    by (simp_all add: rsp_def req_def SetContent_def HttpResponse_new_def rs_SetHeader_def map_insert_def Request_Close_def
        HasHeader_def map_has_def HttpRequest_new_def)
  have two: "to_string 2 = ''2''" by code_simp
  have "rs_headers (complete_response req rsp) = [(''Content-Type'', ''text/plain''), (''Connection'', ''close''), (''Content-Length'', ''2'')]"
    using parts by (simp add: complete_response_def Let_def rs_HasHeader_def rs_SetHeader_def map_insert_def map_has_def two)
  then have ok: "\<forall>h \<in> set (rs_headers (complete_response req rsp)). header_ok h"
    by (simp add: header_ok_def newline_def MAX_LINE_def)
  from response_roundtrip[OF _ _ ok _ _ _ refl refl, of rev] parts show ?thesis
    by (simp add: req_def rs_HasHeader_def map_has_def newline_def)
qed

lemma Route_answer:
  assumes "rq_method req \<in> set methods" and "rq_path req \<noteq> []"
  shows "Route fs srv req rsp =
    (if is_static fs srv req then (case fs (static_path srv (rq_path req)) of
         Some (RegularFile d) \<Rightarrow>
           Inr (req, rs_SetHeader ''Content-Type'' (ExtMime (static_path srv (rq_path req))) (rsp\<lparr>rs_body := d\<rparr>))
       | _ \<Rightarrow> Inr (req, rsp))
     else (case find (handles (rq_path req)) (route_table srv (rq_method req)) of
         None \<Rightarrow> Inr (req\<lparr>rq_matches := (if route_table srv (rq_method req) = [] then rq_matches req else [])\<rparr>,
                      rsp\<lparr>rs_statu := 404\<rparr>)
       | Some (re, h) \<Rightarrow> let req' = req\<lparr>rq_matches := the (submatches re (rq_path req))\<rparr> in
           and_then (h req' rsp) (\<lambda>rsp. Inr (req', rsp))))"
proof (cases "is_static fs srv req")
  case True
  from is_staticD[OF True] obtain d where "fs (static_path srv (rq_path req)) = Some (RegularFile d)" by blast
  with Route_static(1)[OF assms(2) True this] True show ?thesis by simp
next
  case False
  with Route_static(2)[OF assms(2) False assms(1)] show ?thesis by (simp add: Dispatcher_first)
qed

text \<open>
  C15. Every request of a known method with a path has one answer.  If it is a GET or HEAD, a directory is
  served, ValidPath accepts the path and it names a regular file there, the answer is that file with
  the type of its extension; otherwise the first registered handler of the method whose expression
  matches the whole path answers, with the matched groups in the request; otherwise the status is 404.
  (405, which the code has a branch for, is never the answer.)
\<close>

theorem route_correct:
  assumes "rq_method req \<in> set methods" and "rq_path req \<noteq> []"
  shows "Route fs srv req rsp =
    (if is_static fs srv req then (case fs (static_path srv (rq_path req)) of
         Some (RegularFile d) \<Rightarrow>
           Inr (req, rs_SetHeader ''Content-Type'' (ExtMime (static_path srv (rq_path req))) (rsp\<lparr>rs_body := d\<rparr>))
       | _ \<Rightarrow> Inr (req, rsp))
     else (case find (handles (rq_path req)) (route_table srv (rq_method req)) of
         None \<Rightarrow> Inr (req\<lparr>rq_matches := (if route_table srv (rq_method req) = [] then rq_matches req else [])\<rparr>,
                      rsp\<lparr>rs_statu := 404\<rparr>)
       | Some (re, h) \<Rightarrow> let req' = req\<lparr>rq_matches := the (submatches re (rq_path req))\<rparr> in
           and_then (h req' rsp) (\<lambda>rsp. Inr (req', rsp))))"
  using assms by (rule Route_answer)

theorem route_correct_witness:
  defines "srv \<equiv> Post (lits ''/login'') (\<lambda>req rsp. Inr (SetContent (rq_body req) ''text/plain'' rsp)) HttpServer_new"
  shows "Route (\<lambda>_. None) srv (HttpRequest_new\<lparr>rq_method := ''POST'', rq_path := ''/exit''\<rparr>) (HttpResponse_new 200)
    = Inr (HttpRequest_new\<lparr>rq_method := ''POST'', rq_path := ''/exit'', rq_matches := []\<rparr>, (HttpResponse_new 200)\<lparr>rs_statu := 404\<rparr>)"
proof -
  have "regex_match (lits ''/login'') ''/exit'' = None"
    by (simp add: regex_match_def lit_def tolower_def Let_def)
  then have miss: "find (handles ''/exit'') (route_table srv ''POST'') = None" "route_table srv ''POST'' \<noteq> []"
    by (simp_all add: srv_def Post_def HttpServer_new_def route_table_def handles_def del: lits.simps)
  have not_file: "\<not> is_static fs srv req" for fs req by (simp add: is_static_def srv_def Post_def HttpServer_new_def)
  show ?thesis
    by (subst route_correct)
       (simp_all add: not_file methods_def miss)
qed

text \<open>
  C16. Static files come from the served directory.  A request whose path has no \<open>.\<close> component and that is
  answered by the file handler is a GET or HEAD; following its path from the served directory never
  leaves that directory; and the body is exactly the regular file the path names there.
\<close>

theorem static_files_confined:
  assumes "IsFileHandler fs srv req = Inr True" and "rq_path req \<noteq> []" and "''.'' \<notin> set (path_components (rq_path req))"
  shows "rq_method req \<in> {''GET'', ''HEAD''} \<and> walk [] (path_components (rq_path req)) \<noteq> None
    \<and> (\<exists>d rsp'. fs (basedir srv @ rq_path req @ (if last (rq_path req) = CHR ''/'' then ''index.html'' else [])) = Some (RegularFile d)
         \<and> Route fs srv req rsp = Inr (req, rsp') \<and> rs_body rsp' = d \<and> rs_statu rsp' = rs_statu rsp)"
proof -
  have static: "is_static fs srv req" using assms(1) IsFileHandler_static[OF assms(2), of fs srv] by simp
  from is_staticD[OF static] obtain d where d: "fs (static_path srv (rq_path req)) = Some (RegularFile d)" by blast
  have "ValidPath (rq_path req) = Some (walk [] (path_components (rq_path req)) \<noteq> None)"
    using path_levels_walk[OF assms(3), of "[]"] by (simp add: ValidPath_def Split_fields path_components_def)
  moreover have "rs_body (rs_SetHeader k v (rsp\<lparr>rs_body := d\<rparr>)) = d \<and> rs_statu (rs_SetHeader k v (rsp\<lparr>rs_body := d\<rparr>)) = rs_statu rsp" for k v
    by (simp add: rs_SetHeader_def)
  ultimately show ?thesis
    using static Route_static(1)[OF assms(2) static d, of rsp] d by (auto simp: is_static_def static_path_def)
qed

theorem static_files_confined_witness:
  defines "fs \<equiv> (\<lambda>p. if p = ''./www/a/index.html'' then Some (RegularFile ''hi'') else None)"
    and "srv \<equiv> HttpServer_new\<lparr>basedir := ''./www''\<rparr>" and "req \<equiv> HttpRequest_new\<lparr>rq_method := ''GET'', rq_path := ''/a/''\<rparr>"
  shows "walk [] (path_components (rq_path req)) \<noteq> None \<and> (\<exists>rsp'. Route fs srv req (HttpResponse_new 200) = Inr (req, rsp') \<and> rs_body rsp' = ''hi'')"
proof -
  have split: "Split ''/a/'' ''/'' [] = Some [''a'']" by (simp add: Split_def split_loop.simps str_find_def)
  have served: "IsFileHandler fs srv req = Inr True"
    by (simp add: IsFileHandler_def fs_def srv_def req_def ValidPath_def split file_path_def IsRegular_def)
  have "''.'' \<notin> set (path_components (rq_path req))" by (simp add: req_def path_components_parts[OF split])
  from static_files_confined[OF served _ this] show ?thesis
    by (simp add: fs_def srv_def req_def) fastforce
qed

text \<open>With a \<open>.\<close> component the file handler serves what lies outside the directory.\<close>

theorem dot_path_served:
  assumes "fs (''./www'' @ ''/./../x'') = Some (RegularFile d)"
  shows "IsFileHandler fs (HttpServer_new\<lparr>basedir := ''./www''\<rparr>) (HttpRequest_new\<lparr>rq_method := ''GET'', rq_path := ''/./../x''\<rparr>) = Inr True"
proof -
  have "ValidPath ''/./../x'' = Some True" by (simp add: ValidPath_def Split_def split_loop.simps str_find_def)
  then show ?thesis using assms by (simp add: IsFileHandler_def file_path_def IsRegular_def)
qed

end
