(* ===== verification/EventLoopModel.thy ===== *)
theory EventLoopModel
  imports LoopTasks ChannelPoller SocketIO
begin

text \<open>
  The class EventLoop of source/server.hpp as a whole: its constructor with the two descriptors the
  loop itself watches, the eventfd and the timer's, the errors of reading and writing the eventfd,
  and the rounds of Start over the poller, the channels and the task queue.
\<close>

section \<open>State\<close>

text \<open>
  Channels are known by address; \<open>'c\<close> names their callbacks, \<open>'k\<close> tasks.  \<open>counter_fd\<close> is the count
  the eventfd holds, which the kernel keeps.
\<close>

record ('k, 'c) srv_loop = "'k event_loop" +
  loop_thread_id :: int
  event_fd :: int
  el_channels :: "nat \<Rightarrow> 'c channel option"
  el_poller :: poller
  counter_fd :: nat

text \<open>What a read or write of the eventfd or timerfd answers.\<close>

datatype fd_answer = Fd_ok | Fd_failed errno

definition CreateEventFd :: "int \<Rightarrow> fault + int" where
  "CreateEventFd efd = (if efd < 0 then Inl Aborted else Inr efd)"

definition CreateTimerfd :: "int \<Rightarrow> fault + int" where
  "CreateTimerfd timerfd = (if timerfd < 0 then Inl Aborted else Inr timerfd)"

text \<open>A read takes the whole count; interrupted or without a count it is given up, else it aborts.\<close>

definition ReadEventfd :: "fd_answer \<Rightarrow> ('k, 'c, 'm) srv_loop_scheme \<Rightarrow> fault + ('k, 'c, 'm) srv_loop_scheme" where
  "ReadEventfd ans l = (case ans of
       Fd_ok \<Rightarrow> Inr (l\<lparr>counter_fd := 0\<rparr>)
     | Fd_failed e \<Rightarrow> if e = EINTR \<or> e = EAGAIN then Inr l else Inl Aborted)"

definition WeakUpEventFd :: "fd_answer \<Rightarrow> ('k, 'c, 'm) srv_loop_scheme \<Rightarrow> fault + ('k, 'c, 'm) srv_loop_scheme" where
  "WeakUpEventFd ans l = (case ans of
       Fd_ok \<Rightarrow> Inr (l\<lparr>counter_fd := Suc (counter_fd l), wakes := Suc (wakes l)\<rparr>)
     | Fd_failed e \<Rightarrow> if e = EINTR then Inr (l\<lparr>wakes := Suc (wakes l)\<rparr>) else Inl Aborted)"

text \<open>\<open>expired\<close> is the count of expirations read from the timerfd.\<close>

definition ReadTimefd :: "fd_answer \<Rightarrow> u64 \<Rightarrow> fault + int" where
  "ReadTimefd ans expired = (case ans of Fd_failed e \<Rightarrow> Inl Aborted | Fd_ok \<Rightarrow> Inr (sint (ucast expired :: u32)))"

text \<open>
  The constructor: the timer's channel, at address 1, is made and registered by the constructor of
  the member _timer_wheel, then the eventfd's, at address 0.
\<close>

definition EventLoop_new :: "int \<Rightarrow> int \<Rightarrow> int \<Rightarrow> fault + ('k, string) srv_loop" where
  "EventLoop_new tid efd timerfd =
     and_then (CreateEventFd efd) (\<lambda>efd.
     and_then (CreateTimerfd timerfd) (\<lambda>timerfd.
       let (tc, p) = EnableRead 1 ((Channel_new timerfd)\<lparr>read_callback := Some ''OnTime''\<rparr>) Poller_new;
           (ec, p) = EnableRead 0 ((Channel_new efd)\<lparr>read_callback := Some ''ReadEventfd''\<rparr>) p in
       Inr \<lparr>el_tasks = [], wakes = 0, loop_thread_id = tid, event_fd = efd, el_channels = [0 \<mapsto> ec, 1 \<mapsto> tc],
         el_poller = p, counter_fd = 0\<rparr>))"

section \<open>Operations\<close>

definition IsInLoop :: "int \<Rightarrow> ('k, 'c, 'm) srv_loop_scheme \<Rightarrow> bool" where
  "IsInLoop tid l \<longleftrightarrow> loop_thread_id l = tid"

definition AssertInLoop :: "int \<Rightarrow> ('k, 'c, 'm) srv_loop_scheme \<Rightarrow> fault + unit" where
  "AssertInLoop tid l = (if loop_thread_id l = tid then Inr () else Inl AssertFailed)"

definition post_task :: "fd_answer \<Rightarrow> 'k \<Rightarrow> ('k, 'c, 'm) srv_loop_scheme \<Rightarrow> fault + ('k, 'c, 'm) srv_loop_scheme" where
  "post_task ans k l = WeakUpEventFd ans (l\<lparr>el_tasks := el_tasks l @ [k]\<rparr>)"

definition run_or_post :: "fd_answer \<Rightarrow> ('k \<Rightarrow> ('k, 'c, 'm) srv_loop_scheme \<Rightarrow> fault + ('k, 'c, 'm) srv_loop_scheme) \<Rightarrow> int
    \<Rightarrow> 'k \<Rightarrow> ('k, 'c, 'm) srv_loop_scheme \<Rightarrow> fault + ('k, 'c, 'm) srv_loop_scheme" where
  "run_or_post ans run tid k l = (if IsInLoop tid l then run k l else post_task ans k l)"

text \<open>
  The components that queue closures use QueueInLoop: whenever the post returns, it has done that, and
  the eventfd's count is up by one or, if the write was interrupted, as before.
\<close>

lemma post_task_queues:
  "post_task ans k l = (case ans of
       Fd_ok \<Rightarrow> Inr ((QueueInLoop k l)\<lparr>counter_fd := Suc (counter_fd l)\<rparr>)
     | Fd_failed e \<Rightarrow> if e = EINTR then Inr (QueueInLoop k l) else Inl Aborted)"
  by (simp add: post_task_def WeakUpEventFd_def QueueInLoop_def split: fd_answer.split)

text \<open>The poller's operations the loop passes on, for the channel at an address.\<close>

definition loop_UpdateEvent :: "nat \<Rightarrow> ('k, 'c, 'm) srv_loop_scheme \<Rightarrow> fault + ('k, 'c, 'm) srv_loop_scheme" where
  "loop_UpdateEvent a l = (case el_channels l a of None \<Rightarrow> Inl UseAfterFree
     | Some c \<Rightarrow> Inr (l\<lparr>el_poller := UpdateEvent a c (el_poller l)\<rparr>))"

definition loop_RemoveEvent :: "nat \<Rightarrow> ('k, 'c, 'm) srv_loop_scheme \<Rightarrow> fault + ('k, 'c, 'm) srv_loop_scheme" where
  "loop_RemoveEvent a l = (case el_channels l a of None \<Rightarrow> Inl UseAfterFree
     | Some c \<Rightarrow> Inr (l\<lparr>el_poller := RemoveEvent c (el_poller l)\<rparr>))"

text \<open>
  A round of Start: \<open>wait\<close> is what epoll_wait answers, \<open>handle a\<close> handles the events of the channel at
  \<open>a\<close>, \<open>run\<close> runs a task.  Start itself goes on for as many rounds as epoll_wait returns.
\<close>

definition Start_round :: "(nat \<Rightarrow> ('k, 'c, 'm) srv_loop_scheme \<Rightarrow> fault + ('k, 'c, 'm) srv_loop_scheme)
    \<Rightarrow> ('k \<Rightarrow> ('k, 'c, 'm) srv_loop_scheme \<Rightarrow> fault + ('k, 'c, 'm) srv_loop_scheme)
    \<Rightarrow> wait_result \<Rightarrow> ('k, 'c, 'm) srv_loop_scheme \<Rightarrow> fault + ('k, 'c, 'm) srv_loop_scheme" where
  "Start_round handle run wait l =
     and_then (Poll wait (el_poller l) (el_channels l)) (\<lambda>(actives, h).
     and_then (run_tasks handle actives (l\<lparr>el_channels := h\<rparr>)) (\<lambda>l.
     and_then (run_tasks run (el_tasks l) (l\<lparr>el_tasks := []\<rparr>)) Inr))"

fun Start_rounds where
  "Start_rounds handle run [] l = Inr l"
| "Start_rounds handle run (wait # waits) l = and_then (Start_round handle run wait l) (Start_rounds handle run waits)"

text \<open>Handling the loop's own channels; \<open>other\<close> runs the callbacks of all others.\<close>

definition own_callback :: "fd_answer \<Rightarrow> ('c \<Rightarrow> ('k, 'c, 'm) srv_loop_scheme \<Rightarrow> fault + ('k, 'c, 'm) srv_loop_scheme)
    \<Rightarrow> 'c \<Rightarrow> 'c \<Rightarrow> ('k, 'c, 'm) srv_loop_scheme \<Rightarrow> fault + ('k, 'c, 'm) srv_loop_scheme" where
  "own_callback ans other read_cb cb l = (if cb = read_cb then ReadEventfd ans l else other cb l)"

definition channel_at :: "nat \<Rightarrow> ('k, 'c, 'm) srv_loop_scheme \<Rightarrow> 'c channel" where
  "channel_at a l = (case el_channels l a of Some c \<Rightarrow> c | None \<Rightarrow> Channel_new (-1))"

section \<open>Properties\<close>

text \<open>
  A new loop watches its own two descriptors: when eventfd and timerfd_create succeed, the
  constructor makes two epoll_ctl calls, both of which the kernel accepts, and the kernel's interest
  list is exactly the eventfd and the timerfd, each for input; when one of them fails, the program
  aborts.
\<close>

theorem new_loop_watches_itself:
  assumes "efd \<noteq> timerfd"
  shows "if efd < 0 \<or> timerfd < 0 then (EventLoop_new tid efd timerfd :: fault + ('k, string) srv_loop) = Inl Aborted
     else \<exists>l :: ('k, string) srv_loop. EventLoop_new tid efd timerfd = Inr l \<and> event_fd l = efd \<and> el_tasks l = []
       \<and> poller_wf (el_channels l, el_poller l)
       \<and> interest (ctl_calls (el_poller l)) (\<lambda>_. None) = Some [efd \<mapsto> EPOLLIN, timerfd \<mapsto> EPOLLIN]"
proof (cases "efd < 0 \<or> timerfd < 0")
  case False
  let ?tc = "(Channel_new timerfd)\<lparr>read_callback := Some ''OnTime'', ch_events := EPOLLIN\<rparr>"
    and ?ec = "(Channel_new efd)\<lparr>read_callback := Some ''ReadEventfd'', ch_events := EPOLLIN\<rparr>"
  let ?p = "\<lparr>p_channels = [timerfd \<mapsto> 1, efd \<mapsto> 0],
     ctl_calls = [(EPOLL_CTL_ADD, timerfd, EPOLLIN), (EPOLL_CTL_ADD, efd, EPOLLIN)]\<rparr>"
  have new: "(EventLoop_new tid efd timerfd :: fault + ('k, string) srv_loop) = Inr \<lparr>el_tasks = [], wakes = 0, loop_thread_id = tid, event_fd = efd,
      el_channels = [0 \<mapsto> ?ec, 1 \<mapsto> ?tc], el_poller = ?p, counter_fd = 0\<rparr>"
    using False assms by (simp add: EventLoop_new_def CreateEventFd_def CreateTimerfd_def EnableRead_def UpdateEvent_def
        HasChannel_def Poller_Update_def Poller_new_def Channel_new_def Let_def)
  have int: "interest (ctl_calls ?p) (\<lambda>_. None) = Some [efd \<mapsto> EPOLLIN, timerfd \<mapsto> EPOLLIN]"
    using assms by (auto simp: fun_eq_iff)
  have "wanted ([0 \<mapsto> ?ec, 1 \<mapsto> ?tc], ?p) = [efd \<mapsto> EPOLLIN, timerfd \<mapsto> EPOLLIN]"
    using assms by (auto simp: wanted_def fun_eq_iff)
  with int have "poller_wf ([0 \<mapsto> ?ec, 1 \<mapsto> ?tc], ?p)"
    using assms by (auto simp: poller_wf_def Channel_new_def split: if_splits)
  with new False assms show ?thesis by (simp add: fun_upd_twist[OF assms])
qed (auto simp: EventLoop_new_def CreateEventFd_def CreateTimerfd_def)

theorem new_loop_watches_itself_witness:
  "\<exists>l :: (nat, string) srv_loop. EventLoop_new 1 5 4 = Inr l
     \<and> interest (ctl_calls (el_poller l)) (\<lambda>_. None) = Some [5 \<mapsto> EPOLLIN, 4 \<mapsto> EPOLLIN]"
  using new_loop_watches_itself[of 5 4 1] by auto

text \<open>
  A task posted by another thread reaches the loop through all its parts: in a loop whose eventfd
  channel is registered with the read callback ReadEventfd, a successful post makes the eventfd
  readable; the round in which epoll_wait reports it takes the count to zero, runs the tasks that
  were queued and then the posted one, in this order, and leaves the queue to what they queue.
\<close>

theorem posted_task_runs:
  assumes "p_channels (el_poller l) (event_fd l) = Some a"
    and "el_channels l a = Some c" and "read_callback c = Some rd" and "event_callback c = None"
    and "post_task Fd_ok k l = Inr l1"
  shows "0 < counter_fd l1
     \<and> Start_round (\<lambda>b. HandleEvent (own_callback Fd_ok other rd) (channel_at b)) run (Ready [(event_fd l, EPOLLIN)]) l1
       = run_tasks run (el_tasks l @ [k])
           (l1\<lparr>el_channels := (el_channels l)(a \<mapsto> SetREvents EPOLLIN c), counter_fd := 0, el_tasks := []\<rparr>)"
proof -
  from assms(5) have l1: "l1 = l\<lparr>el_tasks := el_tasks l @ [k], counter_fd := Suc (counter_fd l), wakes := Suc (wakes l)\<rparr>"
    by (simp add: post_task_def WeakUpEventFd_def)
  let ?h = "(el_channels l)(a \<mapsto> SetREvents EPOLLIN c)"
  have "Poll (Ready [(event_fd l, EPOLLIN)]) (el_poller l1) (el_channels l1) = Inr ([a], ?h)"
    using assms by (simp add: Poll_def l1)
  moreover have "HandleEvent (own_callback Fd_ok other rd) (channel_at a) (l1\<lparr>el_channels := ?h\<rparr>)
      = Inr (l1\<lparr>el_channels := ?h, counter_fd := 0\<rparr>)"
    using assms(3,4) by (simp add: HandleEvent_def channel_at_def SetREvents_def call_if_def own_callback_def
        ReadEventfd_def epoll_bits)
  ultimately show ?thesis
    by (simp add: Start_round_def l1 and_then_Inr_right)
qed

theorem posted_task_runs_witness:
  "\<exists>l l1 :: (nat, string) srv_loop. EventLoop_new 1 5 4 = Inr l \<and> post_task Fd_ok 7 l = Inr l1
     \<and> (\<exists>l2. Start_round (\<lambda>b. HandleEvent (own_callback Fd_ok (\<lambda>_ l. Inr l) ''ReadEventfd'') (channel_at b))
          (\<lambda>k l. Inr (l\<lparr>wakes := k\<rparr>)) (Ready [(5, EPOLLIN)]) l1 = Inr l2 \<and> wakes l2 = 7 \<and> counter_fd l2 = 0 \<and> el_tasks l2 = [])"
proof -
  obtain l :: "(nat, string) srv_loop" where l: "EventLoop_new 1 5 4 = Inr l" "event_fd l = 5"
    "poller_wf (el_channels l, el_poller l)" "el_tasks l = []"
    using new_loop_watches_itself[of 5 4 1] by auto
  moreover obtain c where c: "p_channels (el_poller l) 5 = Some 0" "el_channels l 0 = Some c"
    "read_callback c = Some ''ReadEventfd''" "event_callback c = None"
    using l(1) by (auto simp: EventLoop_new_def CreateEventFd_def CreateTimerfd_def EnableRead_def UpdateEvent_def
        HasChannel_def Poller_Update_def Poller_new_def Channel_new_def Let_def)
  moreover obtain l1 where l1: "post_task Fd_ok 7 l = Inr l1" by (simp add: post_task_def WeakUpEventFd_def)
  ultimately show ?thesis
    using posted_task_runs[of l 0 c "''ReadEventfd''" 7 l1 "\<lambda>_ l. Inr l" "\<lambda>k l. Inr (l\<lparr>wakes := k\<rparr>)"]
    by (intro exI[of _ l] exI[of _ l1]) (simp only: append_Nil run_tasks.simps and_then_Inr, simp)
qed

text \<open>
  The two errors of the eventfd are not treated alike: a write interrupted by a signal is given up,
  so the posted task waits until something else wakes the loop; every other failed write aborts.
\<close>

theorem interrupted_wakeup_lost:
  "\<exists>l'. post_task (Fd_failed EINTR) k l = Inr l' \<and> el_tasks l' = el_tasks l @ [k] \<and> counter_fd l' = counter_fd l"
  "post_task (Fd_failed EAGAIN) k l = Inl Aborted"
  by (simp_all add: post_task_def WeakUpEventFd_def)

end
