(* ===== verification/LoopThreads.thy ===== *)
theory LoopThreads
  imports LoopPool
begin

text \<open>
  How a thread's EventLoop is handed to the thread that started it: LoopThread of source/server.hpp
  (ThreadEntry and GetLoop) and EventLoopThread of src/EventLoopThread.cc (threadFunc and startLoop).
  Both publish the loop's address under a mutex and notify a condition variable on which the getter
  waits while the address is null.  The two differ in one thing: the worker of the second returns
  from its loop after quit and sets the address back to null.
\<close>

section \<open>The steps\<close>

text \<open>
  The worker constructs its loop (in the second class it then calls the init callback), locks,
  publishes and runs.  The getter locks, tests, and either sleeps (which releases the mutex) or
  takes the address.  \<open>'l\<close> is the type of addresses.
\<close>

datatype 'l worker = W_new | W_made 'l | W_locked 'l | W_looping 'l | W_leaving | W_gone

datatype 'l getter = G_start | G_locked | G_asleep | G_awake | G_done 'l

datatype owner = Worker | Getter

record 'l handoff =
  slot :: "'l option"
  mutex :: "owner option"
  worker :: "'l worker"
  getter :: "'l getter"

definition handoff_init :: "'l handoff" where
  "handoff_init = \<lparr>slot = None, mutex = None, worker = W_new, getter = G_start\<rparr>"

text \<open>
  ThreadEntry or threadFunc; publishing, notifying and unlocking are one step, since the getter looks
  at the address only with the mutex.  A getter that is asleep is woken by the notification.
\<close>

inductive worker_step :: "'l handoff \<Rightarrow> 'l handoff \<Rightarrow> bool" where
  construct: "worker s = W_new \<Longrightarrow> worker_step s (s\<lparr>worker := W_made l\<rparr>)"
| w_lock: "worker s = W_made l \<Longrightarrow> mutex s = None \<Longrightarrow> worker_step s (s\<lparr>mutex := Some Worker, worker := W_locked l\<rparr>)"
| publish: "worker s = W_locked l \<Longrightarrow> worker_step s (s\<lparr>slot := Some l, mutex := None, worker := W_looping l,
     getter := (if getter s = G_asleep then G_awake else getter s)\<rparr>)"

text \<open>The end of threadFunc, once its loop has been quit.\<close>

inductive leave_step :: "'l handoff \<Rightarrow> 'l handoff \<Rightarrow> bool" where
  leave: "worker s = W_looping l \<Longrightarrow> leave_step s (s\<lparr>worker := W_leaving\<rparr>)"
| clear_slot: "worker s = W_leaving \<Longrightarrow> mutex s = None \<Longrightarrow> leave_step s (s\<lparr>slot := None, worker := W_gone\<rparr>)"

text \<open>GetLoop or startLoop; a condition variable may also wake without a notification.\<close>

inductive getter_step :: "'l handoff \<Rightarrow> 'l handoff \<Rightarrow> bool" where
  g_lock: "getter s = G_start \<or> getter s = G_awake \<Longrightarrow> mutex s = None \<Longrightarrow>
     getter_step s (s\<lparr>mutex := Some Getter, getter := G_locked\<rparr>)"
| g_sleep: "getter s = G_locked \<Longrightarrow> slot s = None \<Longrightarrow> getter_step s (s\<lparr>mutex := None, getter := G_asleep\<rparr>)"
| g_take: "getter s = G_locked \<Longrightarrow> slot s = Some l \<Longrightarrow> getter_step s (s\<lparr>mutex := None, getter := G_done l\<rparr>)"

inductive spurious_step :: "'l handoff \<Rightarrow> 'l handoff \<Rightarrow> bool" where
  spurious: "getter s = G_asleep \<Longrightarrow> spurious_step s (s\<lparr>getter := G_awake\<rparr>)"

text \<open>The steps both threads take by themselves, and all steps of the two classes.\<close>

definition own_step :: "'l handoff \<Rightarrow> 'l handoff \<Rightarrow> bool" where
  "own_step s t \<longleftrightarrow> worker_step s t \<or> getter_step s t"

definition LoopThread_step :: "'l handoff \<Rightarrow> 'l handoff \<Rightarrow> bool" where
  "LoopThread_step s t \<longleftrightarrow> own_step s t \<or> spurious_step s t"

definition EventLoopThread_step :: "'l handoff \<Rightarrow> 'l handoff \<Rightarrow> bool" where
  "EventLoopThread_step s t \<longleftrightarrow> LoopThread_step s t \<or> leave_step s t"

inductive_cases worker_stepE: "worker_step s t"
inductive_cases getter_stepE: "getter_step s t"
inductive_cases spurious_stepE: "spurious_step s t"
inductive_cases leave_stepE: "leave_step s t"

section \<open>Invariant\<close>

text \<open>
  The mutex is held exactly by the thread that is inside its section; the address is published
  exactly from the worker's notification on; nobody sleeps once it is; and what the getter took is
  the worker's loop.
\<close>

definition handoff_wf :: "'l handoff \<Rightarrow> bool" where
  "handoff_wf s \<longleftrightarrow> (mutex s = Some Worker \<longleftrightarrow> (\<exists>l. worker s = W_locked l))
     \<and> (mutex s = Some Getter \<longleftrightarrow> getter s = G_locked)
     \<and> (case worker s of W_looping l \<Rightarrow> slot s = Some l | W_leaving \<Rightarrow> False | W_gone \<Rightarrow> False | _ \<Rightarrow> slot s = None)
     \<and> (getter s = G_asleep \<longrightarrow> slot s = None)
     \<and> (\<forall>l. getter s = G_done l \<longrightarrow> worker s = W_looping l)"

lemma handoff_wf_init: "handoff_wf handoff_init"
  by (simp add: handoff_wf_def handoff_init_def)

lemma handoff_wf_step: "LoopThread_step s t \<Longrightarrow> handoff_wf s \<Longrightarrow> handoff_wf t"
  unfolding LoopThread_step_def own_step_def
  by (elim disjE worker_stepE getter_stepE spurious_stepE) (auto simp: handoff_wf_def split: worker.splits)

interpretation loop_thread_handoff: kept_by LoopThread_step handoff_wf
  by (rule kept_by.intro) (rule handoff_wf_step)

section \<open>Progress\<close>

lemma own_then: "own_step s t \<Longrightarrow> rtranclp own_step t u \<Longrightarrow> rtranclp own_step s u"
  by (rule converse_rtranclp_into_rtranclp)

text \<open>With the address published the getter gets it; before, the worker can always go on to publish it.\<close>

lemma getter_gets:
  assumes "handoff_wf s" "slot s = Some l"
  shows "\<exists>t. rtranclp own_step s t \<and> getter t = G_done l"
proof -
  have W: "worker s = W_looping l" using assms by (cases "worker s") (auto simp: handoff_wf_def)
  then have free: "mutex s = None \<or> getter s = G_locked" using assms(1) by (cases "mutex s"; cases "the (mutex s)") (auto simp: handoff_wf_def)
  have take: "\<exists>t. rtranclp own_step u t \<and> getter t = G_done l" if "getter u = G_locked" "slot u = Some l" for u
  proof -
    have "own_step u (u\<lparr>mutex := None, getter := G_done l\<rparr>)"
      unfolding own_step_def using getter_step.g_take[OF that] by blast
    then show ?thesis by (intro exI[of _ "u\<lparr>mutex := None, getter := G_done l\<rparr>"]) auto
  qed
  show ?thesis
  proof (cases "getter s = G_start \<or> getter s = G_awake")
    case True
    then have "own_step s (s\<lparr>mutex := Some Getter, getter := G_locked\<rparr>)"
      unfolding own_step_def using getter_step.g_lock[OF True] free by auto
    moreover from take[of "s\<lparr>mutex := Some Getter, getter := G_locked\<rparr>"] assms(2) obtain t
      where "rtranclp own_step (s\<lparr>mutex := Some Getter, getter := G_locked\<rparr>) t" "getter t = G_done l" by auto
    ultimately show ?thesis using own_then by blast
  next
    case False
    show ?thesis
    proof (cases "getter s")
      case (G_done l')
      then have "l' = l" using assms(1) W by (simp add: handoff_wf_def)
      with G_done show ?thesis by (intro exI[of _ s]) simp
    qed (use False take[of s] assms in \<open>auto simp: handoff_wf_def\<close>)
  qed
qed

lemma worker_publishes:
  assumes wf: "handoff_wf s" and none: "slot s = None"
  shows "\<exists>t l. rtranclp own_step s t \<and> slot t = Some l \<and> handoff_wf t"
proof -
  let ?goal = "\<lambda>u. \<exists>t l. rtranclp own_step u t \<and> slot t = Some l \<and> handoff_wf t"
  have forward: "?goal u" if "own_step u v" "handoff_wf u" "handoff_wf v \<Longrightarrow> ?goal v" for u v
    using that handoff_wf_step[of u v] own_then[OF that(1)] by (metis LoopThread_step_def)
  have locked: "?goal u" if wf: "handoff_wf u" and l: "worker u = W_locked l" for u l
  proof (rule forward[OF _ wf])
    show "own_step u (u\<lparr>slot := Some l, mutex := None, worker := W_looping l,
        getter := (if getter u = G_asleep then G_awake else getter u)\<rparr>)" (is "own_step u ?v")
      using worker_step.publish[OF l] by (simp add: own_step_def)
    show "?goal ?v" if "handoff_wf ?v" using that by (intro exI[of _ ?v] exI[of _ l]) simp
  qed
  have free: "?goal u" if wf: "handoff_wf u" and m: "worker u = W_made l" "mutex u = None" for u l
  proof (rule forward[OF _ wf])
    show "own_step u (u\<lparr>mutex := Some Worker, worker := W_locked l\<rparr>)" (is "own_step u ?v")
      using worker_step.w_lock[OF m] by (simp add: own_step_def)
    show "?goal ?v" if "handoff_wf ?v" by (rule locked[OF that]) simp
  qed
  have made: "?goal u" if wf: "handoff_wf u" and m: "worker u = W_made l" for u l
  proof (cases "mutex u")
    case (Some q)
    then have g: "getter u = G_locked" "slot u = None"
      using wf m by (cases q; simp add: handoff_wf_def)+
    show ?thesis
    proof (rule forward[OF _ wf])
      show "own_step u (u\<lparr>mutex := None, getter := G_asleep\<rparr>)" (is "own_step u ?v")
        using getter_step.g_sleep[OF g] by (simp add: own_step_def)
      show "?goal ?v" if "handoff_wf ?v" by (rule free[OF that]) (simp_all add: m)
    qed
  qed (rule free[OF wf m])
  have new: "?goal u" if wf: "handoff_wf u" and w: "worker u = W_new" for u
  proof (rule forward[OF _ wf])
    show "own_step u (u\<lparr>worker := W_made undefined\<rparr>)" (is "own_step u ?v")
      using worker_step.construct[OF w] by (simp add: own_step_def)
    show "?goal ?v" if "handoff_wf ?v" by (rule made[OF that]) simp
  qed
  show ?thesis
    using wf none new[OF wf] made[OF wf] locked[OF wf] by (cases "worker s") (auto simp: handoff_wf_def)
qed

lemma handoff_progress:
  assumes wf: "handoff_wf s"
  shows "\<exists>t l. rtranclp own_step s t \<and> getter t = G_done l"
proof (cases "slot s")
  case None
  from worker_publishes[OF wf None] obtain t l where t: "rtranclp own_step s t" "slot t = Some l" "handoff_wf t" by blast
  from getter_gets[OF t(3,2)] obtain u where "rtranclp own_step t u" "getter u = G_done l" by blast
  with t(1) show ?thesis by (meson rtranclp_trans)
next
  case (Some l)
  with getter_gets[OF wf Some] show ?thesis by blast
qed

section \<open>Properties\<close>

text \<open>
  C23. GetLoop hands out the running loop and never hangs: in every reachable state of a LoopThread
  and the thread that asks for its loop, whatever the interleaving and however often the condition
  variable wakes up for nothing, a getter that has returned has the address of the loop its worker
  is running; a getter is never asleep once the address is published; and the two threads can
  always go on, by their own steps alone, until the getter has returned.
\<close>

theorem get_loop_returns_running_loop:
  assumes "rtranclp LoopThread_step handoff_init s"
  shows "(\<forall>l. getter s = G_done l \<longrightarrow> worker s = W_looping l \<and> slot s = Some l)
     \<and> (getter s = G_asleep \<longrightarrow> slot s = None)
     \<and> (\<exists>t l. rtranclp own_step s t \<and> getter t = G_done l)"
  using loop_thread_handoff.run_keeps[OF assms handoff_wf_init] handoff_progress
  by (auto simp: handoff_wf_def)

theorem get_loop_returns_running_loop_witness:
  "\<exists>s t :: nat handoff. rtranclp LoopThread_step handoff_init s \<and> getter s = G_asleep \<and> rtranclp own_step s t
     \<and> (\<exists>l. getter t = G_done l)"
proof -
  let ?a = "(handoff_init :: nat handoff)\<lparr>mutex := Some Getter, getter := G_locked\<rparr>"
  let ?b = "?a\<lparr>mutex := None, getter := G_asleep\<rparr>"
  have "LoopThread_step handoff_init ?a" "LoopThread_step ?a ?b"
    using getter_step.g_lock[of "handoff_init :: nat handoff"] getter_step.g_sleep[of ?a]
    by (auto simp: LoopThread_step_def own_step_def handoff_init_def)
  then have run: "rtranclp LoopThread_step handoff_init ?b" by (meson rtranclp.rtrancl_refl rtranclp.rtrancl_into_rtrancl)
  from get_loop_returns_running_loop[OF run] obtain t l where "rtranclp own_step ?b t" "getter t = G_done l" by blast
  with run show ?thesis by (intro exI[of _ ?b] exI[of _ t]) auto
qed

text \<open>
  The EventLoopThread of src/ can leave its starter waiting for ever: when the loop is quit (by the
  init callback or a functor) and the worker sets the address back to null before the starter has
  looked at it, the worker is gone and no notification is left to come.
\<close>

definition missed :: "'l handoff \<Rightarrow> bool" where
  "missed s \<longleftrightarrow> worker s = W_gone \<and> slot s = None \<and> (\<forall>l. getter s \<noteq> G_done l)"

interpretation missed_handoff: kept_by EventLoopThread_step missed
  by (rule kept_by.intro, unfold EventLoopThread_step_def LoopThread_step_def own_step_def,
      elim disjE worker_stepE getter_stepE spurious_stepE leave_stepE) (auto simp: missed_def)

theorem start_loop_may_hang:
  "\<exists>s. rtranclp EventLoopThread_step handoff_init s
     \<and> (\<forall>t l. rtranclp EventLoopThread_step s t \<longrightarrow> getter t \<noteq> G_done l)"
proof -
  let ?l = "undefined :: 'a"
  let ?a = "handoff_init\<lparr>worker := W_made ?l\<rparr>"
  let ?b = "?a\<lparr>mutex := Some Worker, worker := W_locked ?l\<rparr>"
  let ?c = "?b\<lparr>slot := Some ?l, mutex := None, worker := W_looping ?l\<rparr>"
  let ?d = "?c\<lparr>worker := W_leaving\<rparr>"
  let ?e = "?d\<lparr>slot := None, worker := W_gone\<rparr>"
  have "EventLoopThread_step handoff_init ?a" "EventLoopThread_step ?a ?b" "EventLoopThread_step ?b ?c"
    "EventLoopThread_step ?c ?d" "EventLoopThread_step ?d ?e"
    using worker_step.construct[of handoff_init ?l] worker_step.w_lock[of ?a ?l] worker_step.publish[of ?b ?l]
      leave_step.leave[of ?c ?l] leave_step.clear_slot[of ?d]
    by (auto simp: EventLoopThread_step_def LoopThread_step_def own_step_def handoff_init_def)
  then have run: "rtranclp EventLoopThread_step handoff_init ?e"
    by (meson rtranclp.rtrancl_refl rtranclp.rtrancl_into_rtrancl)
  have "missed ?e" by (simp add: missed_def handoff_init_def)
  then have "\<forall>t l'. rtranclp EventLoopThread_step ?e t \<longrightarrow> getter t \<noteq> G_done l'"
    using missed_handoff.run_keeps[of ?e] by (auto simp: missed_def)
  with run show ?thesis by blast
qed

end
