(* ===== verification/MuduoBuffer.thy ===== *)
theory MuduoBuffer
  imports ByteBuffer
begin

text \<open>
  The class Buffer of src/Buffer.h and src/Buffer.cc, the second library of the repository: a
  char array with a read and a write index of type size_t and eight spare bytes in front of the
  data.  It keeps the contract of a byte queue of theory ByteBuffer as long as no more is taken
  than is there; unlike the other Buffer it does not check that.
\<close>

section \<open>State and operations\<close>

record mbuffer =
  buffer_data :: "char list"
  readerIndex :: u64
  writerIndex :: u64

definition kCheapPrepend :: u64 where
  "kCheapPrepend = 8"

definition kInitialSize :: u64 where
  "kInitialSize = 1024"

text \<open>The constructor: a vector of \<open>kCheapPrepend + initialSize\<close> zero bytes.\<close>

definition MBuffer :: "u64 \<Rightarrow> fault + mbuffer" where
  "MBuffer initialSize = and_then (vector_resize (unat (kCheapPrepend + initialSize)) [])
     (\<lambda>xs. Inr \<lparr>buffer_data = xs, readerIndex = kCheapPrepend, writerIndex = kCheapPrepend\<rparr>)"

definition vec_size :: "mbuffer \<Rightarrow> u64" where
  "vec_size b = of_nat (length (buffer_data b))"

definition readableBytes :: "mbuffer \<Rightarrow> u64" where
  "readableBytes b = writerIndex b - readerIndex b"

definition writableBytes :: "mbuffer \<Rightarrow> u64" where
  "writableBytes b = vec_size b - writerIndex b"

definition prependableBytes :: "mbuffer \<Rightarrow> u64" where
  "prependableBytes b = readerIndex b"

text \<open>\<open>len\<close> bytes from \<open>peek()\<close> on, as a read through the raw pointer sees them.\<close>

definition peek :: "u64 \<Rightarrow> mbuffer \<Rightarrow> fault + char list" where
  "peek len b = copy_from (unat (readerIndex b)) (unat len) (buffer_data b)"

definition retrieveAll :: "mbuffer \<Rightarrow> mbuffer" where
  "retrieveAll b = b\<lparr>readerIndex := kCheapPrepend, writerIndex := kCheapPrepend\<rparr>"

definition retrieve :: "u64 \<Rightarrow> mbuffer \<Rightarrow> mbuffer" where
  "retrieve len b =
     (if len < readableBytes b then b\<lparr>readerIndex := readerIndex b + len\<rparr> else retrieveAll b)"

text \<open>\<open>std::string result(peek(), len)\<close> throws std::length_error for a length no string can have.\<close>

definition retrieveAsString :: "u64 \<Rightarrow> mbuffer \<Rightarrow> fault + (char list \<times> mbuffer)" where
  "retrieveAsString len b =
     (if max_size < unat len then Inl LengthError
      else and_then (peek len b) (\<lambda>result. Inr (result, retrieve len b)))"

definition retrieveAllAsString :: "mbuffer \<Rightarrow> fault + (char list \<times> mbuffer)" where
  "retrieveAllAsString b = retrieveAsString (readableBytes b) b"

definition makeSpace :: "u64 \<Rightarrow> mbuffer \<Rightarrow> fault + mbuffer" where
  "makeSpace len b =
     (if writableBytes b + prependableBytes b < len + kCheapPrepend then
        and_then (vector_resize (unat (writerIndex b + len)) (buffer_data b)) (\<lambda>xs.
        Inr (b\<lparr>buffer_data := xs\<rparr>))
      else
        (let readable = readableBytes b in
         and_then (peek readable b) (\<lambda>d.
         and_then (copy_to (unat kCheapPrepend) d (buffer_data b)) (\<lambda>xs.
         Inr (b\<lparr>buffer_data := xs, readerIndex := kCheapPrepend,
                writerIndex := kCheapPrepend + readable\<rparr>)))))"

definition ensureWriteableBytes :: "u64 \<Rightarrow> mbuffer \<Rightarrow> fault + mbuffer" where
  "ensureWriteableBytes len b = (if writableBytes b < len then makeSpace len b else Inr b)"

definition append_data :: "char list \<Rightarrow> mbuffer \<Rightarrow> fault + mbuffer" where
  "append_data data b =
     (let len = of_nat (length data) in
      and_then (ensureWriteableBytes len b) (\<lambda>b.
      and_then (copy_to (unat (writerIndex b)) data (buffer_data b)) (\<lambda>xs.
      Inr (b\<lparr>buffer_data := xs, writerIndex := writerIndex b + len\<rparr>))))"

section \<open>Reading from and writing to a descriptor\<close>

text \<open>What readv and write answer: a failure with its errno, or bytes read, or a count written.\<close>

datatype readv_answer = Readv_failed int | Readv_bytes "char list"
datatype write_answer = Write_failed int | Write_count nat

definition extrabuf_size :: u64 where
  "extrabuf_size = 65536"

definition iovcnt :: "mbuffer \<Rightarrow> nat" where
  "iovcnt b = (if writableBytes b < extrabuf_size then 2 else 1)"

text \<open>The bytes one call can take: the documented limit of what readv returns.\<close>

definition iov_capacity :: "mbuffer \<Rightarrow> nat" where
  "iov_capacity b = unat (writableBytes b) + (if iovcnt b = 2 then unat extrabuf_size else 0)"

text \<open>
  readv fills the free part of the array first and then extrabuf; \<open>append_data\<close> adds the part that
  went into extrabuf.  The result is the return value, the errno saved, and the new buffer.
\<close>

definition readFd :: "readv_answer \<Rightarrow> mbuffer \<Rightarrow> fault + (int \<times> int option \<times> mbuffer)" where
  "readFd ans b =
     (case ans of
        Readv_failed e \<Rightarrow> Inr (-1, Some e, b)
      | Readv_bytes d \<Rightarrow>
          (let writable = unat (writableBytes b); n = length d; extra = drop writable d in
           and_then (copy_to (unat (writerIndex b)) (take writable d) (buffer_data b)) (\<lambda>xs.
           if n \<le> writable
           then Inr (int n, None, b\<lparr>buffer_data := xs, writerIndex := writerIndex b + of_nat n\<rparr>)
           else and_then (append_data extra (b\<lparr>buffer_data := xs, writerIndex := vec_size b\<rparr>))
                  (\<lambda>b. Inr (int n, None, b)))))"

text \<open>\<open>os d\<close> is what write answers when it is given the bytes \<open>d\<close>; nothing is retrieved here.\<close>

definition writeFd :: "(char list \<Rightarrow> write_answer) \<Rightarrow> mbuffer \<Rightarrow> fault + (int \<times> int option)" where
  "writeFd os b = and_then (peek (readableBytes b) b) (\<lambda>d.
     Inr (case os d of Write_failed e \<Rightarrow> (-1, Some e) | Write_count n \<Rightarrow> (int n, None)))"

section \<open>Invariant and abstraction\<close>

definition mbuf_wf :: "mbuffer \<Rightarrow> bool" where
  "mbuf_wf b \<longleftrightarrow> 8 \<le> unat (readerIndex b) \<and> unat (readerIndex b) \<le> unat (writerIndex b)
     \<and> unat (writerIndex b) \<le> length (buffer_data b) \<and> length (buffer_data b) \<le> max_size"

definition readable :: "mbuffer \<Rightarrow> char list" where
  "readable b = drop (unat (readerIndex b)) (take (unat (writerIndex b)) (buffer_data b))"

lemma mbuf_wfD:
  assumes "mbuf_wf b"
  shows "8 \<le> unat (readerIndex b)"
    and "unat (readerIndex b) \<le> unat (writerIndex b)"
    and "unat (writerIndex b) \<le> length (buffer_data b)"
    and "length (buffer_data b) \<le> max_size"
    and "unat (writerIndex b) \<le> max_size"
  using assms by (auto simp: mbuf_wf_def)

lemma MBuffer_ok:
  assumes "unat n \<le> max_size - 8"
  shows "\<exists>b. MBuffer n = Inr b \<and> mbuf_wf b \<and> readable b = [] \<and> writableBytes b = n"
proof -
  have u: "unat (8 + n) = 8 + unat n" using assms by (subst unat_plus_u64) (simp_all add: max_size_def)
  have le: "8 + unat n \<le> max_size" using assms by (simp add: max_size_def)
  then have "vector_resize (unat (8 + n)) [] = Inr (replicate (8 + unat n) (CHR 0x00))"
    by (simp add: vector_resize_def u)
  moreover have "of_nat (8 + unat n) - (8 :: u64) = n" by simp
  ultimately show ?thesis using le
    by (auto simp: MBuffer_def kCheapPrepend_def mbuf_wf_def readable_def writableBytes_def vec_size_def)
qed

lemma length_readable: "mbuf_wf b \<Longrightarrow> length (readable b) = unat (writerIndex b) - unat (readerIndex b)"
  by (auto simp: readable_def mbuf_wf_def)

lemma length_readable_le: "mbuf_wf b \<Longrightarrow> length (readable b) \<le> max_size"
  using mbuf_wfD[of b] length_readable[of b] by linarith

lemma unat_readableBytes: "mbuf_wf b \<Longrightarrow> unat (readableBytes b) = length (readable b)"
  by (simp add: readableBytes_def unat_diff_u64 mbuf_wfD length_readable)

lemma unat_writableBytes:
  "mbuf_wf b \<Longrightarrow> unat (writableBytes b) = length (buffer_data b) - unat (writerIndex b)"
  by (simp add: writableBytes_def vec_size_def unat_diff_u64 unat_of_nat_u64 mbuf_wfD)

lemma peek_readable:
  assumes "mbuf_wf b" "unat len \<le> length (readable b)"
  shows "peek len b = Inr (take (unat len) (readable b))"
  using assms mbuf_wfD[of b] length_readable[of b]
  by (auto simp: peek_def copy_from_ok readable_def drop_take min_absorb1)

lemma retrieveAll_ok: "mbuf_wf b \<Longrightarrow> mbuf_wf (retrieveAll b) \<and> readable (retrieveAll b) = []"
  by (auto simp: retrieveAll_def mbuf_wf_def readable_def kCheapPrepend_def)

text \<open>\<open>retrieve\<close> takes \<open>len\<close> bytes off the front, or everything when fewer are there.\<close>

lemma retrieve_ok:
  assumes wf: "mbuf_wf b"
  shows "mbuf_wf (retrieve len b) \<and> readable (retrieve len b) = drop (unat len) (readable b)
    \<and> unat (writerIndex (retrieve len b)) \<le> unat (writerIndex b)"
proof (cases "len < readableBytes b")
  case True
  then have "unat len < length (readable b)" by (simp add: word_less_nat_alt unat_readableBytes[OF wf])
  moreover from this have "unat (readerIndex b + len) = unat (readerIndex b) + unat len"
    using mbuf_wfD[OF wf] length_readable[OF wf] by (intro unat_plus_u64) linarith
  ultimately show ?thesis
    using True mbuf_wfD[OF wf] length_readable[OF wf]
    by (auto simp: retrieve_def mbuf_wf_def readable_def drop_take add.commute)
next
  case False
  then show ?thesis using retrieveAll_ok[OF wf] mbuf_wfD[OF wf]
    by (auto simp: retrieve_def word_less_nat_alt unat_readableBytes[OF wf] retrieveAll_def kCheapPrepend_def)
qed

lemma retrieveAsString_ok:
  assumes "mbuf_wf b" "unat len \<le> length (readable b)"
  shows "retrieveAsString len b = Inr (take (unat len) (readable b), retrieve len b)"
  using assms length_readable_le[of b] by (simp add: retrieveAsString_def peek_readable)

lemma retrieveAllAsString_ok:
  "mbuf_wf b \<Longrightarrow> retrieveAllAsString b = Inr (readable b, retrieveAll b)"
  using retrieveAsString_ok[of b "readableBytes b"]
  by (simp add: retrieveAllAsString_def unat_readableBytes retrieve_def)

section \<open>Writing\<close>

lemma makeSpace_ok:
  assumes wf: "mbuf_wf b" and room: "unat (writerIndex b) + unat len \<le> max_size"
  shows "\<exists>b'. makeSpace len b = Inr b' \<and> mbuf_wf b' \<and> readable b' = readable b
    \<and> unat (writerIndex b') + unat len \<le> length (buffer_data b') \<and> unat (writerIndex b') \<le> unat (writerIndex b)
    \<or> writableBytes b \<ge> len"
proof -
  let ?r = "unat (readerIndex b)" and ?w = "unat (writerIndex b)" and ?n = "length (buffer_data b)"
  note le = mbuf_wfD[OF wf]
  have free: "unat (writableBytes b + prependableBytes b) = ?n - ?w + ?r"
    using le unat_writableBytes[OF wf] by (simp add: prependableBytes_def unat_plus_u64)
  have need: "unat (len + kCheapPrepend) = unat len + 8"
    using le room by (simp add: kCheapPrepend_def unat_plus_u64)
  have rd: "unat (readableBytes b) = ?w - ?r"
    using unat_readableBytes[OF wf] length_readable[OF wf] by simp
  have new: "unat (kCheapPrepend + readableBytes b) = 8 + (?w - ?r)"
    using le rd by (simp add: kCheapPrepend_def unat_plus_u64)
  show ?thesis
  proof (cases "writableBytes b + prependableBytes b < len + kCheapPrepend")
    case True
    show ?thesis
    proof (cases "?n < ?w + unat len")
      case grow: True
      have "unat (writerIndex b + len) = ?w + unat len" using room by (rule unat_plus_u64)
      with True grow le room show ?thesis
        by (auto simp: makeSpace_def vector_resize_grow mbuf_wf_def readable_def)
    next
      case False
      then have "unat len \<le> ?n - ?w" by linarith
      then show ?thesis by (simp add: word_le_nat_alt unat_writableBytes[OF wf])
    qed
  next
    case False
    then have "unat len + 8 \<le> ?n - ?w + ?r" by (simp add: word_less_nat_alt free need)
    moreover have "peek (readableBytes b) b = Inr (readable b)"
      using peek_readable[OF wf, of "readableBytes b"] unat_readableBytes[OF wf] by simp
    ultimately show ?thesis
      using False le new length_readable[OF wf]
      by (auto simp: makeSpace_def Let_def copy_to_ok kCheapPrepend_def mbuf_wf_def readable_def)
  qed
qed

lemma ensureWriteableBytes_ok:
  assumes wf: "mbuf_wf b" and room: "unat (writerIndex b) + unat len \<le> max_size"
  shows "\<exists>b'. ensureWriteableBytes len b = Inr b' \<and> mbuf_wf b' \<and> readable b' = readable b
    \<and> unat (writerIndex b') + unat len \<le> length (buffer_data b') \<and> unat (writerIndex b') \<le> unat (writerIndex b)"
proof (cases "writableBytes b < len")
  case True
  with makeSpace_ok[OF assms] show ?thesis by (auto simp: ensureWriteableBytes_def)
next
  case False
  with mbuf_wfD[OF wf] wf show ?thesis
    by (auto simp: ensureWriteableBytes_def word_less_nat_alt unat_writableBytes[OF wf])
qed

lemma append_data_ok:
  assumes wf: "mbuf_wf b" and room: "unat (writerIndex b) + length d \<le> max_size"
  shows "\<exists>b'. append_data d b = Inr b' \<and> mbuf_wf b' \<and> readable b' = readable b @ d
    \<and> unat (writerIndex b') \<le> unat (writerIndex b) + length d"
proof -
  let ?len = "of_nat (length d) :: u64"
  have u: "unat ?len = length d" using room by (intro unat_of_nat_u64) linarith
  with ensureWriteableBytes_ok[OF wf, of ?len] room obtain b' where b':
    "ensureWriteableBytes ?len b = Inr b'" "mbuf_wf b'" "readable b' = readable b"
    "unat (writerIndex b') + length d \<le> length (buffer_data b')" "unat (writerIndex b') \<le> unat (writerIndex b)"
    by auto
  note le = mbuf_wfD[OF b'(2)]
  have w: "unat (writerIndex b' + ?len) = unat (writerIndex b') + length d"
    using b'(4) le u by (simp add: unat_plus_u64)
  have "readable (b'\<lparr>buffer_data := take (unat (writerIndex b')) (buffer_data b') @ d
      @ drop (unat (writerIndex b') + length d) (buffer_data b'), writerIndex := writerIndex b' + ?len\<rparr>)
      = readable b' @ d"
    using le b'(4) by (simp add: readable_def w min_absorb2)
  with b' le w u show ?thesis
    by (auto simp: append_data_def copy_to_ok mbuf_wf_def)
qed

interpretation muduo_buffer: byte_queue mbuf_wf readable "\<lambda>b. unat (writerIndex b)" append_data
  retrieveAsString
  by unfold_locales (use append_data_ok retrieveAsString_ok retrieve_ok in fastforce)+

section \<open>Reading from a descriptor\<close>

text \<open>The bytes readv put into the free part of the array become readable.\<close>

lemma fill_free:
  assumes wf: "mbuf_wf b" and n: "unat (writerIndex b) + length d \<le> length (buffer_data b)"
  shows "copy_to (unat (writerIndex b)) d (buffer_data b)
      = Inr (take (unat (writerIndex b)) (buffer_data b) @ d @ drop (unat (writerIndex b) + length d) (buffer_data b))
    \<and> mbuf_wf (b\<lparr>buffer_data := take (unat (writerIndex b)) (buffer_data b) @ d
          @ drop (unat (writerIndex b) + length d) (buffer_data b), writerIndex := writerIndex b + of_nat (length d)\<rparr>)
    \<and> readable (b\<lparr>buffer_data := take (unat (writerIndex b)) (buffer_data b) @ d
          @ drop (unat (writerIndex b) + length d) (buffer_data b), writerIndex := writerIndex b + of_nat (length d)\<rparr>)
        = readable b @ d
    \<and> unat (writerIndex b + of_nat (length d)) = unat (writerIndex b) + length d"
proof -
  note le = mbuf_wfD[OF wf]
  have "unat (writerIndex b + of_nat (length d)) = unat (writerIndex b) + length d"
    using n le by (intro unat_plus_of_nat_u64) linarith
  with n le show ?thesis by (auto simp: copy_to_ok mbuf_wf_def readable_def min_absorb2)
qed

lemma readFd_bytes:
  assumes wf: "mbuf_wf b" and room: "unat (writerIndex b) + length d \<le> max_size"
  shows "\<exists>b'. readFd (Readv_bytes d) b = Inr (int (length d), None, b') \<and> mbuf_wf b'
    \<and> readable b' = readable b @ d \<and> unat (writerIndex b') \<le> unat (writerIndex b) + length d"
proof -
  let ?w = "unat (writerIndex b)" and ?n = "length (buffer_data b)" and ?free = "unat (writableBytes b)"
  note le = mbuf_wfD[OF wf]
  have free: "?free = ?n - ?w" by (rule unat_writableBytes[OF wf])
  show ?thesis
  proof (cases "length d \<le> ?free")
    case True
    with free le have "?w + length d \<le> ?n" by linarith
    from fill_free[OF wf this] True show ?thesis by (auto simp: readFd_def Let_def)
  next
    case False
    let ?d = "take ?free d" and ?e = "drop ?free d"
    have len: "length ?d = ?free" using False by simp
    then have "?w + length ?d \<le> ?n" using free le by linarith
    note fill = fill_free[OF wf this]
    let ?b = "b\<lparr>buffer_data := take ?w (buffer_data b) @ ?d @ drop (?w + length ?d) (buffer_data b),
      writerIndex := writerIndex b + of_nat (length ?d)\<rparr>"
    have w: "writerIndex b + of_nat (length ?d) = vec_size b"
      unfolding len by (simp add: writableBytes_def)
    have size: "unat (vec_size b) = ?n" using le by (simp add: vec_size_def unat_of_nat_u64)
    then have "unat (writerIndex ?b) + length ?e \<le> max_size"
      using room free le False w by simp
    note room' = this
    have wf': "mbuf_wf ?b" and rd: "readable ?b = readable b @ ?d" using fill by simp_all
    from append_data_ok[OF wf' room'] obtain b' where b': "append_data ?e ?b = Inr b'" "mbuf_wf b'"
      "readable b' = readable ?b @ ?e" "unat (writerIndex b') \<le> unat (writerIndex ?b) + length ?e" by blast
    have "readable b' = readable b @ d" unfolding b'(3) rd by simp
    moreover have "unat (writerIndex b') \<le> ?w + length d"
    proof -
      have "unat (writerIndex ?b) = ?n" using w size by simp
      with b'(4) free False le show ?thesis by simp
    qed
    moreover have "readFd (Readv_bytes d) b = Inr (int (length d), None, b')"
      using False fill w b'(1) by (simp add: readFd_def Let_def)
    ultimately show ?thesis using b'(2) by blast
  qed
qed

section \<open>All operations\<close>

datatype mbuf_op = Append "char list" | Retrieve u64 | Retrieve_all | Take_string u64 | Take_all | Ensure u64
  | Read_fd readv_answer

definition mbuf_step :: "mbuf_op \<Rightarrow> mbuffer \<Rightarrow> fault + (mbuffer \<times> char list)" where
  "mbuf_step op b = (case op of
       Append d \<Rightarrow> and_then (append_data d b) (\<lambda>b. Inr (b, []))
     | Retrieve n \<Rightarrow> Inr (retrieve n b, [])
     | Retrieve_all \<Rightarrow> Inr (retrieveAll b, [])
     | Take_string n \<Rightarrow> and_then (retrieveAsString n b) (\<lambda>(s, b). Inr (b, s))
     | Take_all \<Rightarrow> and_then (retrieveAllAsString b) (\<lambda>(s, b). Inr (b, s))
     | Ensure n \<Rightarrow> and_then (ensureWriteableBytes n b) (\<lambda>b. Inr (b, []))
     | Read_fd ans \<Rightarrow> and_then (readFd ans b) (\<lambda>(n, e, b). Inr (b, [])))"

text \<open>
  The abstract state is the readable bytes and a bound on the write index.  An operation is allowed
  when its bytes keep the array below max_size and a string taken is readable.
\<close>

fun new_bytes :: "mbuf_op \<Rightarrow> char list" where
  "new_bytes (Append d) = d"
| "new_bytes (Read_fd (Readv_bytes d)) = d"
| "new_bytes _ = []"

fun asked :: "mbuf_op \<Rightarrow> nat" where
  "asked (Ensure n) = unat n"
| "asked op = length (new_bytes op)"

definition mbuf_spec :: "mbuf_op \<Rightarrow> char list \<times> nat \<Rightarrow> char list \<Rightarrow> char list \<times> nat \<Rightarrow> bool" where
  "mbuf_spec op = (\<lambda>(q, u) out (q', u'). u' \<le> u + length (new_bytes op) \<and> (case op of
       Retrieve n \<Rightarrow> q' = drop (unat n) q \<and> out = []
     | Retrieve_all \<Rightarrow> q' = [] \<and> out = []
     | Take_string n \<Rightarrow> out = take (unat n) q \<and> q' = drop (unat n) q
     | Take_all \<Rightarrow> out = q \<and> q' = []
     | _ \<Rightarrow> q' = q @ new_bytes op \<and> out = []))"

definition mbuf_ok :: "mbuf_op \<Rightarrow> char list \<times> nat \<Rightarrow> bool" where
  "mbuf_ok op = (\<lambda>(q, u). u + asked op \<le> max_size \<and> (case op of Take_string n \<Rightarrow> unat n \<le> length q | _ \<Rightarrow> True))"

definition mbuf_abs :: "mbuffer \<Rightarrow> char list \<times> nat" where
  "mbuf_abs b = (readable b, unat (writerIndex b))"

lemma retrieveAll_index: "mbuf_wf b \<Longrightarrow> unat (writerIndex (retrieveAll b)) \<le> unat (writerIndex b)"
  using mbuf_wfD[of b] by (simp add: retrieveAll_def kCheapPrepend_def)

lemma mbuf_step_simulates:
  assumes wf: "mbuf_wf b" and ok: "mbuf_ok op (mbuf_abs b)"
  shows "\<exists>b' out. mbuf_step op b = Inr (b', out) \<and> mbuf_wf b' \<and> mbuf_spec op (mbuf_abs b) out (mbuf_abs b')"
proof (cases op)
  case (Append d)
  with append_data_ok[OF wf, of d] ok show ?thesis
    by (auto simp: mbuf_ok_def mbuf_abs_def mbuf_step_def mbuf_spec_def)
next
  case (Retrieve n)
  with retrieve_ok[OF wf, of n] show ?thesis by (auto simp: mbuf_abs_def mbuf_step_def mbuf_spec_def)
next
  case Retrieve_all
  with retrieveAll_ok[OF wf] retrieveAll_index[OF wf] show ?thesis
    by (auto simp: mbuf_abs_def mbuf_step_def mbuf_spec_def)
next
  case (Take_string n)
  with ok have "unat n \<le> length (readable b)" by (simp add: mbuf_ok_def mbuf_abs_def)
  with retrieveAsString_ok[OF wf this] retrieve_ok[OF wf, of n] Take_string show ?thesis
    by (auto simp: mbuf_abs_def mbuf_step_def mbuf_spec_def)
next
  case Take_all
  with retrieveAllAsString_ok[OF wf] retrieveAll_ok[OF wf] retrieveAll_index[OF wf] show ?thesis
    by (auto simp: mbuf_abs_def mbuf_step_def mbuf_spec_def)
next
  case (Ensure n)
  with ensureWriteableBytes_ok[OF wf, of n] ok show ?thesis
    by (auto simp: mbuf_ok_def mbuf_abs_def mbuf_step_def mbuf_spec_def)
next
  case (Read_fd ans)
  show ?thesis
  proof (cases ans)
    case (Readv_failed e)
    with Read_fd wf show ?thesis by (auto simp: mbuf_abs_def mbuf_step_def mbuf_spec_def readFd_def)
  next
    case (Readv_bytes d)
    with Read_fd readFd_bytes[OF wf, of d] ok show ?thesis
      by (auto simp: mbuf_ok_def mbuf_abs_def mbuf_step_def mbuf_spec_def)
  qed
qed

interpretation muduo_buffer_ops: op_simulation mbuf_step mbuf_spec mbuf_ok mbuf_wf mbuf_abs
  by (rule op_simulation.intro) (rule mbuf_step_simulates)

section \<open>Properties\<close>

text \<open>
  The buffer is a first-in first-out queue of bytes: any run of append and retrieveAsString
  calls on a well-formed buffer that never asks for more bytes than are readable returns exactly
  the bytes the abstract queue returns, through all moving and growing of the array in makeSpace,
  and ends in a well-formed buffer that holds the rest.
\<close>

theorem muduo_buffer_is_byte_queue:
  assumes "mbuf_wf b" and "unat (writerIndex b) + length (pushed ops) \<le> max_size"
    and "queue_ops ops (readable b) = Some (out, rest)"
  shows "\<exists>b'. run_ops append_data retrieveAsString ops b = Inr (out, b') \<and> mbuf_wf b' \<and> readable b' = rest
    \<and> out @ rest = readable b @ pushed ops"
  using muduo_buffer.run_queue[OF assms] queue_ops_conserves[OF assms(3)] by auto

theorem muduo_buffer_is_byte_queue_witness:
  "\<exists>b b'. MBuffer kInitialSize = Inr b
     \<and> run_ops append_data retrieveAsString [Push ''ab'', Pop 1, Push ''c'', Pop 2] b = Inr (''abc'', b')
     \<and> mbuf_wf b' \<and> readable b' = []"
proof -
  obtain b where b: "MBuffer kInitialSize = Inr b" "mbuf_wf b" "readable b = []" "writerIndex b = 8"
    using MBuffer_ok[of kInitialSize]
    by (auto simp: kInitialSize_def max_size_def MBuffer_def and_then_eq_Inr kCheapPrepend_def)
  let ?ops = "[Push ''ab'', Pop 1, Push ''c'', Pop 2]"
  have "unat (writerIndex b) + length (pushed ?ops) \<le> max_size" by (simp add: b max_size_def)
  moreover have "queue_ops ?ops (readable b) = Some (''abc'', [])" by (simp add: b)
  ultimately show ?thesis using muduo_buffer_is_byte_queue[OF b(2)] b(1) by blast
qed

text \<open>
  C40. The indices stay in order: any run of all the operations, reading from a descriptor included,
  that stays below the largest vector and in which retrieveAsString never takes more than what is
  readable (\<open>retrieve_past_end\<close> says what it does otherwise) ends normally
  with the eight spare bytes in front, the read index not behind the write index and the write index
  inside the array; and it takes and leaves the bytes the abstract buffer does.
\<close>

theorem muduo_buffer_indices:
  assumes "mbuf_wf b" and "all_ok mbuf_spec mbuf_ok ops (mbuf_abs b)"
  shows "\<exists>b' outs. run_steps mbuf_step ops b = Inr (b', outs) \<and> mbuf_wf b'
     \<and> 8 \<le> readerIndex b' \<and> readerIndex b' \<le> writerIndex b' \<and> unat (writerIndex b') \<le> length (buffer_data b')
     \<and> spec_run mbuf_spec ops (mbuf_abs b) outs (mbuf_abs b')"
proof -
  from muduo_buffer_ops.run_simulates[OF assms] obtain b' outs where r: "run_steps mbuf_step ops b = Inr (b', outs)"
    "mbuf_wf b'" "spec_run mbuf_spec ops (mbuf_abs b) outs (mbuf_abs b')" by blast
  with mbuf_wfD[OF r(2)] show ?thesis by (auto simp: word_le_nat_alt)
qed

theorem muduo_buffer_indices_witness:
  "\<exists>b b' outs. MBuffer 4 = Inr b
     \<and> run_steps mbuf_step [Read_fd (Readv_bytes ''HELLO''), Take_string 2, Append ''!'', Ensure 100, Retrieve 1] b = Inr (b', outs)
     \<and> outs = [[], ''HE'', [], [], []] \<and> readable b' = ''LO!'' \<and> readerIndex b' \<le> writerIndex b'"
proof -
  obtain b where b: "MBuffer 4 = Inr b" "mbuf_wf b" "readable b = []" "writerIndex b = 8"
    using MBuffer_ok[of 4] by (auto simp: max_size_def MBuffer_def and_then_eq_Inr kCheapPrepend_def)
  let ?ops = "[Read_fd (Readv_bytes ''HELLO''), Take_string 2, Append ''!'', Ensure 100, Retrieve 1]"
  have "all_ok mbuf_spec mbuf_ok ?ops (mbuf_abs b)"
    using b by (auto simp: mbuf_ok_def mbuf_spec_def mbuf_abs_def max_size_def)
  from muduo_buffer_indices[OF b(2) this] obtain b' outs where
    run: "run_steps mbuf_step ?ops b = Inr (b', outs)" "readerIndex b' \<le> writerIndex b'"
      "spec_run mbuf_spec ?ops (mbuf_abs b) outs (mbuf_abs b')" by blast
  from run(3) have "outs = [[], ''HE'', [], [], []]" "readable b' = ''LO!''"
    using b by (auto simp: spec_run_Cons spec_run_Nil mbuf_spec_def mbuf_abs_def)
  with b(1) run(1,2) show ?thesis by blast
qed

text \<open>
  Nothing checks the length given to retrieveAsString: when more bytes are asked for than are
  readable, the bytes behind the write index come back with them as long as the array reaches so
  far, and beyond its end the read is undefined; in both cases the buffer is emptied.
\<close>

theorem retrieve_past_end:
  assumes "mbuf_wf b" and "length (readable b) < unat len" and "unat len \<le> max_size"
  shows "retrieveAsString len b =
     (if unat (readerIndex b) + unat len \<le> length (buffer_data b)
      then Inr (readable b @ take (unat len - length (readable b)) (drop (unat (writerIndex b)) (buffer_data b)),
                retrieveAll b)
      else Inl OutOfBounds)"
proof -
  note le = mbuf_wfD[OF assms(1)]
  have "take (unat len) (drop (unat (readerIndex b)) (buffer_data b))
      = readable b @ take (unat len - length (readable b)) (drop (unat (writerIndex b)) (buffer_data b))"
    (is "take ?n (drop ?r ?xs) = _")
  proof -
    have "drop ?r ?xs = readable b @ drop (unat (writerIndex b)) ?xs"
      using le append_take_drop_id[of "unat (writerIndex b)" ?xs]
      by (metis drop_append diff_is_0_eq drop0 length_take min_absorb2 readable_def)
    then show ?thesis using assms(2) by simp
  qed
  moreover have "\<not> len < readableBytes b"
    using assms(2) by (simp add: word_less_nat_alt unat_readableBytes[OF assms(1)])
  ultimately show ?thesis
    using assms(3) by (simp add: retrieveAsString_def peek_def copy_from_def retrieve_def)
qed

theorem retrieve_past_end_witness:
  "let b = \<lparr>buffer_data = replicate 8 (CHR 0x00) @ ''hi, old'', readerIndex = 8, writerIndex = 10\<rparr> in
   retrieveAsString 7 b = Inr (''hi, old'', retrieveAll b) \<and> retrieveAsString 8 b = Inl OutOfBounds"
proof -
  let ?b = "\<lparr>buffer_data = replicate 8 (CHR 0x00) @ ''hi, old'', readerIndex = 8, writerIndex = 10\<rparr>"
  have wf: "mbuf_wf ?b" by (simp add: mbuf_wf_def max_size_def)
  have l: "length (readable ?b) = 2" by (simp add: length_readable[OF wf])
  have "readable ?b = ''hi''" by (simp add: readable_def)
  then show ?thesis
    using retrieve_past_end[OF wf, of 7] retrieve_past_end[OF wf, of 8] l by (simp add: max_size_def)
qed

text \<open>
  One readFd takes in whatever the kernel delivers, however small the buffer's free part: the
  bytes are appended to the readable ones, in order, whether they went into the array, into the
  64 KB on the stack or into both, and their number is returned; a failed call returns -1 with its
  errno and leaves the buffer alone.  writeFd offers the kernel exactly the readable bytes.
\<close>

theorem read_fd_appends:
  assumes "mbuf_wf b" and "unat (writerIndex b) + length d \<le> max_size"
  shows "(\<exists>b'. readFd (Readv_bytes d) b = Inr (int (length d), None, b') \<and> mbuf_wf b'
           \<and> readable b' = readable b @ d)
    \<and> readFd (Readv_failed e) b = Inr (-1, Some e, b)
    \<and> writeFd os b = Inr (case os (readable b) of Write_failed e \<Rightarrow> (-1, Some e) | Write_count n \<Rightarrow> (int n, None))"
proof (intro conjI)
  show "\<exists>b'. readFd (Readv_bytes d) b = Inr (int (length d), None, b') \<and> mbuf_wf b' \<and> readable b' = readable b @ d"
    using readFd_bytes[OF assms] by blast
  have "peek (readableBytes b) b = Inr (readable b)"
    using peek_readable[OF assms(1), of "readableBytes b"] unat_readableBytes[OF assms(1)] by simp
  then show "writeFd os b = Inr (case os (readable b) of Write_failed e \<Rightarrow> (-1, Some e) | Write_count n \<Rightarrow> (int n, None))"
    by (simp add: writeFd_def)
qed (simp add: readFd_def)

theorem read_fd_appends_witness:
  "\<exists>b b'. MBuffer 4 = Inr b \<and> readFd (Readv_bytes ''HELLO WORLD'') b = Inr (11, None, b')
     \<and> readable b' = ''HELLO WORLD'' \<and> iovcnt b = 2 \<and> length ''HELLO WORLD'' \<le> iov_capacity b
     \<and> length ''HELLO WORLD'' > unat (writableBytes b)"
proof -
  obtain b where b: "MBuffer 4 = Inr b" "mbuf_wf b" "readable b = []" "writableBytes b = 4" "writerIndex b = 8"
    using MBuffer_ok[of 4] by (auto simp: max_size_def MBuffer_def and_then_eq_Inr kCheapPrepend_def)
  have "unat (writerIndex b) + length ''HELLO WORLD'' \<le> max_size" by (simp add: b max_size_def)
  from read_fd_appends[OF b(2) this] show ?thesis
    using b by (auto simp: iovcnt_def iov_capacity_def extrabuf_size_def)
qed

end
