(* ===== verification/MuduoPoller.thy ===== *)
theory MuduoPoller
  imports ChannelPoller
begin

text \<open>
  The classes Channel, Poller and EPollPoller of src/ (Channel.h, Channel.cc, Poller.cc,
  EPollPoller.cc, DefaultPoller.cc).  A channel has an index that tells the poller whether the
  kernel knows it; the poller's updateChannel and removeChannel move it between kNew, kAdded and
  kDeleted.  Channels are known by their address.  The kernel's answer to epoll_ctl is the
  parameter \<open>ctl\<close>; its documented behaviour is \<open>ctl_apply\<close> of theory ChannelPoller.
\<close>

section \<open>Channels\<close>

definition KNoneEvent :: u32 where
  "KNoneEvent = 0"

definition KReadEvent :: u32 where
  "KReadEvent = EPOLLIN OR EPOLLPRI"

definition KWriteEvent :: u32 where
  "KWriteEvent = EPOLLOUT"

definition kNew :: int where
  "kNew = -1"

definition kAdded :: int where
  "kAdded = 1"

definition kDeleted :: int where
  "kDeleted = 2"

lemmas channel_index = kNew_def kAdded_def kDeleted_def

text \<open>\<open>mc_tie\<close> is the object the weak_ptr points to, if any; \<open>'k\<close> names callbacks.\<close>

record 'k mchannel =
  mc_fd :: int
  mc_events :: u32
  mc_revents :: u32
  mc_index :: int
  mc_tie :: "nat option"
  mc_tied :: bool
  readCallback :: "'k option"
  writeCallback :: "'k option"
  closeCallback :: "'k option"
  errorCallback :: "'k option"

definition MChannel :: "int \<Rightarrow> 'k mchannel" where
  "MChannel fd = \<lparr>mc_fd = fd, mc_events = 0, mc_revents = 0, mc_index = -1, mc_tie = None, mc_tied = False,
     readCallback = None, writeCallback = None, closeCallback = None, errorCallback = None\<rparr>"

definition setReadCallback :: "'k \<Rightarrow> 'k mchannel \<Rightarrow> 'k mchannel" where
  "setReadCallback cb c = c\<lparr>readCallback := Some cb\<rparr>"

definition setWriteCallback :: "'k \<Rightarrow> 'k mchannel \<Rightarrow> 'k mchannel" where
  "setWriteCallback cb c = c\<lparr>writeCallback := Some cb\<rparr>"

definition setCloseCallback :: "'k \<Rightarrow> 'k mchannel \<Rightarrow> 'k mchannel" where
  "setCloseCallback cb c = c\<lparr>closeCallback := Some cb\<rparr>"

definition setErrorCallback :: "'k \<Rightarrow> 'k mchannel \<Rightarrow> 'k mchannel" where
  "setErrorCallback cb c = c\<lparr>errorCallback := Some cb\<rparr>"

lemmas channel_callbacks = setReadCallback_def setWriteCallback_def setCloseCallback_def setErrorCallback_def

definition tie :: "nat \<Rightarrow> 'k mchannel \<Rightarrow> 'k mchannel" where
  "tie obj c = c\<lparr>mc_tie := Some obj, mc_tied := True\<rparr>"

definition set_revents :: "u32 \<Rightarrow> 'k mchannel \<Rightarrow> 'k mchannel" where
  "set_revents revt c = c\<lparr>mc_revents := revt\<rparr>"

definition set_index :: "int \<Rightarrow> 'k mchannel \<Rightarrow> 'k mchannel" where
  "set_index idx c = c\<lparr>mc_index := idx\<rparr>"

text \<open>The calls of the loop in update() and remove() are commented out in the source.\<close>

definition channel_update :: "'k mchannel \<Rightarrow> 'k mchannel" where
  "channel_update c = c"

definition channel_remove :: "'k mchannel \<Rightarrow> 'k mchannel" where
  "channel_remove c = c"

definition enableReading :: "'k mchannel \<Rightarrow> 'k mchannel" where
  "enableReading c = channel_update (c\<lparr>mc_events := mc_events c OR KReadEvent\<rparr>)"

definition disableReading :: "'k mchannel \<Rightarrow> 'k mchannel" where
  "disableReading c = channel_update (c\<lparr>mc_events := mc_events c AND NOT KReadEvent\<rparr>)"

definition enableWriting :: "'k mchannel \<Rightarrow> 'k mchannel" where
  "enableWriting c = channel_update (c\<lparr>mc_events := mc_events c OR KWriteEvent\<rparr>)"

definition disableWriting :: "'k mchannel \<Rightarrow> 'k mchannel" where
  "disableWriting c = channel_update (c\<lparr>mc_events := mc_events c AND NOT KWriteEvent\<rparr>)"

definition disableAllEvents :: "'k mchannel \<Rightarrow> 'k mchannel" where
  "disableAllEvents c = channel_update (c\<lparr>mc_events := KNoneEvent\<rparr>)"

definition isKReadEvent :: "'k mchannel \<Rightarrow> bool" where
  "isKReadEvent c \<longleftrightarrow> mc_events c = KReadEvent"

definition isWriting :: "'k mchannel \<Rightarrow> bool" where
  "isWriting c \<longleftrightarrow> mc_events c AND KWriteEvent \<noteq> 0"

definition isReading :: "'k mchannel \<Rightarrow> bool" where
  "isReading c \<longleftrightarrow> mc_events c AND KReadEvent \<noteq> 0"

text \<open>
  handleEvent works on the state \<open>'s\<close> the channel lives in (\<open>ch\<close> reads the channel from it, \<open>alive\<close>
  tells whether the object behind the weak_ptr still exists).  The read callback gets the time.
\<close>

datatype 'k event_call = Timed 'k int | Plain 'k

definition handleEventWithGuard ::
  "('k event_call \<Rightarrow> 's \<Rightarrow> fault + 's) \<Rightarrow> ('s \<Rightarrow> 'k mchannel) \<Rightarrow> int \<Rightarrow> 's \<Rightarrow> fault + 's" where
  "handleEventWithGuard run ch time s =
     (if mc_revents (ch s) AND EPOLLHUP \<noteq> 0 \<and> \<not> (mc_revents (ch s) AND EPOLLIN \<noteq> 0)
      then call_if run (map_option Plain (closeCallback (ch s))) s
      else
        and_then (if mc_revents (ch s) AND EPOLLERR \<noteq> 0
                  then call_if run (map_option Plain (errorCallback (ch s))) s else Inr s) (\<lambda>s.
        and_then (if mc_revents (ch s) AND (EPOLLIN OR EPOLLPRI) \<noteq> 0
                  then call_if run (map_option (\<lambda>k. Timed k time) (readCallback (ch s))) s else Inr s) (\<lambda>s.
        if mc_revents (ch s) AND EPOLLOUT \<noteq> 0
        then call_if run (map_option Plain (writeCallback (ch s))) s else Inr s)))"

definition handleEvent :: "('k event_call \<Rightarrow> 's \<Rightarrow> fault + 's) \<Rightarrow> ('s \<Rightarrow> 'k mchannel) \<Rightarrow> ('s \<Rightarrow> nat \<Rightarrow> bool)
    \<Rightarrow> int \<Rightarrow> 's \<Rightarrow> fault + 's" where
  "handleEvent run ch alive time s =
     (if mc_tied (ch s) then
        (case mc_tie (ch s) of None \<Rightarrow> Inr s
         | Some obj \<Rightarrow> if alive s obj then handleEventWithGuard run ch time s else Inr s)
      else handleEventWithGuard run ch time s)"

section \<open>The poller\<close>

text \<open>
  \<open>kernel_list\<close> is the interest list behind the epoll descriptor, \<open>event_list\<close> the size of events_,
  and \<open>del_errors\<close> the calls for which the error of a refused EPOLL_CTL_DEL has been logged.
\<close>

record mpoller =
  mp_channels :: "int \<Rightarrow> nat option"
  kernel_list :: "int \<Rightarrow> u32 option"
  event_list :: nat
  del_errors :: "ctl_call list"

definition EPollPoller :: mpoller where
  "EPollPoller = \<lparr>mp_channels = (\<lambda>_. None), kernel_list = (\<lambda>_. None), event_list = 16, del_errors = []\<rparr>"

type_synonym epoll_ctl = "ctl_call \<Rightarrow> (int \<Rightarrow> u32 option) \<Rightarrow> (int \<Rightarrow> u32 option) option"

definition hasChannel :: "nat \<Rightarrow> 'k mchannel \<Rightarrow> mpoller \<Rightarrow> bool" where
  "hasChannel a c p \<longleftrightarrow> mp_channels p (mc_fd c) = Some a"

text \<open>A refused EPOLL_CTL_DEL is only logged; a refused ADD or MOD is LOG_FATAL, which exits.\<close>

definition epoll_update :: "epoll_ctl \<Rightarrow> epoll_op \<Rightarrow> 'k mchannel \<Rightarrow> mpoller \<Rightarrow> fault + mpoller" where
  "epoll_update ctl operation c p =
     (let call = (operation, mc_fd c, mc_events c) in
      case ctl call (kernel_list p) of
        None \<Rightarrow> if operation = EPOLL_CTL_DEL then Inr (p\<lparr>del_errors := del_errors p @ [call]\<rparr>) else Inl Aborted
      | Some m \<Rightarrow> Inr (p\<lparr>kernel_list := m\<rparr>))"

definition updateChannel :: "epoll_ctl \<Rightarrow> nat \<Rightarrow> 'k mchannel \<Rightarrow> mpoller \<Rightarrow> fault + ('k mchannel \<times> mpoller)" where
  "updateChannel ctl a c p =
     (let index = mc_index c in
      if index = kNew \<or> index = kDeleted then
        let p = (if index = kNew then p\<lparr>mp_channels := (mp_channels p)(mc_fd c \<mapsto> a)\<rparr> else p);
            c = set_index kAdded c in
        and_then (epoll_update ctl EPOLL_CTL_ADD c p) (\<lambda>p. Inr (c, p))
      else if isKReadEvent c then
        and_then (epoll_update ctl EPOLL_CTL_DEL c p) (\<lambda>p. Inr (set_index kDeleted c, p))
      else and_then (epoll_update ctl EPOLL_CTL_MOD c p) (\<lambda>p. Inr (c, p)))"

definition removeChannel :: "epoll_ctl \<Rightarrow> 'k mchannel \<Rightarrow> mpoller \<Rightarrow> fault + ('k mchannel \<times> mpoller)" where
  "removeChannel ctl c p =
     (let p = p\<lparr>mp_channels := (mp_channels p)(mc_fd c := None)\<rparr> in
      and_then (if mc_index c = kAdded then epoll_update ctl EPOLL_CTL_DEL c p else Inr p) (\<lambda>p.
      Inr (set_index kNew c, p)))"

text \<open>The ready list holds the channel addresses the kernel was given in data.ptr.\<close>

fun fillActiveChannels :: "(nat \<times> u32) list \<Rightarrow> (nat \<Rightarrow> 'k mchannel option) \<Rightarrow> nat list
    \<Rightarrow> fault + (nat list \<times> (nat \<Rightarrow> 'k mchannel option))" where
  "fillActiveChannels [] h active = Inr (active, h)"
| "fillActiveChannels ((a, ev) # evs) h active =
     (case h a of None \<Rightarrow> Inl UseAfterFree
      | Some c \<Rightarrow> fillActiveChannels evs (h(a \<mapsto> set_revents ev c)) (active @ [a]))"

datatype epoll_wait = Wait_ready "(nat \<times> u32) list" | Wait_error int

definition epoll_poll :: "epoll_wait \<Rightarrow> mpoller \<Rightarrow> (nat \<Rightarrow> 'k mchannel option) \<Rightarrow> nat list
    \<Rightarrow> fault + (nat list \<times> (nat \<Rightarrow> 'k mchannel option) \<times> mpoller)" where
  "epoll_poll ans p h active =
     (case ans of Wait_error _ \<Rightarrow> Inr (active, h, p)
      | Wait_ready evs \<Rightarrow>
          if 0 < length evs then
            and_then (fillActiveChannels evs h active) (\<lambda>(active, h).
            Inr (active, h, if length evs = event_list p then p\<lparr>event_list := event_list p * 2\<rparr> else p))
          else Inr (active, h, p))"

text \<open>\<open>env\<close> is whether MUDUO_USE_POLL is set; then no poller is made and the result is null.\<close>

definition newDefaultPoller :: "bool \<Rightarrow> mpoller option" where
  "newDefaultPoller env = (if env then None else Some EPollPoller)"

section \<open>Runs of operations on the channels of a poller\<close>

text \<open>
  The operations on the channel at an address: changing its interest, and the poller's two calls
  (EventLoop::updateChannel and EventLoop::removeChannel pass them on).
\<close>

datatype mchan_op = Enable_reading nat | Disable_reading nat | Enable_writing nat | Disable_writing nat
  | Disable_all nat | Update_channel nat | Remove_channel nat

fun mchan_addr :: "mchan_op \<Rightarrow> nat" where
  "mchan_addr (Enable_reading a) = a" | "mchan_addr (Disable_reading a) = a"
| "mchan_addr (Enable_writing a) = a" | "mchan_addr (Disable_writing a) = a"
| "mchan_addr (Disable_all a) = a" | "mchan_addr (Update_channel a) = a" | "mchan_addr (Remove_channel a) = a"

type_synonym 'k mchannels = "nat \<Rightarrow> 'k mchannel option"

definition mchan_do :: "epoll_ctl \<Rightarrow> mchan_op \<Rightarrow> 'k mchannel \<Rightarrow> mpoller \<Rightarrow> fault + ('k mchannel \<times> mpoller)" where
  "mchan_do ctl op c p = (case op of
       Enable_reading _ \<Rightarrow> Inr (enableReading c, p)
     | Disable_reading _ \<Rightarrow> Inr (disableReading c, p)
     | Enable_writing _ \<Rightarrow> Inr (enableWriting c, p)
     | Disable_writing _ \<Rightarrow> Inr (disableWriting c, p)
     | Disable_all _ \<Rightarrow> Inr (disableAllEvents c, p)
     | Update_channel a \<Rightarrow> updateChannel ctl a c p
     | Remove_channel _ \<Rightarrow> removeChannel ctl c p)"

definition mchan_step :: "epoll_ctl \<Rightarrow> mchan_op \<Rightarrow> 'k mchannels \<times> mpoller \<Rightarrow> fault + (('k mchannels \<times> mpoller) \<times> unit)" where
  "mchan_step ctl op = (\<lambda>(h, p).
     case h (mchan_addr op) of None \<Rightarrow> Inl UseAfterFree
     | Some c \<Rightarrow> and_then (mchan_do ctl op c p) (\<lambda>(c, p). Inr ((h(mchan_addr op \<mapsto> c), p), ())))"

text \<open>
  The invariant of the index: kAdded means that the kernel watches the descriptor, kNew that the
  poller's table does not have the channel; kDeleted is known to the poller, but not to the kernel.
  With it, no call has been refused.
\<close>

definition mpoller_wf :: "'k mchannels \<times> mpoller \<Rightarrow> bool" where
  "mpoller_wf = (\<lambda>(h, p). del_errors p = [] \<and>
     (\<forall>a b c d. h a = Some c \<and> h b = Some d \<and> mc_fd c = mc_fd d \<longrightarrow> a = b)
   \<and> (\<forall>a c. h a = Some c \<longrightarrow> mc_index c \<in> {kNew, kAdded, kDeleted}
        \<and> mp_channels p (mc_fd c) = (if mc_index c = kNew then None else Some a)
        \<and> (kernel_list p (mc_fd c) \<noteq> None \<longleftrightarrow> mc_index c = kAdded)))"

text \<open>What can be seen of a channel: descriptor, interest, what the kernel watches, and whether it is known.\<close>

type_synonym mview = "nat \<Rightarrow> (int \<times> u32 \<times> u32 option \<times> bool) option"

definition mview :: "'k mchannels \<times> mpoller \<Rightarrow> mview" where
  "mview = (\<lambda>(h, p) a. map_option
     (\<lambda>c. (mc_fd c, mc_events c, kernel_list p (mc_fd c), hasChannel a c p)) (h a))"

text \<open>
  The abstract operations.  updateChannel makes the kernel watch the interest, except that it stops
  watching a channel it watches when the interest is exactly reading.
\<close>

fun mview_after :: "mchan_op \<Rightarrow> int \<times> u32 \<times> u32 option \<times> bool \<Rightarrow> int \<times> u32 \<times> u32 option \<times> bool" where
  "mview_after (Enable_reading _) (fd, ev, reg, known) = (fd, ev OR KReadEvent, reg, known)"
| "mview_after (Disable_reading _) (fd, ev, reg, known) = (fd, ev AND NOT KReadEvent, reg, known)"
| "mview_after (Enable_writing _) (fd, ev, reg, known) = (fd, ev OR KWriteEvent, reg, known)"
| "mview_after (Disable_writing _) (fd, ev, reg, known) = (fd, ev AND NOT KWriteEvent, reg, known)"
| "mview_after (Disable_all _) (fd, ev, reg, known) = (fd, KNoneEvent, reg, known)"
| "mview_after (Update_channel _) (fd, ev, reg, known) =
     (fd, ev, (if reg \<noteq> None \<and> ev = KReadEvent then None else Some ev), True)"
| "mview_after (Remove_channel _) (fd, ev, reg, known) = (fd, ev, None, False)"

definition mchan_spec :: "mchan_op \<Rightarrow> mview \<Rightarrow> unit \<Rightarrow> mview \<Rightarrow> bool" where
  "mchan_spec op m out m' \<longleftrightarrow> m (mchan_addr op) \<noteq> None \<and> m' = m(mchan_addr op := map_option (mview_after op) (m (mchan_addr op)))"

definition mchan_ok :: "mchan_op \<Rightarrow> mview \<Rightarrow> bool" where
  "mchan_ok op m \<longleftrightarrow> m (mchan_addr op) \<noteq> None"

lemma mpoller_wfD:
  assumes "mpoller_wf (h, p)" "h a = Some c"
  shows "mc_index c \<in> {kNew, kAdded, kDeleted}"
    and "mp_channels p (mc_fd c) = (if mc_index c = kNew then None else Some a)"
    and "kernel_list p (mc_fd c) \<noteq> None \<longleftrightarrow> mc_index c = kAdded"
    and "h b = Some d \<Longrightarrow> b \<noteq> a \<Longrightarrow> mc_fd d \<noteq> mc_fd c"
    and "del_errors p = []"
  using assms unfolding mpoller_wf_def by blast+

lemma replace_channel:
  assumes wf: "mpoller_wf (h, p)" and c: "h a = Some c" and fd: "mc_fd c' = mc_fd c"
    and chans: "mp_channels p' = (mp_channels p)(mc_fd c := (if mc_index c' = kNew then None else Some a))"
    and kern: "kernel_list p' = (kernel_list p)(mc_fd c := reg)"
    and idx: "mc_index c' \<in> {kNew, kAdded, kDeleted}" "reg \<noteq> None \<longleftrightarrow> mc_index c' = kAdded"
    and errs: "del_errors p' = del_errors p"
  shows "mpoller_wf (h(a \<mapsto> c'), p')"
    and "mview (h(a \<mapsto> c'), p') = (mview (h, p))(a \<mapsto> (mc_fd c, mc_events c', reg, mc_index c' \<noteq> kNew))"
proof -
  note W = mpoller_wfD[OF wf]
  have fds: "mc_fd d \<noteq> mc_fd c" if "h b = Some d" "b \<noteq> a" for b d using W(4)[OF c] that by blast
  have fds2: "b = b'" if "h b = Some d" "h b' = Some d'" "mc_fd d = mc_fd d'" for b b' d d'
    using W(4)[OF that(1,2)] that(3) by auto
  show "mpoller_wf (h(a \<mapsto> c'), p')"
    unfolding mpoller_wf_def prod.case
  proof (intro conjI allI impI)
    show "del_errors p' = []" using errs W(5)[OF c] by simp
  next
    fix b b' d d' assume "(h(a \<mapsto> c')) b = Some d \<and> (h(a \<mapsto> c')) b' = Some d' \<and> mc_fd d = mc_fd d'"
    then show "b = b'" using fds[of b d] fds[of b' d'] fds2[of b d b' d'] fd by (auto split: if_splits)
  next
    fix b d assume d: "(h(a \<mapsto> c')) b = Some d"
    show "mc_index d \<in> {kNew, kAdded, kDeleted}" using d W(1) idx(1) by (auto split: if_splits)
    show "mp_channels p' (mc_fd d) = (if mc_index d = kNew then None else Some b)"
      using d W(2)[of b d] fds[of b d] fd chans by (auto split: if_splits)
    show "(kernel_list p' (mc_fd d) \<noteq> None) = (mc_index d = kAdded)"
      using d W(3)[of b d] fds[of b d] fd kern idx(2) by (auto split: if_splits)
  qed
  show "mview (h(a \<mapsto> c'), p') = (mview (h, p))(a \<mapsto> (mc_fd c, mc_events c', reg, mc_index c' \<noteq> kNew))"
  proof
    fix b
    show "mview (h(a \<mapsto> c'), p') b = ((mview (h, p))(a \<mapsto> (mc_fd c, mc_events c', reg, mc_index c' \<noteq> kNew))) b"
      using fds[of b] fd chans kern by (cases "b = a"; cases "h b") (simp_all add: mview_def hasChannel_def)
  qed
qed

text \<open>With a kernel that behaves as documented no call is refused.\<close>

lemma updateChannel_add:
  assumes "mc_index c = kNew \<or> mc_index c = kDeleted" "kernel_list p (mc_fd c) = None"
  shows "updateChannel ctl_apply a c p = Inr (set_index kAdded c,
    p\<lparr>mp_channels := (if mc_index c = kNew then (mp_channels p)(mc_fd c \<mapsto> a) else mp_channels p),
      kernel_list := (kernel_list p)(mc_fd c \<mapsto> mc_events c)\<rparr>)"
  using assms by (auto simp: updateChannel_def epoll_update_def set_index_def Let_def)

lemma updateChannel_added:
  assumes "mc_index c = kAdded" "kernel_list p (mc_fd c) \<noteq> None"
  shows "updateChannel ctl_apply a c p =
    (if isKReadEvent c then Inr (set_index kDeleted c, p\<lparr>kernel_list := (kernel_list p)(mc_fd c := None)\<rparr>)
     else Inr (c, p\<lparr>kernel_list := (kernel_list p)(mc_fd c \<mapsto> mc_events c)\<rparr>))"
  using assms by (auto simp: updateChannel_def epoll_update_def set_index_def Let_def channel_index)

lemma removeChannel_eq:
  assumes "mc_index c = kAdded \<longleftrightarrow> kernel_list p (mc_fd c) \<noteq> None"
  shows "removeChannel ctl_apply c p = Inr (set_index kNew c,
    p\<lparr>mp_channels := (mp_channels p)(mc_fd c := None), kernel_list := (kernel_list p)(mc_fd c := None)\<rparr>)"
proof (cases "mc_index c = kAdded")
  case False
  with assms have "(kernel_list p)(mc_fd c := None) = kernel_list p" by (auto simp: fun_eq_iff)
  with False show ?thesis by (simp add: removeChannel_def Let_def)
qed (use assms in \<open>auto simp: removeChannel_def epoll_update_def Let_def\<close>)

lemma mchan_do_ok:
  assumes wf: "mpoller_wf (h, p)" and c: "h a = Some c" and op: "mchan_addr op = a"
  shows "\<exists>c' p' reg. mchan_do ctl_apply op c p = Inr (c', p') \<and> mc_fd c' = mc_fd c
     \<and> mp_channels p' = (mp_channels p)(mc_fd c := (if mc_index c' = kNew then None else Some a))
     \<and> kernel_list p' = (kernel_list p)(mc_fd c := reg)
     \<and> mc_index c' \<in> {kNew, kAdded, kDeleted} \<and> (reg \<noteq> None \<longleftrightarrow> mc_index c' = kAdded)
     \<and> del_errors p' = del_errors p
     \<and> (mc_fd c, mc_events c', reg, mc_index c' \<noteq> kNew)
         = mview_after op (mc_fd c, mc_events c, kernel_list p (mc_fd c), mc_index c \<noteq> kNew)"
proof -
  note W = mpoller_wfD[OF wf c]
  have same: "(mp_channels p)(mc_fd c := (if mc_index c = kNew then None else Some a)) = mp_channels p"
    using fun_upd_triv[of "mp_channels p" "mc_fd c"] unfolding W(2) .
  have gone: "kernel_list p (mc_fd c) = None" if "mc_index c \<noteq> kAdded" using W(3) that by blast
  obtain ev where there: "mc_index c = kAdded \<Longrightarrow> kernel_list p (mc_fd c) = Some ev" using W(3) by blast
  have keep: ?thesis
    if "mchan_do ctl_apply op c p = Inr (c', p)" "mc_fd c' = mc_fd c" "mc_index c' = mc_index c"
      "(mc_fd c, mc_events c', kernel_list p (mc_fd c), mc_index c \<noteq> kNew)
        = mview_after op (mc_fd c, mc_events c, kernel_list p (mc_fd c), mc_index c \<noteq> kNew)" for c'
    using that same W(1,3)
    by (intro exI[of _ c'] exI[of _ p] exI[of _ "kernel_list p (mc_fd c)"]) auto
  show ?thesis
  proof (cases op)
    case (Update_channel b)
    then have b: "b = a" using op by simp
    show ?thesis
    proof (cases "mc_index c = kAdded")
      case True
      then show ?thesis
        using updateChannel_added[of c p a] there[OF True] same
        by (cases "isKReadEvent c") (auto simp: mchan_do_def Update_channel b set_index_def channel_index isKReadEvent_def)
    next
      case False
      with W(1) have "mc_index c = kNew \<or> mc_index c = kDeleted" by blast
      with updateChannel_add[of c p a] gone[OF False] same show ?thesis
        by (auto simp: mchan_do_def Update_channel b set_index_def channel_index
            intro!: exI[of _ "Some (mc_events c)"])
    qed
  next
    case (Remove_channel b)
    then show ?thesis using removeChannel_eq[of c p] W(3)
      by (auto simp: mchan_do_def set_index_def channel_index intro!: exI[of _ "None"])
  qed (use keep[of "enableReading c"] keep[of "disableReading c"] keep[of "enableWriting c"]
        keep[of "disableWriting c"] keep[of "disableAllEvents c"] in \<open>simp_all add: mchan_do_def
        enableReading_def disableReading_def enableWriting_def disableWriting_def disableAllEvents_def
        channel_update_def\<close>)
qed

lemma mchan_step_simulates:
  assumes wf: "mpoller_wf s" and ok: "mchan_ok op (mview s)"
  shows "\<exists>s' out. mchan_step ctl_apply op s = Inr (s', out) \<and> mpoller_wf s' \<and> mchan_spec op (mview s) out (mview s')"
proof -
  obtain h p where s: "s = (h, p)" by force
  let ?a = "mchan_addr op"
  from ok obtain c where c: "h ?a = Some c" by (auto simp: mchan_ok_def mview_def s)
  from mchan_do_ok[OF wf[unfolded s] c refl] obtain c' p' reg where
    run: "mchan_do ctl_apply op c p = Inr (c', p')" and R: "mc_fd c' = mc_fd c"
      "mp_channels p' = (mp_channels p)(mc_fd c := (if mc_index c' = kNew then None else Some ?a))"
      "kernel_list p' = (kernel_list p)(mc_fd c := reg)"
      "mc_index c' \<in> {kNew, kAdded, kDeleted}" "reg \<noteq> None \<longleftrightarrow> mc_index c' = kAdded" "del_errors p' = del_errors p" and
    view: "(mc_fd c, mc_events c', reg, mc_index c' \<noteq> kNew)
         = mview_after op (mc_fd c, mc_events c, kernel_list p (mc_fd c), mc_index c \<noteq> kNew)" by blast
  have "mview (h, p) ?a = Some (mc_fd c, mc_events c, kernel_list p (mc_fd c), mc_index c \<noteq> kNew)"
    using c mpoller_wfD(2)[OF wf[unfolded s] c] by (simp add: mview_def hasChannel_def)
  with replace_channel[OF wf[unfolded s] c R] run c view show ?thesis
    by (simp add: s mchan_step_def mchan_spec_def)
qed

interpretation muduo_poller: op_simulation "mchan_step ctl_apply" mchan_spec mchan_ok mpoller_wf mview
  by (rule op_simulation.intro) (rule mchan_step_simulates)

lemma mchan_spec_run:
  "spec_run mchan_spec ops m outs m' \<Longrightarrow>
   m' a = map_option (fold mview_after (filter (\<lambda>op. mchan_addr op = a) ops)) (m a)"
proof (induction ops arbitrary: m outs)
  case (Cons op ops)
  then obtain outs' m1 where "mchan_spec op m () m1" "spec_run mchan_spec ops m1 outs' m'"
    by (auto simp: spec_run_Cons)
  with Cons.IH[OF this(2)] show ?case by (auto simp: mchan_spec_def option.map_comp comp_def)
qed (simp add: spec_run_Nil option.map_id0 id_def option.map_ident)

lemma mchan_all_ok:
  "\<forall>op \<in> set ops. m (mchan_addr op) \<noteq> None \<Longrightarrow> all_ok mchan_spec mchan_ok ops m"
proof (induction ops arbitrary: m)
  case (Cons op ops)
  have "\<forall>o' \<in> set ops. (m(mchan_addr op := map_option (mview_after op) (m (mchan_addr op)))) (mchan_addr o') \<noteq> None"
    using Cons.prems by (auto simp del: not_None_eq)
  with Cons show ?case by (simp add: mchan_ok_def mchan_spec_def)
qed simp

lemma mpoller_wf_new:
  assumes "\<forall>a b c d. h a = Some c \<and> h b = Some d \<and> mc_fd c = mc_fd d \<longrightarrow> a = b"
    and "\<forall>a c. h a = Some c \<longrightarrow> mc_index c = kNew"
  shows "mpoller_wf (h, EPollPoller)"
  using assms by (auto simp: mpoller_wf_def EPollPoller_def channel_index)

section \<open>Dispatch\<close>

text \<open>The callbacks the ready events ask for, in order.\<close>

definition event_calls :: "int \<Rightarrow> 'k mchannel \<Rightarrow> 'k event_call option list" where
  "event_calls time c = (let ev = mc_revents c in
     if ev AND EPOLLHUP \<noteq> 0 \<and> ev AND EPOLLIN = 0 then [map_option Plain (closeCallback c)]
     else (if ev AND EPOLLERR \<noteq> 0 then [map_option Plain (errorCallback c)] else [])
        @ (if ev AND (EPOLLIN OR EPOLLPRI) \<noteq> 0 then [map_option (\<lambda>k. Timed k time) (readCallback c)] else [])
        @ (if ev AND EPOLLOUT \<noteq> 0 then [map_option Plain (writeCallback c)] else []))"

definition same_callbacks :: "'k mchannel \<Rightarrow> 'k mchannel \<Rightarrow> bool" where
  "same_callbacks c d \<longleftrightarrow> mc_revents c = mc_revents d \<and> readCallback c = readCallback d
     \<and> writeCallback c = writeCallback d \<and> closeCallback c = closeCallback d \<and> errorCallback c = errorCallback d"

lemma call_then:
  assumes "\<And>k s s'. run k s = Inr s' \<Longrightarrow> P s \<Longrightarrow> P s'" "P s" "\<And>t. P t \<Longrightarrow> f t = run_handlers run ks t"
  shows "and_then (if b then call_if run k s else Inr s) f = run_handlers run ((if b then [k] else []) @ ks) s"
proof (cases b)
  case True
  have "and_then (call_if run k s) f = and_then (call_if run k s) (run_handlers run ks)"
    by (rule and_then_cong[OF refl])
       (use assms in \<open>auto simp: call_if_def split: option.splits\<close>)
  with True show ?thesis by simp
qed (use assms(2,3) in simp)

lemma handleEventWithGuard_calls:
  assumes "\<forall>k s s'. run k s = Inr s' \<longrightarrow> same_callbacks (ch s') (ch s)"
  shows "handleEventWithGuard run ch time s = run_handlers run (event_calls time (ch s)) s"
proof -
  let ?P = "\<lambda>t. same_callbacks (ch t) (ch s)" and ?ev = "mc_revents (ch s)"
  have step: "?P t \<Longrightarrow> run k t = Inr t' \<Longrightarrow> ?P t'" for k t t'
    using assms by (auto simp: same_callbacks_def)
  have P0: "?P s" by (simp add: same_callbacks_def)
  have "and_then (if ?ev AND EPOLLERR \<noteq> 0 then call_if run (map_option Plain (errorCallback (ch s))) s else Inr s)
       (\<lambda>s. and_then (if mc_revents (ch s) AND (EPOLLIN OR EPOLLPRI) \<noteq> 0
                  then call_if run (map_option (\<lambda>k. Timed k time) (readCallback (ch s))) s else Inr s) (\<lambda>s.
        if mc_revents (ch s) AND EPOLLOUT \<noteq> 0
        then call_if run (map_option Plain (writeCallback (ch s))) s else Inr s))
     = run_handlers run ((if ?ev AND EPOLLERR \<noteq> 0 then [map_option Plain (errorCallback (ch s))] else [])
        @ (if ?ev AND (EPOLLIN OR EPOLLPRI) \<noteq> 0 then [map_option (\<lambda>k. Timed k time) (readCallback (ch s))] else [])
        @ (if ?ev AND EPOLLOUT \<noteq> 0 then [map_option Plain (writeCallback (ch s))] else [])) s"
  proof (rule call_then[where P = ?P, OF step P0])
    fix t assume t: "?P t"
    have "and_then (if ?ev AND (EPOLLIN OR EPOLLPRI) \<noteq> 0
                  then call_if run (map_option (\<lambda>k. Timed k time) (readCallback (ch s))) t else Inr t) (\<lambda>s.
        if mc_revents (ch s) AND EPOLLOUT \<noteq> 0
        then call_if run (map_option Plain (writeCallback (ch s))) s else Inr s)
      = run_handlers run ((if ?ev AND (EPOLLIN OR EPOLLPRI) \<noteq> 0 then [map_option (\<lambda>k. Timed k time) (readCallback (ch s))] else [])
        @ (if ?ev AND EPOLLOUT \<noteq> 0 then [map_option Plain (writeCallback (ch s))] else [])) t"
      by (rule call_then[where P = ?P, OF step t]) (auto simp: same_callbacks_def and_then_Inr_right run_handlers_Nil)
    then show "and_then (if mc_revents (ch t) AND (EPOLLIN OR EPOLLPRI) \<noteq> 0
                  then call_if run (map_option (\<lambda>k. Timed k time) (readCallback (ch t))) t else Inr t) (\<lambda>s.
        if mc_revents (ch s) AND EPOLLOUT \<noteq> 0
        then call_if run (map_option Plain (writeCallback (ch s))) s else Inr s)
      = run_handlers run ((if ?ev AND (EPOLLIN OR EPOLLPRI) \<noteq> 0 then [map_option (\<lambda>k. Timed k time) (readCallback (ch s))] else [])
        @ (if ?ev AND EPOLLOUT \<noteq> 0 then [map_option Plain (writeCallback (ch s))] else [])) t"
      using t unfolding same_callbacks_def by (simp only:)
  qed
  then show ?thesis
    by (simp add: handleEventWithGuard_def event_calls_def Let_def and_then_Inr_right run_handlers_Nil)
qed

section \<open>Properties\<close>

text \<open>
  C38. The index of a channel says what the kernel knows.  Starting from new channels of distinct
  descriptors and a new poller, any run of interest changes, updateChannel and removeChannel calls
  on them ends normally when the kernel behaves as documented: no epoll_ctl is refused, so neither
  the fatal exit of a refused ADD or MOD nor the logged error of a refused DEL happens.  Afterwards an index is kAdded exactly when the
  kernel watches the descriptor and kNew exactly when the poller does not know the channel, and
  what the kernel watches is what the abstract operations on that channel alone give.
\<close>

theorem epoll_index_matches_kernel:
  assumes "\<forall>a b c d. h0 a = Some c \<and> h0 b = Some d \<and> mc_fd c = mc_fd d \<longrightarrow> a = b"
    and "\<forall>a c. h0 a = Some c \<longrightarrow> mc_index c = kNew"
    and "\<forall>op \<in> set ops. h0 (mchan_addr op) \<noteq> None"
  shows "\<exists>h p outs. run_steps (mchan_step ctl_apply) ops (h0, EPollPoller) = Inr ((h, p), outs) \<and> del_errors p = []
     \<and> (\<forall>a c. h a = Some c \<longrightarrow> (mc_index c = kAdded \<longleftrightarrow> kernel_list p (mc_fd c) \<noteq> None)
          \<and> (mc_index c = kNew \<longleftrightarrow> \<not> hasChannel a c p))
     \<and> (\<forall>a. mview (h, p) a = map_option (\<lambda>c. fold mview_after (filter (\<lambda>op. mchan_addr op = a) ops)
              (mc_fd c, mc_events c, None, False)) (h0 a))"
proof -
  have ok: "all_ok mchan_spec mchan_ok ops (mview (h0, EPollPoller))"
    by (rule mchan_all_ok) (use assms(3) in \<open>auto simp: mview_def\<close>)
  from muduo_poller.run_simulates[OF mpoller_wf_new[OF assms(1,2)] ok] obtain h p outs where
    run: "run_steps (mchan_step ctl_apply) ops (h0, EPollPoller) = Inr ((h, p), outs)" and wf: "mpoller_wf (h, p)" and
    spec: "spec_run mchan_spec ops (mview (h0, EPollPoller)) outs (mview (h, p))" by auto
  have "mview (h0, EPollPoller) a = map_option (\<lambda>c. (mc_fd c, mc_events c, None, False)) (h0 a)" for a
    by (simp add: mview_def EPollPoller_def hasChannel_def)
  moreover have "del_errors p = []" using wf by (simp add: mpoller_wf_def)
  ultimately show ?thesis using mchan_spec_run[OF spec] mpoller_wfD(1-4)[OF wf] run
    by (intro exI[of _ h] exI[of _ p] exI[of _ outs]) (auto simp: option.map_comp comp_def hasChannel_def)
qed

theorem epoll_index_matches_kernel_witness:
  defines "h0 \<equiv> [0 \<mapsto> MChannel 5, 1 \<mapsto> MChannel 6] :: nat mchannels"
  defines "ops \<equiv> [Enable_reading 0, Enable_writing 0, Update_channel 0, Update_channel 1, Remove_channel 1]"
  shows "\<exists>h p outs. run_steps (mchan_step ctl_apply) ops (h0, EPollPoller) = Inr ((h, p), outs) \<and> del_errors p = []
     \<and> mview (h, p) 0 = Some (5, EPOLLIN OR EPOLLPRI OR EPOLLOUT, Some (EPOLLIN OR EPOLLPRI OR EPOLLOUT), True)
     \<and> mview (h, p) 1 = Some (6, 0, None, False)"
proof -
  have "\<exists>h p outs. run_steps (mchan_step ctl_apply) ops (h0, EPollPoller) = Inr ((h, p), outs) \<and> del_errors p = []
     \<and> (\<forall>a c. h a = Some c \<longrightarrow> (mc_index c = kAdded \<longleftrightarrow> kernel_list p (mc_fd c) \<noteq> None)
          \<and> (mc_index c = kNew \<longleftrightarrow> \<not> hasChannel a c p))
     \<and> (\<forall>a. mview (h, p) a = map_option (\<lambda>c. fold mview_after (filter (\<lambda>op. mchan_addr op = a) ops)
              (mc_fd c, mc_events c, None, False)) (h0 a))"
    by (rule epoll_index_matches_kernel) (auto simp: h0_def ops_def MChannel_def kNew_def split: if_splits)
  moreover have "fold mview_after (filter (\<lambda>op. mchan_addr op = 0) ops) (5, 0, None, False)
      = (5, EPOLLIN OR EPOLLPRI OR EPOLLOUT, Some (EPOLLIN OR EPOLLPRI OR EPOLLOUT), True)"
    and "fold mview_after (filter (\<lambda>op. mchan_addr op = 1) ops) (6, 0, None, False) = (6, 0, None, False)"
    by (simp_all add: ops_def KReadEvent_def KWriteEvent_def epoll_bits)
  ultimately show ?thesis by (auto simp: h0_def MChannel_def)
qed

text \<open>
  updateChannel tests for exactly the reading events where no events at all are meant, so telling
  the poller twice of a channel that only reads makes the kernel stop watching it.
\<close>

theorem read_only_channel_dropped:
  "\<exists>h p outs. run_steps (mchan_step ctl_apply) [Enable_reading 0, Update_channel 0, Update_channel 0]
       ([0 \<mapsto> MChannel 5], EPollPoller) = Inr ((h, p), outs)
     \<and> map_option isReading (h 0) = Some True \<and> kernel_list p 5 = None"
  by (simp add: mchan_step_def mchan_do_def MChannel_def updateChannel_def enableReading_def channel_update_def
      epoll_update_def EPollPoller_def set_index_def channel_index isKReadEvent_def isReading_def KReadEvent_def
      epoll_bits Let_def)

text \<open>
  handleEvent runs the callbacks the ready events ask for and no others, as long as callbacks do
  not reset them: a hang-up without input runs the close callback alone; otherwise error, read (with
  the time of the poll) and write, in this order, each only when its events are set and when it is
  registered.  A channel tied to an object that no longer exists runs nothing.
\<close>

theorem muduo_event_dispatch:
  assumes "\<forall>k s s'. run k s = Inr s' \<longrightarrow> same_callbacks (ch s') (ch s)"
  shows "handleEvent run ch alive time s =
    (if mc_tied (ch s) \<and> (\<forall>obj. mc_tie (ch s) = Some obj \<longrightarrow> \<not> alive s obj) then Inr s
     else run_handlers run (event_calls time (ch s)) s)"
  using handleEventWithGuard_calls[OF assms, of time s]
  by (auto simp: handleEvent_def split: option.splits)

theorem muduo_event_dispatch_witness:
  defines "c \<equiv> set_revents (EPOLLIN OR EPOLLOUT OR EPOLLHUP)
     (setReadCallback ''r'' (setWriteCallback ''w'' (setCloseCallback ''c'' (tie 3 (MChannel 5)))))"
  shows "handleEvent (\<lambda>k (c, l). Inr (c, l @ [k])) fst (\<lambda>s a. a = 3) 42 (c, []) = Inr (c, [Timed ''r'' 42, Plain ''w''])
    \<and> handleEvent (\<lambda>k (c, l). Inr (c, l @ [k])) fst (\<lambda>s a. False) 42 (c, []) = Inr (c, [])"
proof -
  have "handleEvent (\<lambda>k (c, l). Inr (c, l @ [k])) fst alive 42 (c, []) =
    (if mc_tied (fst (c, [] :: string event_call list)) \<and> (\<forall>obj. mc_tie (fst (c, [] :: string event_call list)) = Some obj
        \<longrightarrow> \<not> alive (c, []) obj) then Inr (c, [])
     else run_handlers (\<lambda>k (c, l). Inr (c, l @ [k])) (event_calls 42 (fst (c, [] :: string event_call list))) (c, []))" for alive
    by (rule muduo_event_dispatch) (auto simp: same_callbacks_def)
  then show ?thesis by (simp add: event_calls_def c_def epoll_bits call_if_def tie_def MChannel_def set_revents_def channel_callbacks)
qed

section \<open>Polling\<close>

text \<open>A round of poll hands the reported channels out in order and doubles the list it filled.\<close>

lemma fillActiveChannels_ok:
  "\<forall>(a, ev) \<in> set evs. h a \<noteq> None \<Longrightarrow>
   \<exists>h'. fillActiveChannels evs h active = Inr (active @ map fst evs, h')
     \<and> (\<forall>a. map_option (\<lambda>c. (mc_fd c, mc_events c, mc_index c)) (h' a) = map_option (\<lambda>c. (mc_fd c, mc_events c, mc_index c)) (h a))"
proof (induction evs arbitrary: h active)
  case (Cons e evs)
  obtain a ev where e: "e = (a, ev)" by force
  with Cons.prems obtain c where c: "h a = Some c" by auto
  let ?h = "h(a \<mapsto> set_revents ev c)"
  have "\<forall>(b, ev') \<in> set evs. ?h b \<noteq> None" using Cons.prems by auto
  from Cons.IH[OF this, of "active @ [a]"] obtain h' where
    h': "fillActiveChannels evs ?h (active @ [a]) = Inr ((active @ [a]) @ map fst evs, h')"
    "\<forall>b. map_option (\<lambda>c. (mc_fd c, mc_events c, mc_index c)) (h' b)
       = map_option (\<lambda>c. (mc_fd c, mc_events c, mc_index c)) (?h b)" by blast
  have "\<forall>b. map_option (\<lambda>c. (mc_fd c, mc_events c, mc_index c)) (?h b)
      = map_option (\<lambda>c. (mc_fd c, mc_events c, mc_index c)) (h b)"
    using c by (simp add: set_revents_def)
  with h' c e show ?case by simp
qed simp

lemma epoll_poll_ok:
  assumes "\<forall>(a, ev) \<in> set evs. h a \<noteq> None"
  shows "\<exists>h'. epoll_poll (Wait_ready evs) p h [] = Inr (map fst evs, h',
      if evs \<noteq> [] \<and> length evs = event_list p then p\<lparr>event_list := event_list p * 2\<rparr> else p)
     \<and> (\<forall>a. map_option (\<lambda>c. (mc_fd c, mc_events c, mc_index c)) (h' a) = map_option (\<lambda>c. (mc_fd c, mc_events c, mc_index c)) (h a))"
  using fillActiveChannels_ok[OF assms, of "[]"] by (auto simp: epoll_poll_def)

end
