(* ===== verification/MuduoLoop.thy ===== *)
theory MuduoLoop
  imports MuduoPoller LoopTasks
begin

text \<open>
  The class EventLoop of src/EventLoop.h and src/EventLoop.cc: the loop of one thread, which polls,
  handles the ready channels and runs the functors queued for it, until quit is called.  The first
  part has the operations as functions, the second interleaves the loop with other threads.
\<close>

section \<open>State and operations\<close>

definition kPollTimeMs :: nat where
  "kPollTimeMs = 10000"

text \<open>
  \<open>'k\<close> names functors and \<open>'c\<close> channel callbacks.  A null poller is None; \<open>wakeup_count\<close> is the
  counter of the eventfd \<open>wakeup_fd\<close>.
\<close>

record ('k, 'c) muduo_loop =
  looping :: bool
  quit_flag :: bool
  callingPendingFunctors :: bool
  pendingFunctors :: "'k list"
  loop_poller :: "mpoller option"
  loop_channels :: "'c mchannels"
  wakeup_fd :: int
  wakeup_channel :: "'c mchannel"
  wakeup_count :: nat
  pollReturnTime :: int

text \<open>
  The constructor: \<open>efd\<close> is what eventfd returned, \<open>use_poll\<close> whether MUDUO_USE_POLL is set and
  \<open>has_loop\<close> whether the thread already has a loop; \<open>on_wakeup\<close> is the bound handleRead.
\<close>

definition EventLoop :: "int \<Rightarrow> bool \<Rightarrow> bool \<Rightarrow> 'c \<Rightarrow> fault + ('k, 'c) muduo_loop" where
  "EventLoop efd use_poll has_loop on_wakeup =
     (if efd < 0 then Inl Aborted
      else if has_loop then Inl Aborted
      else Inr \<lparr>looping = False, quit_flag = False, callingPendingFunctors = False, pendingFunctors = [],
        loop_poller = newDefaultPoller use_poll, loop_channels = (\<lambda>_. None), wakeup_fd = efd,
        wakeup_channel = enableReading (setReadCallback on_wakeup (MChannel efd)),
        wakeup_count = 0, pollReturnTime = 0\<rparr>)"

text \<open>The destructor; the second result is the descriptor it closes.\<close>

definition EventLoop_destroy :: "('k, 'c, 'm) muduo_loop_scheme \<Rightarrow> ('k, 'c, 'm) muduo_loop_scheme \<times> int" where
  "EventLoop_destroy l = (l\<lparr>wakeup_channel := channel_remove (disableAllEvents (wakeup_channel l))\<rparr>, wakeup_fd l)"

text \<open>Writing 1 to the eventfd; at its largest value the write fails, which is only logged.\<close>

definition wakeup :: "('k, 'c, 'm) muduo_loop_scheme \<Rightarrow> ('k, 'c, 'm) muduo_loop_scheme" where
  "wakeup l = (if wakeup_count l < 2 ^ 64 - 2 then l\<lparr>wakeup_count := Suc (wakeup_count l)\<rparr> else l)"

definition loop_handleRead :: "('k, 'c, 'm) muduo_loop_scheme \<Rightarrow> ('k, 'c, 'm) muduo_loop_scheme" where
  "loop_handleRead l = l\<lparr>wakeup_count := 0\<rparr>"

definition emplace :: "'k \<Rightarrow> ('k, 'c, 'm) muduo_loop_scheme \<Rightarrow> ('k, 'c, 'm) muduo_loop_scheme" where
  "emplace cb l = l\<lparr>pendingFunctors := pendingFunctors l @ [cb]\<rparr>"

definition queueInLoop :: "bool \<Rightarrow> 'k \<Rightarrow> ('k, 'c, 'm) muduo_loop_scheme \<Rightarrow> ('k, 'c, 'm) muduo_loop_scheme" where
  "queueInLoop in_thread cb l =
     (let l = emplace cb l in if \<not> in_thread \<or> callingPendingFunctors l then wakeup l else l)"

definition runInLoop :: "('k \<Rightarrow> ('k, 'c, 'm) muduo_loop_scheme \<Rightarrow> fault + ('k, 'c, 'm) muduo_loop_scheme)
    \<Rightarrow> bool \<Rightarrow> 'k \<Rightarrow> ('k, 'c, 'm) muduo_loop_scheme \<Rightarrow> fault + ('k, 'c, 'm) muduo_loop_scheme" where
  "runInLoop run in_thread cb l = (if in_thread then run cb l else Inr (queueInLoop in_thread cb l))"

definition quit :: "bool \<Rightarrow> ('k, 'c, 'm) muduo_loop_scheme \<Rightarrow> ('k, 'c, 'm) muduo_loop_scheme" where
  "quit in_thread l = (let l = l\<lparr>quit_flag := True\<rparr> in if \<not> in_thread then wakeup l else l)"

definition doPendingFunctors :: "('k \<Rightarrow> ('k, 'c, 'm) muduo_loop_scheme \<Rightarrow> fault + ('k, 'c, 'm) muduo_loop_scheme)
    \<Rightarrow> ('k, 'c, 'm) muduo_loop_scheme \<Rightarrow> fault + ('k, 'c, 'm) muduo_loop_scheme" where
  "doPendingFunctors run l =
     (let l = l\<lparr>callingPendingFunctors := True\<rparr>; functors = pendingFunctors l; l = l\<lparr>pendingFunctors := []\<rparr> in
      and_then (run_tasks run functors l) (\<lambda>l. Inr (l\<lparr>callingPendingFunctors := False\<rparr>)))"

text \<open>The poller's calls a loop passes on, on the channel at an address.\<close>

definition loop_updateChannel :: "epoll_ctl \<Rightarrow> nat \<Rightarrow> ('k, 'c, 'm) muduo_loop_scheme
    \<Rightarrow> fault + ('k, 'c, 'm) muduo_loop_scheme" where
  "loop_updateChannel ctl a l =
     (case (loop_poller l, loop_channels l a) of
        (None, _) \<Rightarrow> Inl NullDeref | (_, None) \<Rightarrow> Inl UseAfterFree
      | (Some p, Some c) \<Rightarrow> and_then (updateChannel ctl a c p) (\<lambda>(c, p).
          Inr (l\<lparr>loop_poller := Some p, loop_channels := (loop_channels l)(a \<mapsto> c)\<rparr>)))"

definition loop_hasChannel :: "nat \<Rightarrow> ('k, 'c, 'm) muduo_loop_scheme \<Rightarrow> fault + bool" where
  "loop_hasChannel a l =
     (case (loop_poller l, loop_channels l a) of
        (None, _) \<Rightarrow> Inl NullDeref | (_, None) \<Rightarrow> Inl UseAfterFree
      | (Some p, Some c) \<Rightarrow> Inr (hasChannel a c p))"

definition loop_removeChannel :: "epoll_ctl \<Rightarrow> nat \<Rightarrow> ('k, 'c, 'm) muduo_loop_scheme
    \<Rightarrow> fault + ('k, 'c, 'm) muduo_loop_scheme" where
  "loop_removeChannel ctl a l =
     (case (loop_poller l, loop_channels l a) of
        (None, _) \<Rightarrow> Inl NullDeref | (_, None) \<Rightarrow> Inl UseAfterFree
      | (Some p, Some c) \<Rightarrow> and_then (removeChannel ctl c p) (\<lambda>(c, p).
          Inr (l\<lparr>loop_poller := Some p, loop_channels := (loop_channels l)(a \<mapsto> c)\<rparr>)))"

text \<open>
  One round of the loop: \<open>ans\<close> and \<open>time\<close> are what epoll_wait and the clock answer, \<open>handle a time\<close>
  is handleEvent of the channel at \<open>a\<close>, \<open>run\<close> runs a functor.
\<close>

definition loop_round :: "(nat \<Rightarrow> int \<Rightarrow> ('k, 'c, 'm) muduo_loop_scheme \<Rightarrow> fault + ('k, 'c, 'm) muduo_loop_scheme)
    \<Rightarrow> ('k \<Rightarrow> ('k, 'c, 'm) muduo_loop_scheme \<Rightarrow> fault + ('k, 'c, 'm) muduo_loop_scheme)
    \<Rightarrow> epoll_wait \<Rightarrow> int \<Rightarrow> ('k, 'c, 'm) muduo_loop_scheme \<Rightarrow> fault + ('k, 'c, 'm) muduo_loop_scheme" where
  "loop_round handle run ans time l =
     (case loop_poller l of None \<Rightarrow> Inl NullDeref
      | Some p \<Rightarrow>
        and_then (epoll_poll ans p (loop_channels l) []) (\<lambda>(active, h, p).
        and_then (run_tasks (\<lambda>a. handle a time) active
           (l\<lparr>loop_poller := Some p, loop_channels := h, pollReturnTime := time\<rparr>))
          (doPendingFunctors run)))"

text \<open>
  The loop over the answers it gets: it has returned when quit was called, otherwise it waits in
  poll when the answers are used up.
\<close>

datatype 'l loop_end = Returned 'l | Waiting 'l

fun loop_from where
  "loop_from handle run answers l =
     (if quit_flag l then Inr (Returned (l\<lparr>looping := False\<rparr>))
      else case answers of [] \<Rightarrow> Inr (Waiting l)
        | (ans, time) # answers \<Rightarrow>
            and_then (loop_round handle run ans time l) (loop_from handle run answers))"

declare loop_from.simps [simp del]

definition loop :: "(nat \<Rightarrow> int \<Rightarrow> ('k, 'c, 'm) muduo_loop_scheme \<Rightarrow> fault + ('k, 'c, 'm) muduo_loop_scheme)
    \<Rightarrow> ('k \<Rightarrow> ('k, 'c, 'm) muduo_loop_scheme \<Rightarrow> fault + ('k, 'c, 'm) muduo_loop_scheme)
    \<Rightarrow> (epoll_wait \<times> int) list \<Rightarrow> ('k, 'c, 'm) muduo_loop_scheme
    \<Rightarrow> fault + ('k, 'c, 'm) muduo_loop_scheme loop_end" where
  "loop handle run answers l = loop_from handle run answers (l\<lparr>looping := True, quit_flag := False\<rparr>)"

section \<open>What one thread sees\<close>

text \<open>A new loop's wakeup channel wants to read, but the kernel is never told of it.\<close>

theorem wakeup_fd_not_watched:
  "EventLoop 7 False False on_wakeup = Inr l \<Longrightarrow>
   isReading (wakeup_channel l) \<and> map_option (\<lambda>p. kernel_list p (wakeup_fd l)) (loop_poller l) = Some None"
  by (auto simp: EventLoop_def newDefaultPoller_def EPollPoller_def isReading_def enableReading_def
      channel_update_def MChannel_def KReadEvent_def epoll_bits channel_callbacks)

text \<open>A quit called before loop() is forgotten: loop() clears the flag first and goes on to poll.\<close>

theorem early_quit_forgotten:
  "\<exists>l'. loop handle run [] (quit in_thread l) = Inr (Waiting l') \<and> \<not> quit_flag l' \<and> looping l'"
  by (simp add: loop_def loop_from.simps)

text \<open>Functors queued while functors run wait for the next round, and the loop is told to wake up for it.\<close>

lemma queueInLoop_pending:
  "pendingFunctors (queueInLoop in_thread cb l) = pendingFunctors l @ [cb]"
  by (simp add: queueInLoop_def emplace_def wakeup_def Let_def)

lemma doPendingFunctors_queueing:
  fixes l :: "('k, 'c, 'm) muduo_loop_scheme"
  assumes "\<And>k (l :: ('k, 'c, 'm) muduo_loop_scheme). callingPendingFunctors l \<Longrightarrow>
      \<exists>l'. run k l = Inr l' \<and> callingPendingFunctors l' \<and> pendingFunctors l' = pendingFunctors l @ later k"
  shows "\<exists>l'. doPendingFunctors run l = Inr l' \<and> \<not> callingPendingFunctors l'
    \<and> pendingFunctors l' = concat (map later (pendingFunctors l))"
proof -
  have "callingPendingFunctors m \<Longrightarrow> \<exists>l'. run_tasks run ks m = Inr l' \<and> callingPendingFunctors l'
      \<and> pendingFunctors l' = pendingFunctors m @ concat (map later ks)"
    for ks and m :: "('k, 'c, 'm) muduo_loop_scheme"
  proof (induction ks arbitrary: m)
    case (Cons k ks)
    from assms[OF Cons.prems, of k] obtain m' where
      m': "run k m = Inr m'" "callingPendingFunctors m'" "pendingFunctors m' = pendingFunctors m @ later k" by blast
    from Cons.IH[OF m'(2)] m' show ?case by auto
  qed simp
  from this[of "l\<lparr>callingPendingFunctors := True, pendingFunctors := []\<rparr>" "pendingFunctors l"]
  show ?thesis by (auto simp: doPendingFunctors_def Let_def)
qed

section \<open>The loop among other threads\<close>

text \<open>
  Where the thread of the loop stands: before loop(), about to test quit_, past the test and about
  to call poll, in poll, handling the ready channels, about to swap the functors out, running the
  swapped ones, or returned.
\<close>

datatype 'k loop_pc = Not_started | Testing | Entering | In_poll | In_handlers | Taking | Calling "'k list" | Ended

text \<open>
  A functor is queued with the time of its queueing.  \<open>owed\<close> is the number of other threads that
  have still to write the eventfd; \<open>clock\<close> is the time in milliseconds and \<open>poll_start\<close> the time
  the loop last entered poll; \<open>polls\<close>, \<open>queued\<close> and \<open>called\<close> record what has happened so far (a
  functor called with its queueing time and the time of the call).
\<close>

record ('k, 'c) loop_world = "('k \<times> nat, 'c) muduo_loop" +
  pc :: "('k \<times> nat) loop_pc"
  owed :: nat
  clock :: nat
  poll_start :: nat
  polls :: nat
  queued :: "('k \<times> nat) list"
  called :: "('k \<times> nat \<times> nat) list"

definition queue_now :: "'k \<Rightarrow> ('k, 'c) loop_world \<Rightarrow> ('k, 'c) loop_world" where
  "queue_now k s = (emplace (k, clock s) s)\<lparr>queued := queued s @ [(k, clock s)]\<rparr>"

text \<open>
  The steps of the loop's thread.  The test of quit_ and the call of poll after it are two steps, so
  another thread's quit can come between them.  poll returns when a descriptor is ready, at any time, or after
  kPollTimeMs; only waiting in poll takes time.
\<close>

inductive loop_thread :: "('k, 'c) loop_world \<Rightarrow> ('k, 'c) loop_world \<Rightarrow> bool" where
  begin_loop: "pc s = Not_started \<Longrightarrow> loop_thread s (s\<lparr>looping := True, quit_flag := False, pc := Testing\<rparr>)"
| leave_loop: "pc s = Testing \<Longrightarrow> quit_flag s \<Longrightarrow> loop_thread s (s\<lparr>looping := False, pc := Ended\<rparr>)"
| pass_test: "pc s = Testing \<Longrightarrow> \<not> quit_flag s \<Longrightarrow> loop_thread s (s\<lparr>pc := Entering\<rparr>)"
| enter_poll: "pc s = Entering \<Longrightarrow>
     loop_thread s (s\<lparr>pc := In_poll, poll_start := clock s, polls := Suc (polls s)\<rparr>)"
| wait_poll: "pc s = In_poll \<Longrightarrow> clock s < poll_start s + kPollTimeMs \<Longrightarrow> loop_thread s (s\<lparr>clock := Suc (clock s)\<rparr>)"
| poll_returns: "pc s = In_poll \<Longrightarrow> loop_thread s (s\<lparr>pc := In_handlers\<rparr>)"
| start_functors: "pc s = In_handlers \<Longrightarrow> loop_thread s (s\<lparr>callingPendingFunctors := True, pc := Taking\<rparr>)"
| swap_functors: "pc s = Taking \<Longrightarrow>
     loop_thread s (s\<lparr>pendingFunctors := [], pc := Calling (pendingFunctors s)\<rparr>)"
| call_functor: "pc s = Calling ((k, t) # ks) \<Longrightarrow>
     loop_thread s (s\<lparr>pc := Calling ks, called := called s @ [(k, t, clock s)]\<rparr>)"
| end_functors: "pc s = Calling [] \<Longrightarrow> loop_thread s (s\<lparr>callingPendingFunctors := False, pc := Testing\<rparr>)"

text \<open>
  What handlers, functors and other threads do meanwhile: queueInLoop and quit.  Inside the loop's
  thread they run only while it handles events or calls functors; in another thread the write to
  the eventfd is a step of its own.
\<close>

inductive world_step :: "('k, 'c) loop_world \<Rightarrow> ('k, 'c) loop_world \<Rightarrow> bool" where
  inside_queue: "pc s = In_handlers \<or> (\<exists>ks. pc s = Calling ks) \<Longrightarrow>
     world_step s (if callingPendingFunctors s then wakeup (queue_now k s) else queue_now k s)"
| inside_quit: "pc s = In_handlers \<or> (\<exists>ks. pc s = Calling ks) \<Longrightarrow> world_step s (quit True s)"
| inside_wakeup_read: "pc s = In_handlers \<Longrightarrow> world_step s (loop_handleRead s)"
| outside_queue: "world_step s ((queue_now k s)\<lparr>owed := Suc (owed s)\<rparr>)"
| outside_quit: "world_step s (s\<lparr>quit_flag := True, owed := Suc (owed s)\<rparr>)"
| outside_wakeup: "owed s = Suc n \<Longrightarrow> world_step s ((wakeup s)\<lparr>owed := n\<rparr>)"

definition any_step :: "('k, 'c) loop_world \<Rightarrow> ('k, 'c) loop_world \<Rightarrow> bool" where
  "any_step s t \<longleftrightarrow> loop_thread s t \<or> world_step s t"

definition world_init :: "('k, 'c) loop_world \<Rightarrow> bool" where
  "world_init s \<longleftrightarrow> \<not> quit_flag s \<and> pendingFunctors s = [] \<and> pc s = Not_started \<and> owed s = 0 \<and> clock s = 0
     \<and> polls s = 0 \<and> queued s = [] \<and> called s = []"

inductive_cases loop_threadE: "loop_thread s t"
inductive_cases world_stepE: "world_step s t"

lemmas world_ops = queue_now_def emplace_def wakeup_def quit_def loop_handleRead_def Let_def

fun calling :: "'k loop_pc \<Rightarrow> 'k list" where
  "calling (Calling ks) = ks"
| "calling _ = []"

text \<open>The loop of a thread that has just been constructed, at time 0.\<close>

definition new_world :: "('k \<times> nat, 'c) muduo_loop \<Rightarrow> ('k, 'c) loop_world" where
  "new_world l = muduo_loop.extend l \<lparr>pc = Not_started, owed = 0, clock = 0, poll_start = 0, polls = 0,
     queued = [], called = []\<rparr>"

lemma new_world_init: "EventLoop efd use_poll has_loop cb = Inr l \<Longrightarrow> world_init (new_world l)"
  by (auto simp: EventLoop_def new_world_def world_init_def muduo_loop.defs split: if_splits)

lemma thread_step: "rtranclp any_step s t \<Longrightarrow> loop_thread t u \<Longrightarrow> rtranclp any_step s u"
  by (erule rtranclp.rtrancl_into_rtrancl) (simp add: any_step_def)

lemma other_step: "rtranclp any_step s t \<Longrightarrow> world_step t u \<Longrightarrow> rtranclp any_step s u"
  by (erule rtranclp.rtrancl_into_rtrancl) (simp add: any_step_def)

lemma thread_run: "rtranclp loop_thread s t \<Longrightarrow> rtranclp any_step s t"
  by (erule rtranclp_mono[THEN predicate2D, rotated]) (auto simp: any_step_def)

section \<open>Invariants of the run\<close>

text \<open>No functor is lost, repeated or reordered.\<close>

definition in_order :: "('k, 'c) loop_world \<Rightarrow> bool" where
  "in_order s \<longleftrightarrow> map (\<lambda>(k, t, u). (k, t)) (called s) @ calling (pc s) @ pendingFunctors s = queued s"

text \<open>
  Functors wait in poll and in the handlers since the start of this poll at the earliest; in the
  rest of the round they have been queued just now; and no functor is called later than the
  timeout of poll after its queueing.
\<close>

definition waits :: "('k, 'c) loop_world \<Rightarrow> bool" where
  "waits s \<longleftrightarrow> (\<forall>(k, t, u) \<in> set (called s). t \<le> u \<and> u \<le> t + kPollTimeMs)
     \<and> (\<forall>(k, t) \<in> set (pendingFunctors s) \<union> set (calling (pc s)). t \<le> clock s \<and> clock s \<le> t + kPollTimeMs)
     \<and> (pc s = In_poll \<longrightarrow> poll_start s \<le> clock s \<and> clock s \<le> poll_start s + kPollTimeMs
          \<and> (\<forall>(k, t) \<in> set (pendingFunctors s). poll_start s \<le> t))
     \<and> (pc s = Not_started \<or> pc s = Testing \<or> pc s = Entering \<or> (\<exists>ks. pc s = Calling ks)
          \<longrightarrow> (\<forall>(k, t) \<in> set (pendingFunctors s). t = clock s))"

lemma in_order_step: "any_step s t \<Longrightarrow> in_order s \<Longrightarrow> in_order t"
  unfolding any_step_def
  by (elim disjE loop_threadE world_stepE) (auto simp: in_order_def world_ops)

lemma waits_step: "any_step s t \<Longrightarrow> waits s \<Longrightarrow> waits t"
  unfolding any_step_def
  by (elim disjE loop_threadE world_stepE) (simp_all add: waits_def world_ops, fastforce+)

interpretation order: kept_by any_step in_order
  by (rule kept_by.intro) (rule in_order_step)

interpretation delay: kept_by any_step waits
  by (rule kept_by.intro) (rule waits_step)

lemma in_order_init: "world_init s \<Longrightarrow> in_order s"
  by (simp add: world_init_def in_order_def)

lemma waits_init: "world_init s \<Longrightarrow> waits s"
  by (simp add: world_init_def waits_def)

text \<open>
  The functors queued up to a point of a run have been called once the loop has entered poll twice
  more: the first time they may still be pending, in the round after it they are swapped out.
\<close>

definition caught_up :: "nat \<Rightarrow> nat \<Rightarrow> ('k, 'c) loop_world \<Rightarrow> bool" where
  "caught_up n r s \<longleftrightarrow> length (called s) + length (calling (pc s)) + length (pendingFunctors s) = length (queued s)
     \<and> n \<le> length (queued s) \<and> r \<le> polls s
     \<and> (Suc r < polls s \<longrightarrow> n \<le> length (called s))
     \<and> (Suc r = polls s \<longrightarrow> (case pc s of Calling ks \<Rightarrow> n \<le> length (called s) + length ks
          | Testing \<Rightarrow> n \<le> length (called s) | Entering \<Rightarrow> n \<le> length (called s) | Ended \<Rightarrow> n \<le> length (called s)
          | Not_started \<Rightarrow> n \<le> length (called s) | _ \<Rightarrow> True))"

lemma in_order_length:
  "in_order s \<Longrightarrow> length (called s) + length (calling (pc s)) + length (pendingFunctors s) = length (queued s)"
  unfolding in_order_def by (drule arg_cong[of _ _ length]) simp

lemma caught_up_thread: "loop_thread s t \<Longrightarrow> caught_up n r s \<Longrightarrow> caught_up n r t"
  unfolding caught_up_def by (erule loop_threadE) (simp_all, linarith+)

lemma caught_up_world: "world_step s t \<Longrightarrow> caught_up n r s \<Longrightarrow> caught_up n r t"
  unfolding caught_up_def by (erule world_stepE) (auto simp: world_ops split: loop_pc.splits)

lemma caught_up_step: "any_step s t \<Longrightarrow> caught_up n r s \<Longrightarrow> caught_up n r t"
  unfolding any_step_def using caught_up_thread caught_up_world by blast

interpretation rounds: kept_by any_step "caught_up n r" for n r
  by (rule kept_by.intro) (rule caught_up_step)

text \<open>
  A quit stays until loop() starts, and no poll is entered after it but the one whose test of quit_
  has passed already; so the time goes on for one timeout of poll at most.
\<close>

definition polls_left :: "('k, 'c) loop_world \<Rightarrow> nat" where
  "polls_left s = (if pc s = Entering then 1 else 0)"

definition quitting :: "nat \<Rightarrow> nat \<Rightarrow> nat \<Rightarrow> ('k, 'c) loop_world \<Rightarrow> bool" where
  "quitting r0 r c s \<longleftrightarrow> quit_flag s \<and> pc s \<noteq> Not_started \<and> r0 \<le> polls s \<and> polls s + polls_left s \<le> r
     \<and> clock s \<le> c + kPollTimeMs \<and> (pc s = Entering \<longrightarrow> clock s \<le> c) \<and> (pc s = In_poll \<longrightarrow> poll_start s \<le> c)"

lemma quitting_step: "any_step s t \<Longrightarrow> quitting r0 r c s \<Longrightarrow> quitting r0 r c t"
  unfolding any_step_def quitting_def
  by (elim disjE loop_threadE world_stepE) (auto simp: world_ops polls_left_def)

interpretation quits: kept_by any_step "quitting r0 r c" for r0 r c
  by (rule kept_by.intro) (rule quitting_step)

section \<open>Progress\<close>

lemma thread_then: "loop_thread s t \<Longrightarrow> rtranclp loop_thread t u \<Longrightarrow> rtranclp loop_thread s u"
  by (rule converse_rtranclp_into_rtranclp)

lemma thread_calls: "pc s = Calling ks \<Longrightarrow>
  \<exists>t. rtranclp loop_thread s t \<and> pc t = Testing \<and> quit_flag t = quit_flag s \<and> polls t = polls s"
proof (induction ks arbitrary: s)
  case Nil
  from thread_then[OF loop_thread.end_functors[OF Nil] rtranclp.rtrancl_refl] show ?case by fastforce
next
  case (Cons e ks)
  obtain k t where e: "e = (k, t)" by force
  let ?s = "s\<lparr>pc := Calling ks, called := called s @ [(k, t, clock s)]\<rparr>"
  from Cons.IH[of ?s] obtain u where "rtranclp loop_thread ?s u" "pc u = Testing"
    "quit_flag u = quit_flag s" "polls u = polls s" by auto
  with thread_then[OF loop_thread.call_functor[OF Cons.prems[unfolded e]], of u] show ?case by blast
qed

text \<open>From wherever it stands the loop's thread gets on to the test of quit_ by itself.\<close>

lemma thread_tests:
  assumes "pc s \<noteq> Ended" "pc s \<noteq> Not_started"
  shows "\<exists>t. rtranclp loop_thread s t \<and> pc t = Testing \<and> quit_flag t = quit_flag s \<and> polls t = polls s + polls_left s"
proof -
  let ?goal = "\<lambda>u. \<exists>t. rtranclp loop_thread u t \<and> pc t = Testing \<and> quit_flag t = quit_flag u
     \<and> polls t = polls u + polls_left u"
  have forward: "?goal u" if "loop_thread u v" "?goal v" "quit_flag v = quit_flag u"
      "polls v + polls_left v = polls u + polls_left u" for u v
    using that thread_then by metis
  have calling: "?goal u" if "pc u = Calling ks" for u ks
    using thread_calls[OF that] that by (auto simp: polls_left_def)
  have taking: "?goal u" if "pc u = Taking" for u
    by (rule forward[OF loop_thread.swap_functors[OF that] calling]) (simp_all add: that polls_left_def)
  have handlers: "?goal u" if "pc u = In_handlers" for u
    by (rule forward[OF loop_thread.start_functors[OF that] taking]) (simp_all add: that polls_left_def)
  have poll: "?goal u" if "pc u = In_poll" for u
    by (rule forward[OF loop_thread.poll_returns[OF that] handlers]) (simp_all add: that polls_left_def)
  have entering: "?goal u" if "pc u = Entering" for u
    by (rule forward[OF loop_thread.enter_poll[OF that] poll]) (simp_all add: that polls_left_def)
  have testing: "?goal u" if "pc u = Testing" for u
    using that by (auto simp: polls_left_def)
  from assms show ?thesis
    by (cases "pc s") (rule calling taking handlers poll entering testing; assumption | simp)+
qed

interpretation queue_grows: kept_by any_step "\<lambda>s. \<exists>ks. queued s = ks0 @ ks" for ks0
  by (rule kept_by.intro, unfold any_step_def, elim disjE loop_threadE world_stepE) (auto simp: world_ops)

lemma queued_grows: "rtranclp any_step s t \<Longrightarrow> \<exists>ks. queued t = queued s @ ks"
  by (erule queue_grows.run_keeps) simp

lemma caught_up_start: "in_order s \<Longrightarrow> caught_up (length (queued s)) (polls s) s"
  using in_order_length[of s] by (auto simp: caught_up_def split: loop_pc.splits)

lemma thread_polls:
  assumes "pc s = Testing" "\<not> quit_flag s"
  shows "\<exists>t. rtranclp loop_thread s t \<and> pc t = Testing \<and> \<not> quit_flag t \<and> polls t = Suc (polls s)"
  using thread_tests[of "s\<lparr>pc := Entering\<rparr>"] thread_then[OF loop_thread.pass_test[OF assms]] assms(2)
  by (fastforce simp: polls_left_def)

lemma thread_polls_twice:
  assumes "pc s \<noteq> Ended" "pc s = Not_started \<or> \<not> quit_flag s"
  shows "\<exists>t. rtranclp loop_thread s t \<and> polls t = polls s + 2"
proof -
  have again: "\<exists>t. rtranclp loop_thread u t \<and> polls t = polls u + Suc n \<and> pc t = Testing \<and> \<not> quit_flag t"
    if u: "pc u = Testing" "\<not> quit_flag u" for u :: "('a, 'b) loop_world" and n
  proof (induction n)
    case 0
    from thread_polls[OF u] show ?case by auto
  next
    case (Suc n)
    then obtain v where v: "rtranclp loop_thread u v" "polls v = polls u + Suc n" "pc v = Testing" "\<not> quit_flag v" by blast
    from thread_polls[OF v(3,4)] obtain w where "rtranclp loop_thread v w" "pc w = Testing" "\<not> quit_flag w"
      "polls w = Suc (polls v)" by blast
    with v show ?case by (intro exI[of _ w]) auto
  qed
  show ?thesis
  proof (cases "pc s = Not_started")
    case True
    let ?s = "s\<lparr>looping := True, quit_flag := False, pc := Testing\<rparr>"
    from again[of ?s 1] obtain t where "rtranclp loop_thread ?s t" "polls t = polls s + 2" by auto
    with thread_then[OF loop_thread.begin_loop[OF True]] show ?thesis by blast
  next
    case False
    with assms thread_tests[OF assms(1) False] obtain u where
      u: "rtranclp loop_thread s u" "pc u = Testing" "\<not> quit_flag u" "polls u = polls s + polls_left s" by blast
    from again[OF u(2,3), of "1 - polls_left s"] obtain t where
      "rtranclp loop_thread u t" "polls t = polls u + Suc (1 - polls_left s)" by blast
    with u show ?thesis by (intro exI[of _ t]) (auto simp: polls_left_def split: if_splits)
  qed
qed

section \<open>Properties\<close>

text \<open>
  C36. Every functor runs once, in the order of queueing, and soon: at any point of any interleaving
  of the loop with threads that queue functors, quit it and write its eventfd, the functors called,
  those being called and those pending are, in this order, the functors queued; and each call comes
  at most kPollTimeMs, ten seconds of waiting in poll, after the queueing, even though the eventfd
  never ends the wait.
\<close>

theorem functors_in_order_in_time:
  assumes "world_init s0" and "rtranclp any_step s0 s"
  shows "map (\<lambda>(k, t, u). (k, t)) (called s) @ calling (pc s) @ pendingFunctors s = queued s
     \<and> (\<forall>(k, t, u) \<in> set (called s). t \<le> u \<and> u \<le> t + 10000)"
  using order.run_keeps[OF assms(2) in_order_init[OF assms(1)]]
    delay.run_keeps[OF assms(2) waits_init[OF assms(1)]]
  by (auto simp: in_order_def waits_def kPollTimeMs_def)

theorem functors_in_order_in_time_witness:
  "\<exists>s0 s :: (nat, nat) loop_world. world_init s0 \<and> rtranclp any_step s0 s \<and> called s = [(5, 0, 1)] \<and> queued s = [(5, 0), (6, 1)]
     \<and> pendingFunctors s = [(6, 1)]"
proof -
  obtain l :: "(nat \<times> nat, nat) muduo_loop" where l: "EventLoop 7 False False 0 = Inr l" by (auto simp: EventLoop_def)
  let ?w = "new_world l"
  have w: "world_init ?w" by (rule new_world_init[OF l])
  let ?a = "(queue_now 5 ?w)\<lparr>owed := Suc (owed ?w)\<rparr>"
  have start: "pc ?w = Not_started" "clock ?w = 0" "called ?w = []" "pendingFunctors ?w = []" "queued ?w = []"
    using w by (simp_all add: world_init_def)
  have "rtranclp any_step ?w ?a" by (rule other_step[OF rtranclp.rtrancl_refl world_step.outside_queue])
  then have "rtranclp any_step ?w (?a\<lparr>looping := True, quit_flag := False, pc := Testing\<rparr>)" (is "rtranclp _ _ ?b")
    by (rule thread_step) (rule loop_thread.begin_loop, simp add: world_ops start)
  then have "rtranclp any_step ?w (?b\<lparr>pc := Entering\<rparr>)" (is "rtranclp _ _ ?b2")
    by (rule thread_step) (rule loop_thread.pass_test, simp_all)
  then have "rtranclp any_step ?w (?b2\<lparr>pc := In_poll, poll_start := clock ?b2, polls := Suc (polls ?b2)\<rparr>)" (is "rtranclp _ _ ?c")
    by (rule thread_step) (rule loop_thread.enter_poll, simp)
  then have "rtranclp any_step ?w (?c\<lparr>clock := Suc (clock ?c)\<rparr>)" (is "rtranclp _ _ ?d")
    by (rule thread_step) (rule loop_thread.wait_poll, simp_all add: kPollTimeMs_def)
  then have "rtranclp any_step ?w (?d\<lparr>pc := In_handlers\<rparr>)" (is "rtranclp _ _ ?e")
    by (rule thread_step) (rule loop_thread.poll_returns, simp)
  then have "rtranclp any_step ?w (?e\<lparr>callingPendingFunctors := True, pc := Taking\<rparr>)" (is "rtranclp _ _ ?f")
    by (rule thread_step) (rule loop_thread.start_functors, simp)
  then have "rtranclp any_step ?w (?f\<lparr>pendingFunctors := [], pc := Calling (pendingFunctors ?f)\<rparr>)" (is "rtranclp _ _ ?g")
    by (rule thread_step) (rule loop_thread.swap_functors, simp)
  then have "rtranclp any_step ?w (?g\<lparr>pc := Calling [], called := called ?g @ [(5, 0, clock ?g)]\<rparr>)" (is "rtranclp _ _ ?h")
    by (rule thread_step) (rule loop_thread.call_functor, simp add: world_ops start)
  then have run: "rtranclp any_step ?w ((queue_now 6 ?h)\<lparr>owed := Suc (owed ?h)\<rparr>)" (is "rtranclp _ _ ?i")
    by (rule other_step) (rule world_step.outside_queue)
  have "called ?i = [(5, 0, 1)]" "pc ?i = Calling []" "queued ?i = [(5, 0), (6, 1)]"
    by (simp_all add: world_ops start)
  with functors_in_order_in_time[OF w run] w run show ?thesis by (intro exI[of _ ?w] exI[of _ ?i]) simp
qed

text \<open>
  C35. A queued functor does not wait for more than two rounds: however the steps interleave, once
  the loop has entered poll twice more, every functor that was queued before has been called; and a
  loop that is not told to quit gets there by itself, without any wake-up.
\<close>

theorem functors_called_in_two_rounds:
  assumes "world_init s0" and "rtranclp any_step s0 s"
  shows "(\<forall>t. rtranclp any_step s t \<and> polls s + 2 \<le> polls t
       \<longrightarrow> (\<exists>rest. map (\<lambda>(k, t, u). (k, t)) (called t) = queued s @ rest))
     \<and> (pc s \<noteq> Ended \<and> (pc s = Not_started \<or> \<not> quit_flag s)
       \<longrightarrow> (\<exists>t. rtranclp loop_thread s t \<and> polls t = polls s + 2))"
proof (intro conjI allI impI)
  fix t assume t: "rtranclp any_step s t \<and> polls s + 2 \<le> polls t"
  have ord: "in_order s" by (rule order.run_keeps[OF assms(2) in_order_init[OF assms(1)]])
  have ord': "in_order t" by (rule order.run_keeps[OF conjunct1[OF t] ord])
  have "caught_up (length (queued s)) (polls s) t"
    by (rule rounds.run_keeps[OF conjunct1[OF t] caught_up_start[OF ord]])
  with t have "length (queued s) \<le> length (called t)" by (simp add: caught_up_def)
  moreover obtain ks where "queued t = queued s @ ks" using queued_grows t by blast
  moreover have "take (length (queued s)) (map (\<lambda>(k, t, u). (k, t)) (called t) @ calling (pc t) @ pendingFunctors t)
      = take (length (queued s)) (queued t)"
    using ord' by (simp only: in_order_def)
  ultimately have "take (length (queued s)) (map (\<lambda>(k, t, u). (k, t)) (called t)) = queued s" by simp
  then show "\<exists>rest. map (\<lambda>(k, t, u). (k, t)) (called t) = queued s @ rest" by (metis append_take_drop_id)
qed (use thread_polls_twice in blast)

theorem functors_called_in_two_rounds_witness:
  "\<exists>(s0 :: (nat, nat) loop_world) s t. world_init s0 \<and> rtranclp any_step s0 s \<and> queued s = [(5, 0)] \<and> pc s = Not_started
     \<and> rtranclp loop_thread s t \<and> (\<exists>rest. map (\<lambda>(k, t, u). (k, t)) (called t) = [(5, 0)] @ rest)"
proof -
  obtain l :: "(nat \<times> nat, nat) muduo_loop" where l: "EventLoop 7 False False 0 = Inr l" by (auto simp: EventLoop_def)
  let ?w = "new_world l"
  let ?a = "(queue_now 5 ?w)\<lparr>owed := Suc (owed ?w)\<rparr>"
  have w: "world_init ?w" by (rule new_world_init[OF l])
  then have a: "queued ?a = [(5, 0)]" "pc ?a = Not_started" by (simp_all add: world_init_def world_ops)
  have run: "rtranclp any_step ?w ?a" by (rule other_step[OF rtranclp.rtrancl_refl world_step.outside_queue])
  note two = functors_called_in_two_rounds[OF w run]
  then obtain t where t: "rtranclp loop_thread ?a t" "polls t = polls ?a + 2" using a by auto
  have "rtranclp any_step ?a t \<and> polls ?a + 2 \<le> polls t" using t thread_run by simp
  with conjunct1[OF two] a have "\<exists>rest. map (\<lambda>(k, t, u). (k, t)) (called t) = [(5, 0)] @ rest" by metis
  with w run a t show ?thesis by blast
qed

text \<open>
  C37. quit ends a running loop: once loop() has begun, a quit from any thread is never taken back,
  whatever else happens; the loop enters poll at most once more, and only when it had tested quit_
  before the quit and not yet called poll; no more than one timeout of poll, ten seconds, is spent
  waiting from then on; and the loop returns by its own steps.
\<close>

theorem quit_ends_loop:
  assumes "quit_flag s" and "pc s \<noteq> Not_started" and "pc s \<noteq> Ended"
  shows "(\<forall>t. rtranclp any_step s t \<longrightarrow> quit_flag t \<and> polls s \<le> polls t
       \<and> polls t \<le> polls s + (if pc s = Entering then 1 else 0) \<and> clock t \<le> max (clock s) (poll_start s) + 10000)
     \<and> (\<exists>t. rtranclp loop_thread s t \<and> pc t = Ended \<and> \<not> looping t)"
proof (intro conjI allI impI)
  fix t assume t: "rtranclp any_step s t"
  let ?c = "max (clock s) (poll_start s)"
  have "quitting (polls s) (polls s + polls_left s) ?c s" using assms by (auto simp: quitting_def)
  from quits.run_keeps[OF t this] show "quit_flag t" "polls s \<le> polls t"
    "polls t \<le> polls s + (if pc s = Entering then 1 else 0)" "clock t \<le> ?c + 10000"
    by (auto simp: quitting_def polls_left_def kPollTimeMs_def)
next
  from thread_tests[OF assms(3,2)] assms(1) obtain t where t: "rtranclp loop_thread s t" "pc t = Testing" "quit_flag t" by blast
  let ?t = "t\<lparr>looping := False, pc := Ended\<rparr>"
  have "rtranclp loop_thread s ?t" using t(1) loop_thread.leave_loop[OF t(2,3)] by (rule rtranclp.rtrancl_into_rtrancl)
  then show "\<exists>t. rtranclp loop_thread s t \<and> pc t = Ended \<and> \<not> looping t" by (rule exI[of _ ?t, OF conjI]) simp
qed

theorem quit_ends_loop_witness:
  "\<exists>s t :: (nat, nat) loop_world. pc s = Entering \<and> quit_flag s \<and> rtranclp loop_thread s t \<and> pc t = Ended \<and> polls t \<le> polls s + 1"
proof -
  obtain l :: "(nat \<times> nat, nat) muduo_loop" where l: "EventLoop 7 False False 0 = Inr l" by (auto simp: EventLoop_def)
  let ?s = "(quit False (new_world l))\<lparr>pc := Entering\<rparr>"
  have q: "quit_flag ?s" by (simp add: quit_def wakeup_def Let_def)
  note Q = quit_ends_loop[OF q, simplified]
  then obtain t where t: "rtranclp loop_thread ?s t" "pc t = Ended" by auto
  with Q thread_run[OF t(1)] have "polls t \<le> polls ?s + 1" by auto
  with q t show ?thesis by (intro exI[of _ ?s] exI[of _ t]) simp
qed

end
