(* ===== verification/MuduoThreads.thy ===== *)
theory MuduoThreads
  imports DecimalText LoopPool
begin

text \<open>
  CurrentThread and the classes Thread and EventLoopThreadPool of src/ (Thread.cc, EventLoopThreadPool.cc).  How an
  EventLoopThread hands its loop over is in theory LoopThreads; here a started thread yields the
  address of its loop.
\<close>

section \<open>The cached thread id\<close>

text \<open>\<open>t_cachedTid\<close> of the running thread, 0 before it is first asked for; \<open>gettid\<close> is the system call's answer.\<close>

definition cacheTid :: "int \<Rightarrow> int \<Rightarrow> int" where
  "cacheTid gettid t_cachedTid = gettid"

definition current_tid :: "int \<Rightarrow> int \<Rightarrow> int \<times> int" where
  "current_tid gettid t_cachedTid =
     (let t = (if t_cachedTid = 0 then cacheTid gettid t_cachedTid else t_cachedTid) in (t, t))"

text \<open>Thread ids are positive, so in a thread that started with 0 every call gives its id.\<close>

lemma current_tid_id: "t = 0 \<or> t = gettid \<Longrightarrow> current_tid gettid t = (gettid, gettid)"
  by (auto simp: current_tid_def cacheTid_def)

section \<open>Thread\<close>

text \<open>
  A std::thread is joinable or not; destroying or overwriting a joinable one is std::terminate.
  \<open>thread_handle\<close> is the object behind the shared_ptr, None for null.
\<close>

datatype std_thread = Joinable | Not_joinable

record mthread =
  thread_started :: bool
  thread_joined :: bool
  thread_handle :: "std_thread option"
  thread_tid :: int
  thread_name :: string

text \<open>numCreated_ is an atomic int, which wraps; the default name is \<open>Thread%d\<close>.\<close>

definition setDefaultName :: "u32 \<Rightarrow> mthread \<Rightarrow> mthread \<times> u32" where
  "setDefaultName numCreated t =
     (let num = numCreated + 1 in
      (if thread_name t = [] then t\<lparr>thread_name := ''Thread'' @ to_string (sint num)\<rparr> else t, num))"

definition Thread :: "string \<Rightarrow> u32 \<Rightarrow> mthread \<times> u32" where
  "Thread name numCreated = setDefaultName numCreated
     \<lparr>thread_started = False, thread_joined = False, thread_handle = None, thread_tid = 0, thread_name = name\<rparr>"

definition destroy_std_thread :: "std_thread option \<Rightarrow> fault + unit" where
  "destroy_std_thread h = (if h = Some Joinable then Inl Aborted else Inr ())"

text \<open>start returns once the new thread has stored its id, \<open>tid\<close>.\<close>

definition Thread_start :: "int \<Rightarrow> mthread \<Rightarrow> fault + mthread" where
  "Thread_start tid t = and_then (destroy_std_thread (thread_handle t)) (\<lambda>_.
     Inr (t\<lparr>thread_started := True, thread_handle := Some Joinable, thread_tid := tid\<rparr>))"

definition Thread_join :: "mthread \<Rightarrow> fault + mthread" where
  "Thread_join t =
     (case thread_handle t of None \<Rightarrow> Inl NullDeref
      | Some Not_joinable \<Rightarrow> Inl SystemError
      | Some Joinable \<Rightarrow> Inr (t\<lparr>thread_joined := True, thread_handle := Some Not_joinable\<rparr>))"

definition Thread_destroy :: "mthread \<Rightarrow> fault + unit" where
  "Thread_destroy t =
     (if thread_started t \<and> \<not> thread_joined t then
        (case thread_handle t of None \<Rightarrow> Inl NullDeref
         | Some Not_joinable \<Rightarrow> Inl SystemError
         | Some Joinable \<Rightarrow> Inr ())
      else destroy_std_thread (thread_handle t))"

text \<open>A thread object used as intended: started at most once, joined at most once and after that.\<close>

definition thread_wf :: "mthread \<Rightarrow> bool" where
  "thread_wf t \<longleftrightarrow> thread_handle t = (if \<not> thread_started t then None
       else if thread_joined t then Some Not_joinable else Some Joinable)"

lemma Thread_wf: "thread_wf (fst (Thread name n)) \<and> \<not> thread_started (fst (Thread name n))"
  by (simp add: Thread_def setDefaultName_def thread_wf_def Let_def)

lemma Thread_start_wf:
  "\<not> thread_started t \<Longrightarrow> \<not> thread_joined t \<Longrightarrow> thread_wf t \<Longrightarrow> \<exists>t'. Thread_start tid t = Inr t' \<and> thread_wf t'"
  by (simp add: Thread_start_def thread_wf_def destroy_std_thread_def)

lemma Thread_join_wf:
  "thread_started t \<Longrightarrow> \<not> thread_joined t \<Longrightarrow> thread_wf t \<Longrightarrow> \<exists>t'. Thread_join t = Inr t' \<and> thread_wf t'"
  by (simp add: Thread_join_def thread_wf_def)

text \<open>Its destructor never reaches std::terminate; after a second start it does.\<close>

lemma Thread_destroy_wf: "thread_wf t \<Longrightarrow> Thread_destroy t = Inr ()"
  by (auto simp: Thread_destroy_def thread_wf_def destroy_std_thread_def)

lemma Thread_restart_terminates:
  "thread_handle t = Some Joinable \<Longrightarrow> Thread_start tid t = Inl Aborted"
  by (simp add: Thread_start_def destroy_std_thread_def)

section \<open>EventLoopThread\<close>

text \<open>
  The destructor of an EventLoopThread: \<open>loop\<close> is the published address, if any.  That loop is told to
  quit (second result) and the thread is joined; then the member thread_ is destroyed.
\<close>

definition EventLoopThread_destroy :: "'l option \<Rightarrow> mthread \<Rightarrow> fault + (mthread \<times> 'l option)" where
  "EventLoopThread_destroy loop t =
     (case loop of
        None \<Rightarrow> and_then (Thread_destroy t) (\<lambda>_. Inr (t, None))
      | Some l \<Rightarrow> and_then (Thread_join t) (\<lambda>t. and_then (Thread_destroy t) (\<lambda>_. Inr (t, Some l))))"

lemma EventLoopThread_destroy_wf:
  assumes "thread_wf t" "\<not> thread_joined t" "loop \<noteq> None \<longrightarrow> thread_started t"
  shows "\<exists>t'. EventLoopThread_destroy loop t = Inr (t', loop)"
proof (cases loop)
  case None
  with Thread_destroy_wf[OF assms(1)] show ?thesis by (simp add: EventLoopThread_destroy_def)
next
  case (Some l)
  with Thread_join_wf[of t] assms Thread_destroy_wf show ?thesis by (auto simp: EventLoopThread_destroy_def)
qed

section \<open>EventLoopThreadPool\<close>

record 'l elt_pool =
  ep_baseLoop :: 'l
  ep_name :: string
  ep_started :: bool
  ep_numThreads :: int
  ep_next :: int
  ep_threads :: "string list"
  ep_loops :: "'l list"

definition EventLoopThreadPool :: "'l \<Rightarrow> string \<Rightarrow> 'l elt_pool" where
  "EventLoopThreadPool baseLoop name = \<lparr>ep_baseLoop = baseLoop, ep_name = name, ep_started = False,
     ep_numThreads = 0, ep_next = 0, ep_threads = [], ep_loops = []\<rparr>"

definition setThreadNum :: "int \<Rightarrow> 'l elt_pool \<Rightarrow> 'l elt_pool" where
  "setThreadNum n p = p\<lparr>ep_numThreads := n\<rparr>"

text \<open>
  \<open>startLoop i\<close> is the loop the i-th new thread returned; the buffer for a thread's name is long
  enough for every int.  The second result are the loops the init callback, if set, is called with.
\<close>

definition pool_start :: "(nat \<Rightarrow> 'l) \<Rightarrow> bool \<Rightarrow> 'l elt_pool \<Rightarrow> 'l elt_pool \<times> 'l list" where
  "pool_start startLoop cb p =
     (let is = [0..<nat (ep_numThreads p)] in
      (p\<lparr>ep_started := True,
         ep_threads := ep_threads p @ map (\<lambda>i. ep_name p @ to_string (int i)) is,
         ep_loops := ep_loops p @ map startLoop is\<rparr>,
       (if cb then map startLoop is else []) @ (if ep_numThreads p = 0 \<and> cb then [ep_baseLoop p] else [])))"

definition getNextLoop :: "'l elt_pool \<Rightarrow> fault + ('l \<times> 'l elt_pool)" where
  "getNextLoop p =
     (if ep_loops p \<noteq> [] then
        if 0 \<le> ep_next p \<and> ep_next p < int (length (ep_loops p)) then
          let loop = ep_loops p ! nat (ep_next p); n = ep_next p + 1 in
          Inr (loop, p\<lparr>ep_next := (if n \<ge> int (length (ep_loops p)) then 0 else n)\<rparr>)
        else Inl OutOfBounds
      else Inr (ep_baseLoop p, p))"

definition getAllLoops :: "'l elt_pool \<Rightarrow> 'l list" where
  "getAllLoops p = (if ep_loops p = [] then [ep_baseLoop p] else ep_loops p)"

text \<open>A pool without threads hands out the base loop, so its ring is the base loop alone.\<close>

definition elt_pool_wf :: "'l elt_pool \<Rightarrow> bool" where
  "elt_pool_wf p \<longleftrightarrow> 0 \<le> ep_next p \<and> ep_next p < int (length (getAllLoops p))"

interpretation muduo_pool: round_robin getNextLoop elt_pool_wf getAllLoops "\<lambda>p. nat (ep_next p)"
proof
  fix p :: "'a elt_pool"
  assume wf: "elt_pool_wf p"
  then show "nat (ep_next p) < length (getAllLoops p)" by (simp add: elt_pool_wf_def nat_less_iff)
  show "\<exists>p'. getNextLoop p = Inr (getAllLoops p ! nat (ep_next p), p') \<and> elt_pool_wf p' \<and> getAllLoops p' = getAllLoops p
      \<and> nat (ep_next p') = Suc (nat (ep_next p)) mod length (getAllLoops p)"
  proof (cases "ep_loops p = []")
    case True
    with wf show ?thesis by (auto simp: getNextLoop_def elt_pool_wf_def getAllLoops_def)
  next
    case False
    let ?n = "ep_next p + 1"
    have turn: "nat (if ?n \<ge> int (length (ep_loops p)) then 0 else ?n) = Suc (nat (ep_next p)) mod length (ep_loops p)"
    proof (cases "?n \<ge> int (length (ep_loops p))")
      case True
      then have "Suc (nat (ep_next p)) = length (ep_loops p)" using wf False unfolding elt_pool_wf_def getAllLoops_def by simp linarith
      with True show ?thesis by simp
    next
      case small: False
      then have "Suc (nat (ep_next p)) < length (ep_loops p)" using wf False by (simp add: elt_pool_wf_def getAllLoops_def)
      with small wf show ?thesis by (simp add: elt_pool_wf_def nat_add_distrib)
    qed
    with wf False show ?thesis by (auto simp: getNextLoop_def elt_pool_wf_def getAllLoops_def Let_def)
  qed
qed

section \<open>Properties\<close>

text \<open>
  Both pools hand their loops out in turn, one loop apart: with n > 0 threads whose loops are
  \<open>started 0, ..., started (n - 1)\<close>, k calls of EventLoopThreadPool::getNextLoop return the loops
  0, 1, 2, ... counted modulo n, k calls of LoopThreadPool::NextLoop the loops 1, 2, 3, ...; no call
  reads outside the vector, any n calls in a row give every loop once, and the accepting thread's
  own loop is never used.
\<close>

theorem pools_hand_out_in_turn:
  assumes "0 < n"
  shows "(\<exists>p. next_loops getNextLoop k (fst (pool_start started cb (setThreadNum (int n) (EventLoopThreadPool base name))))
       = Inr (map (\<lambda>j. started (j mod n)) [0..<k], p))
     \<and> (\<exists>q. next_loops NextLoop k (Pool_Create started (SetThreadCount (int n) (LoopThreadPool_new base)))
       = Inr (map (\<lambda>j. started ((j + 1) mod n)) [0..<k], q))"
proof
  let ?p = "fst (pool_start started cb (setThreadNum (int n) (EventLoopThreadPool base name)))"
  have p: "getAllLoops ?p = map started [0..<n]" "ep_next ?p = 0" "elt_pool_wf ?p"
    using assms by (simp_all add: pool_start_def setThreadNum_def EventLoopThreadPool_def getAllLoops_def elt_pool_wf_def Let_def)
  from muduo_pool.in_turn[OF p(3), of k] assms
  show "\<exists>p. next_loops getNextLoop k ?p = Inr (map (\<lambda>j. started (j mod n)) [0..<k], p)" by (auto simp: p)
  let ?q = "Pool_Create started (SetThreadCount (int n) (LoopThreadPool_new base))"
  have q: "loops ?q = map started [0..<n]" "pool_pos ?q = 1 mod n"
    using assms by (simp_all add: Pool_Create_def SetThreadCount_def LoopThreadPool_new_def pool_pos_def)
  have "map started [0..<n] ! ((1 mod n + j) mod n) = started ((j + 1) mod n)" for j
    using assms by (simp add: mod_simps add.commute)
  with pool_turns.in_turn[OF pool_wf_Create[of "int n" started base], of k] assms q
  show "\<exists>q. next_loops NextLoop k ?q = Inr (map (\<lambda>j. started ((j + 1) mod n)) [0..<k], q)" by auto
qed

theorem pools_hand_out_in_turn_witness:
  "(\<exists>p. next_loops getNextLoop 4 (fst (pool_start (\<lambda>i. i) True (setThreadNum (int 3) (EventLoopThreadPool (99::nat) ''io''))))
      = Inr ([0, 1, 2, 0], p))
   \<and> (\<exists>q. next_loops NextLoop 4 (Pool_Create (\<lambda>i. i) (SetThreadCount (int 3) (LoopThreadPool_new (99::nat))))
      = Inr ([1, 2, 0, 1], q))"
  using pools_hand_out_in_turn[of 3 4 "\<lambda>i. i" True "99::nat" "''io''"] by (simp add: upt_rec numeral_2_eq_2 del: next_loops.simps)

text \<open>Without threads, or with a negative number of them, the base loop does all the work.\<close>

lemma pool_without_threads:
  assumes "n \<le> 0"
  shows "\<exists>p. next_loops getNextLoop k (fst (pool_start started cb (setThreadNum n (EventLoopThreadPool base name))))
      = Inr (replicate k base, p)"
proof -
  let ?p = "fst (pool_start started cb (setThreadNum n (EventLoopThreadPool base name)))"
  have p: "getAllLoops ?p = [base]" "ep_next ?p = 0" "elt_pool_wf ?p"
    using assms by (simp_all add: pool_start_def setThreadNum_def EventLoopThreadPool_def getAllLoops_def elt_pool_wf_def Let_def)
  from muduo_pool.in_turn[OF p(3), of k] show ?thesis by (auto simp: p map_replicate_const)
qed

end
