(* ===== verification/MuduoServer.thy ===== *)
theory MuduoServer
  imports MuduoPoller MuduoThreads
begin

text \<open>
  The classes InetAddress, Socket, Acceptor and TcpServer of src/.  TcpServer.h includes the headers
  TcpConnection.h and Callbacks.h, which the repository does not have: connections are a type \<open>'c\<close>
  here, with the constructor and the two getters the server uses as parameters.  The kernel is a
  parameter too: what each system call returns.
\<close>

section \<open>InetAddress\<close>

record inet_address =
  sin_family :: int
  sin_port :: "16 word"
  s_addr :: u32

definition AF_INET :: int where
  "AF_INET = 2"

text \<open>Host order is little-endian: htons and ntohs swap the two bytes.\<close>

definition htons :: "16 word \<Rightarrow> 16 word" where
  "htons x = push_bit 8 x OR drop_bit 8 x"

definition InetAddress :: "(string \<Rightarrow> u32) \<Rightarrow> 16 word \<Rightarrow> string \<Rightarrow> inet_address" where
  "InetAddress inet_addr port ip = \<lparr>sin_family = AF_INET, sin_port = htons port, s_addr = inet_addr ip\<rparr>"

definition toIP :: "(u32 \<Rightarrow> string) \<Rightarrow> inet_address \<Rightarrow> string" where
  "toIP inet_ntop a = inet_ntop (s_addr a)"

definition toPort :: "inet_address \<Rightarrow> 16 word" where
  "toPort a = htons (sin_port a)"

definition toIPPort :: "(u32 \<Rightarrow> string) \<Rightarrow> inet_address \<Rightarrow> string" where
  "toIPPort inet_ntop a = inet_ntop (s_addr a) @ '':'' @ decimal (unat (htons (sin_port a)))"

lemma htons_htons: "htons (htons x) = x"
  by (rule bit_word_eqI) (auto simp: htons_def bit_simps)

lemma toPort_InetAddress: "toPort (InetAddress inet_addr port ip) = port"
  by (simp add: toPort_def InetAddress_def htons_htons)

section \<open>Socket\<close>

datatype mcall =
    M_socket
  | M_bind int inet_address
  | M_listen int int
  | M_accept4 int
  | M_shutdown int
  | M_setsockopt int string bool
  | M_close int

type_synonym mkernel = "mcall \<Rightarrow> int"

text \<open>Each operation returns the calls it made; a failed bind or listen is LOG_FATAL, which exits.\<close>

definition bindAddress :: "mkernel \<Rightarrow> inet_address \<Rightarrow> int \<Rightarrow> fault + mcall list" where
  "bindAddress sys addr fd = (if sys (M_bind fd addr) \<noteq> 0 then Inl Aborted else Inr [M_bind fd addr])"

definition socket_listen :: "mkernel \<Rightarrow> int \<Rightarrow> fault + mcall list" where
  "socket_listen sys fd = (if sys (M_listen fd 1024) \<noteq> 0 then Inl Aborted else Inr [M_listen fd 1024])"

text \<open>accept fills in the peer address only when it succeeds.\<close>

definition socket_accept :: "mkernel \<Rightarrow> inet_address \<Rightarrow> inet_address \<Rightarrow> int \<Rightarrow> int \<times> inet_address \<times> mcall list" where
  "socket_accept sys from peer fd =
     (let connfd = sys (M_accept4 fd) in (connfd, if connfd \<ge> 0 then from else peer, [M_accept4 fd]))"

definition shutdownWrite :: "int \<Rightarrow> mcall list" where
  "shutdownWrite fd = [M_shutdown fd]"

definition setTcpNoDelay :: "bool \<Rightarrow> int \<Rightarrow> mcall list" where
  "setTcpNoDelay on fd = [M_setsockopt fd ''TCP_NODELAY'' on]"

definition setReuseAddr :: "bool \<Rightarrow> int \<Rightarrow> mcall list" where
  "setReuseAddr on fd = [M_setsockopt fd ''SO_REUSEADDR'' on]"

definition setReusePort :: "bool \<Rightarrow> int \<Rightarrow> mcall list" where
  "setReusePort on fd = [M_setsockopt fd ''SO_REUSEPORT'' on]"

definition setKeepAlive :: "bool \<Rightarrow> int \<Rightarrow> mcall list" where
  "setKeepAlive on fd = [M_setsockopt fd ''SO_KEEPALIVE'' on]"

definition socket_destroy :: "int \<Rightarrow> mcall list" where
  "socket_destroy fd = [M_close fd]"

section \<open>Acceptor\<close>

text \<open>\<open>newConnectionCallback\<close> is whether the callback is set.\<close>

record macceptor =
  acceptSocket :: int
  acceptChannel :: "string mchannel"
  listenning :: bool
  newConnectionCallback :: bool

definition createNonblocking :: "mkernel \<Rightarrow> fault + (int \<times> mcall list)" where
  "createNonblocking sys = (let sockfd = sys M_socket in if sockfd < 0 then Inl Aborted else Inr (sockfd, [M_socket]))"

definition Acceptor :: "mkernel \<Rightarrow> inet_address \<Rightarrow> bool \<Rightarrow> fault + (macceptor \<times> mcall list)" where
  "Acceptor sys listenAddr reuseport =
     and_then (createNonblocking sys) (\<lambda>(fd, c1).
     and_then (bindAddress sys listenAddr fd) (\<lambda>c2.
     Inr (\<lparr>acceptSocket = fd, acceptChannel = setReadCallback ''handleRead'' (MChannel fd), listenning = False,
            newConnectionCallback = False\<rparr>,
          c1 @ setReuseAddr True fd @ setReusePort True fd @ c2)))"

definition setNewConnectionCallback :: "macceptor \<Rightarrow> macceptor" where
  "setNewConnectionCallback a = a\<lparr>newConnectionCallback := True\<rparr>"

definition acceptor_listen :: "mkernel \<Rightarrow> macceptor \<Rightarrow> fault + (macceptor \<times> mcall list)" where
  "acceptor_listen sys a =
     and_then (socket_listen sys (acceptSocket a)) (\<lambda>c.
     Inr (a\<lparr>listenning := True, acceptChannel := enableReading (acceptChannel a)\<rparr>, c))"

text \<open>
  handleRead accepts one connection: it is handed to the callback (first result), closed when there
  is none, and a failed accept is only logged.  \<open>from\<close> is the peer's address as accept4 reports it.
\<close>

definition acceptor_handleRead :: "mkernel \<Rightarrow> inet_address \<Rightarrow> inet_address \<Rightarrow> macceptor \<Rightarrow> (int \<times> inet_address) option \<times> mcall list" where
  "acceptor_handleRead sys from unset a =
     (case socket_accept sys from unset (acceptSocket a) of (connfd, peer, c) \<Rightarrow>
      if connfd \<ge> 0 then
        if newConnectionCallback a then (Some (connfd, peer), c) else (None, c @ [M_close connfd])
      else (None, c))"

definition acceptor_destroy :: "macceptor \<Rightarrow> macceptor \<times> mcall list" where
  "acceptor_destroy a = (a\<lparr>acceptChannel := channel_remove (disableAllEvents (acceptChannel a))\<rparr>, socket_destroy (acceptSocket a))"

section \<open>TcpServer\<close>

text \<open>What the server asks a loop to run, by runInLoop or queueInLoop, in the order of the requests.\<close>

datatype 'c loop_task = Listen_task | Remove_task 'c | Established_task 'c | Destroyed_task 'c

record ('l, 'c) muduo_server =
  ts_loop :: 'l
  ts_ipPort :: string
  ts_name :: string
  ts_acceptor :: macceptor
  ts_pool :: "'l elt_pool"
  ts_started :: int
  nextConnId :: int
  ts_connections :: "string \<Rightarrow> 'c option"
  ts_requests :: "('l \<times> 'c loop_task) list"

text \<open>The constructor; \<open>reuse\<close> is whether the option is kReusePort.  A null loop is LOG_FATAL.\<close>

definition CheckLoopNotNull :: "'l option \<Rightarrow> fault + 'l" where
  "CheckLoopNotNull loop = (case loop of None \<Rightarrow> Inl Aborted | Some l \<Rightarrow> Inr l)"

definition TcpServer :: "mkernel \<Rightarrow> (u32 \<Rightarrow> string) \<Rightarrow> 'l option \<Rightarrow> inet_address \<Rightarrow> string \<Rightarrow> bool
    \<Rightarrow> fault + (('l, 'c) muduo_server \<times> mcall list)" where
  "TcpServer sys inet_ntop loop listenAddr name reuse =
     and_then (CheckLoopNotNull loop) (\<lambda>l.
     and_then (Acceptor sys listenAddr reuse) (\<lambda>(a, calls).
     Inr (\<lparr>ts_loop = l, ts_ipPort = toIPPort inet_ntop listenAddr, ts_name = name,
            ts_acceptor = setNewConnectionCallback a, ts_pool = EventLoopThreadPool l name,
            ts_started = 0, nextConnId = 1, ts_connections = (\<lambda>_. None), ts_requests = []\<rparr>, calls)))"

definition server_setThreadNum :: "int \<Rightarrow> ('l, 'c) muduo_server \<Rightarrow> ('l, 'c) muduo_server" where
  "server_setThreadNum n s = s\<lparr>ts_pool := setThreadNum n (ts_pool s)\<rparr>"

definition in_loop :: "'l \<Rightarrow> 'c loop_task \<Rightarrow> ('l, 'c) muduo_server \<Rightarrow> ('l, 'c) muduo_server" where
  "in_loop l k s = s\<lparr>ts_requests := ts_requests s @ [(l, k)]\<rparr>"

definition server_start :: "(nat \<Rightarrow> 'l) \<Rightarrow> bool \<Rightarrow> ('l, 'c) muduo_server \<Rightarrow> ('l, 'c) muduo_server" where
  "server_start startLoop cb s =
     (let first = (ts_started s = 0); s = s\<lparr>ts_started := ts_started s + 1\<rparr> in
      if first then in_loop (ts_loop s) Listen_task (s\<lparr>ts_pool := fst (pool_start startLoop cb (ts_pool s))\<rparr>) else s)"

text \<open>\<open>snprintf(buf, 64, "-%s#%d", ...)\<close> keeps at most 63 characters.\<close>

definition conn_suffix :: "string \<Rightarrow> int \<Rightarrow> string" where
  "conn_suffix ipPort n = take 63 (''-'' @ ipPort @ ''#'' @ to_string n)"

text \<open>
  newConnection: \<open>new_conn\<close> is the constructor of TcpConnection, \<open>local\<close> what getsockname filled in.
  The id is an int, whose increment is undefined at its largest value.
\<close>

definition newConnection :: "('l \<Rightarrow> string \<Rightarrow> int \<Rightarrow> inet_address \<Rightarrow> inet_address \<Rightarrow> 'c) \<Rightarrow> inet_address
    \<Rightarrow> int \<Rightarrow> inet_address \<Rightarrow> ('l, 'c) muduo_server \<Rightarrow> fault + ('c \<times> ('l, 'c) muduo_server)" where
  "newConnection new_conn local sockfd peer s =
     and_then (getNextLoop (ts_pool s)) (\<lambda>(ioLoop, pool).
     if nextConnId s \<ge> 2 ^ 31 - 1 then Inl SignedOverflow
     else
       let connName = ts_name s @ conn_suffix (ts_ipPort s) (nextConnId s);
           conn = new_conn ioLoop connName sockfd local peer in
       Inr (conn, in_loop ioLoop (Established_task conn)
         (s\<lparr>ts_pool := pool, nextConnId := nextConnId s + 1, ts_connections := (ts_connections s)(connName \<mapsto> conn)\<rparr>)))"

definition removeConnection :: "'c \<Rightarrow> ('l, 'c) muduo_server \<Rightarrow> ('l, 'c) muduo_server" where
  "removeConnection conn s = in_loop (ts_loop s) (Remove_task conn) s"

definition removeConnectionInLoop :: "('c \<Rightarrow> string) \<Rightarrow> ('c \<Rightarrow> 'l) \<Rightarrow> 'c \<Rightarrow> ('l, 'c) muduo_server \<Rightarrow> ('l, 'c) muduo_server" where
  "removeConnectionInLoop conn_name conn_loop conn s =
     in_loop (conn_loop conn) (Destroyed_task conn) (s\<lparr>ts_connections := (ts_connections s)(conn_name conn := None)\<rparr>)"

text \<open>The destructor, over the entries in the order the map iterates them (the parameter \<open>entries\<close>).\<close>

definition TcpServer_destroy :: "('c \<Rightarrow> 'l) \<Rightarrow> string list \<Rightarrow> ('l, 'c) muduo_server \<Rightarrow> ('l, 'c) muduo_server" where
  "TcpServer_destroy conn_loop entries s =
     fold (\<lambda>name s. case ts_connections s name of None \<Rightarrow> s
       | Some conn \<Rightarrow> in_loop (conn_loop conn) (Destroyed_task conn) (s\<lparr>ts_connections := (ts_connections s)(name := None)\<rparr>)) entries s"

section \<open>Connection names\<close>

text \<open>
  Names are not cut when the server's address has at most 51 characters (an IPv4 address with a
  port has at most 21), and then ids that differ give names that differ.
\<close>

lemma conn_suffix_whole:
  assumes "length ipPort \<le> 51" "0 \<le> n" "n < 2 ^ 31"
  shows "conn_suffix ipPort n = ''-'' @ ipPort @ ''#'' @ to_string n"
proof -
  have "nat n < 10 ^ Suc 9" using assms by simp
  from length_decimal[OF this] have "length (to_string n) \<le> 10" using assms by (simp add: to_string_def)
  with assms show ?thesis by (simp add: conn_suffix_def)
qed

lemma conn_suffix_inj:
  assumes "length ipPort \<le> 51" "0 \<le> m" "m < 2 ^ 31" "0 \<le> n" "n < 2 ^ 31" "conn_suffix ipPort m = conn_suffix ipPort n"
  shows "m = n"
  using assms by (auto simp: conn_suffix_whole intro: to_string_inj)

section \<open>The table of connections\<close>

text \<open>
  Runs of the server: a descriptor is accepted, or the i-th connection accepted reports its close,
  which goes through removeConnection to removeConnectionInLoop in the server's loop.
\<close>

definition conn_key :: "('l, 'c) muduo_server \<Rightarrow> nat \<Rightarrow> string" where
  "conn_key s i = ts_name s @ conn_suffix (ts_ipPort s) (int i)"

datatype server_op = Accept_conn int inet_address inet_address | Close_conn nat

definition server_step :: "('l \<Rightarrow> string \<Rightarrow> int \<Rightarrow> inet_address \<Rightarrow> inet_address \<Rightarrow> 'c) \<Rightarrow> ('c \<Rightarrow> string) \<Rightarrow> ('c \<Rightarrow> 'l)
    \<Rightarrow> server_op \<Rightarrow> ('l, 'c) muduo_server \<Rightarrow> fault + (('l, 'c) muduo_server \<times> 'c option)" where
  "server_step new_conn cname cloop op s = (case op of
       Accept_conn fd local peer \<Rightarrow> and_then (newConnection new_conn local fd peer s) (\<lambda>(c, s). Inr (s, Some c))
     | Close_conn i \<Rightarrow> (case ts_connections s (conn_key s i) of None \<Rightarrow> Inr (s, None)
         | Some c \<Rightarrow> Inr (removeConnectionInLoop cname cloop c (removeConnection c s), Some c)))"

text \<open>
  The abstract server: the next id, the connections by id, the server's loop, and the requests made.
  A new connection gets the next id and is established on its own loop; a close takes out the one
  connection, asks the server's loop to remove it and the connection's loop to destroy it.
\<close>

type_synonym ('l, 'c) server_view = "nat \<times> (nat \<Rightarrow> 'c option) \<times> 'l \<times> ('l \<times> 'c loop_task) list"

definition server_spec :: "('l \<Rightarrow> string \<Rightarrow> int \<Rightarrow> inet_address \<Rightarrow> inet_address \<Rightarrow> 'c) \<Rightarrow> ('c \<Rightarrow> 'l) \<Rightarrow> server_op
    \<Rightarrow> ('l, 'c) server_view \<Rightarrow> 'c option \<Rightarrow> ('l, 'c) server_view \<Rightarrow> bool" where
  "server_spec new_conn cloop op = (\<lambda>(n, t, base, reqs) out (n', t', base', reqs'). base' = base \<and> (case op of
       Accept_conn fd local peer \<Rightarrow> (\<exists>c l name. out = Some c \<and> c = new_conn l name fd local peer \<and> n' = Suc n
          \<and> t' = t(n \<mapsto> c) \<and> reqs' = reqs @ [(cloop c, Established_task c)])
     | Close_conn i \<Rightarrow> n' = n \<and> out = t i \<and> t' = t(i := None)
          \<and> reqs' = reqs @ (case t i of None \<Rightarrow> [] | Some c \<Rightarrow> [(base, Remove_task c), (cloop c, Destroyed_task c)])))"

definition server_abs :: "('l, 'c) muduo_server \<Rightarrow> ('l, 'c) server_view" where
  "server_abs s = (nat (nextConnId s),
     (\<lambda>i. if int i < nextConnId s then ts_connections s (conn_key s i) else None), ts_loop s, ts_requests s)"

definition server_ok :: "server_op \<Rightarrow> ('l, 'c) server_view \<Rightarrow> bool" where
  "server_ok op = (\<lambda>(n, _). case op of Accept_conn _ _ _ \<Rightarrow> int n < 2 ^ 31 - 1 | Close_conn i \<Rightarrow> i < n)"

definition server_wf :: "('c \<Rightarrow> string) \<Rightarrow> ('l, 'c) muduo_server \<Rightarrow> bool" where
  "server_wf cname s \<longleftrightarrow> 1 \<le> nextConnId s \<and> nextConnId s \<le> 2 ^ 31 - 1 \<and> length (ts_ipPort s) \<le> 51
     \<and> elt_pool_wf (ts_pool s)
     \<and> (\<forall>name c. ts_connections s name = Some c \<longrightarrow> cname c = name \<and> (\<exists>i. int i < nextConnId s \<and> name = conn_key s i))"

lemma conn_key_inj:
  assumes "server_wf cname s" "int i < 2 ^ 31" "int j < 2 ^ 31" "conn_key s i = conn_key s j"
  shows "i = j"
  using conn_suffix_inj[of "ts_ipPort s" "int i" "int j"] assms by (simp add: conn_key_def server_wf_def)

lemma accept_simulates:
  assumes params: "\<And>l name fd a b. cname (new_conn l name fd a b) = name \<and> cloop (new_conn l name fd a b) = l"
    and wf: "server_wf cname s" and room: "nextConnId s < 2 ^ 31 - 1"
  shows "\<exists>c s'. newConnection new_conn local fd peer s = Inr (c, s') \<and> server_wf cname s'
     \<and> server_spec new_conn cloop (Accept_conn fd local peer) (server_abs s) (Some c) (server_abs s')"
proof -
  from wf have pool: "elt_pool_wf (ts_pool s)" and pos: "1 \<le> nextConnId s" by (simp_all add: server_wf_def)
  from muduo_pool.nxt_ok[OF pool] obtain l pool' where
    l: "getNextLoop (ts_pool s) = Inr (l, pool')" "elt_pool_wf pool'" by blast
  let ?n = "nat (nextConnId s)"
  let ?key = "ts_name s @ conn_suffix (ts_ipPort s) (nextConnId s)"
  define c where "c = new_conn l ?key fd local peer"
  define s' where "s' = in_loop l (Established_task c) (s\<lparr>ts_pool := pool', nextConnId := nextConnId s + 1,
      ts_connections := (ts_connections s)(?key \<mapsto> c)\<rparr>)"
  have key: "conn_key s ?n = ?key" "conn_key s' i = conn_key s i" for i
    using pos by (simp_all add: conn_key_def s'_def in_loop_def)
  have run: "newConnection new_conn local fd peer s = Inr (c, s')"
    using l room by (simp add: newConnection_def c_def s'_def Let_def)
  have conns: "ts_connections s' = (ts_connections s)(?key \<mapsto> c)" and next_id: "nextConnId s' = nextConnId s + 1"
    by (simp_all add: s'_def in_loop_def)
  have fresh: "i = ?n" if "int i < nextConnId s + 1" "conn_key s i = ?key" for i
    using conn_key_inj[OF wf, of i ?n] that room pos by (simp add: key)
  have "server_wf cname s'"
    unfolding server_wf_def
  proof (intro conjI allI impI)
    fix name c' assume c': "ts_connections s' name = Some c'"
    show "cname c' = name" using c' wf params by (auto simp: conns c_def server_wf_def split: if_splits)
    have "\<exists>i. int i < nextConnId s + 1 \<and> name = conn_key s i"
    proof (cases "name = ?key")
      case True
      with pos show ?thesis by (intro exI[of _ ?n]) (simp add: key)
    next
      case False
      with c' wf obtain i where "int i < nextConnId s" "name = conn_key s i" by (auto simp: conns server_wf_def)
      then show ?thesis by (intro exI[of _ i]) simp
    qed
    then show "\<exists>i. int i < nextConnId s' \<and> name = conn_key s' i" by (simp add: key next_id)
  qed (use wf room l in \<open>simp_all add: s'_def in_loop_def server_wf_def\<close>)
  moreover have table: "(\<lambda>i. if int i < nextConnId s' then ts_connections s' (conn_key s' i) else None)
      = (\<lambda>i. if int i < nextConnId s then ts_connections s (conn_key s i) else None)(?n \<mapsto> c)"
  proof
    fix i
    show "(if int i < nextConnId s' then ts_connections s' (conn_key s' i) else None)
      = ((\<lambda>i. if int i < nextConnId s then ts_connections s (conn_key s i) else None)(?n \<mapsto> c)) i"
    proof (cases "i = ?n")
      case True
      with pos show ?thesis by (simp add: conns next_id key)
    next
      case False
      with fresh[of i] pos show ?thesis by (auto simp: conns next_id key)
    qed
  qed
  moreover have "ts_requests s' = ts_requests s @ [(cloop c, Established_task c)]" "ts_loop s' = ts_loop s"
    using params by (simp_all add: s'_def in_loop_def c_def)
  ultimately show ?thesis
    using run pos by (auto simp: server_spec_def server_abs_def next_id c_def nat_add_distrib)
qed

lemma close_simulates:
  assumes wf: "server_wf cname s" and i: "int i < nextConnId s"
  shows "\<exists>s' out. server_step new_conn cname cloop (Close_conn i) s = Inr (s', out) \<and> server_wf cname s'
     \<and> server_spec new_conn cloop (Close_conn i) (server_abs s) out (server_abs s')"
proof (cases "ts_connections s (conn_key s i)")
  case None
  with wf i show ?thesis by (auto simp: server_step_def server_spec_def server_abs_def fun_eq_iff)
next
  case (Some c)
  have name: "cname c = conn_key s i" using wf Some by (auto simp: server_wf_def)
  let ?s = "removeConnectionInLoop cname cloop c (removeConnection c s)"
  have parts: "nextConnId ?s = nextConnId s" "ts_loop ?s = ts_loop s" "ts_ipPort ?s = ts_ipPort s"
    "ts_pool ?s = ts_pool s" "conn_key ?s j = conn_key s j"
    "ts_connections ?s = (ts_connections s)(conn_key s i := None)"
    "ts_requests ?s = ts_requests s @ [(ts_loop s, Remove_task c), (cloop c, Destroyed_task c)]" for j
    using name by (simp_all add: removeConnectionInLoop_def removeConnection_def in_loop_def conn_key_def)
  have "server_wf cname ?s" using wf unfolding server_wf_def parts by auto
  moreover have "(\<lambda>j. if int j < nextConnId s then ((ts_connections s)(conn_key s i := None)) (conn_key s j) else None)
      = (\<lambda>j. if int j < nextConnId s then ts_connections s (conn_key s j) else None)(i := None)"
  proof
    fix j
    have "conn_key s j = conn_key s i \<longleftrightarrow> j = i" if "int j < nextConnId s"
      using conn_key_inj[OF wf, of j i] that i wf by (auto simp: server_wf_def)
    then show "(if int j < nextConnId s then ((ts_connections s)(conn_key s i := None)) (conn_key s j) else None)
      = ((\<lambda>j. if int j < nextConnId s then ts_connections s (conn_key s j) else None)(i := None)) j"
      by auto
  qed
  ultimately show ?thesis
    using Some i by (auto simp: server_step_def server_spec_def server_abs_def parts cong: if_cong)
qed

lemma server_step_simulates:
  assumes "\<And>l name fd a b. cname (new_conn l name fd a b) = name \<and> cloop (new_conn l name fd a b) = l"
  shows "op_simulation (server_step new_conn cname cloop) (server_spec new_conn cloop) server_ok (server_wf cname) server_abs"
proof
  fix s :: "('a, 'b) muduo_server" and op
  assume wf: "server_wf cname s" and ok: "server_ok op (server_abs s)"
  show "\<exists>s' out. server_step new_conn cname cloop op s = Inr (s', out) \<and> server_wf cname s'
      \<and> server_spec new_conn cloop op (server_abs s) out (server_abs s')"
  proof (cases op)
    case (Accept_conn fd local peer)
    with ok wf have "nextConnId s < 2 ^ 31 - 1" by (simp add: server_ok_def server_abs_def server_wf_def)
    from accept_simulates[where new_conn = new_conn and cname = cname and cloop = cloop and fd = fd and local = local and peer = peer, OF assms wf this] Accept_conn show ?thesis
      by (fastforce simp: server_step_def)
  next
    case (Close_conn i)
    with ok wf have "int i < nextConnId s" by (simp add: server_ok_def server_abs_def server_wf_def nat_less_iff zless_nat_eq_int_zless)
    from close_simulates[OF wf this] Close_conn show ?thesis by blast
  qed
qed

lemma server_start_wf:
  assumes "length (toIPPort inet_ntop addr) \<le> 51" "TcpServer sys inet_ntop (Some l) addr name reuse = Inr (s, calls)"
  shows "server_wf cname (server_start startLoop cb (server_setThreadNum n s))"
  using assms by (auto simp: TcpServer_def CheckLoopNotNull_def and_then_eq_Inr server_wf_def server_start_def server_setThreadNum_def in_loop_def
      pool_start_def setThreadNum_def EventLoopThreadPool_def elt_pool_wf_def getAllLoops_def Let_def)

section \<open>Properties\<close>

text \<open>
  C39. The server's table is a table by connection id, although it is kept by name.  From any
  well-formed server, in particular a started one whose address has at most 51 characters, any run
  that accepts descriptors (fewer than 2 ^ 31 - 1 connections in all) and closes accepted
  connections ends normally and does what the abstract server does: every connection is in the
  table under a name of its own from its acceptance to its close, is established once on the loop
  it was given, and its close removes it alone and has it destroyed on that loop.  What is assumed of the
  missing class TcpConnection is that its name and loop are those its constructor was given.
\<close>

theorem muduo_server_table:
  assumes "\<forall>l name fd a b. cname (new_conn l name fd a b) = name \<and> cloop (new_conn l name fd a b) = l"
    and "server_wf cname s" and "all_ok (server_spec new_conn cloop) server_ok ops (server_abs s)"
  shows "\<exists>s' outs. run_steps (server_step new_conn cname cloop) ops s = Inr (s', outs) \<and> server_wf cname s'
     \<and> spec_run (server_spec new_conn cloop) ops (server_abs s) outs (server_abs s')"
  using op_simulation.run_simulates[OF server_step_simulates[of cname new_conn cloop], OF _ assms(2,3)] assms(1) by blast

theorem muduo_server_table_witness:
  defines "mk \<equiv> \<lambda>(l :: nat) (name :: string) (fd :: int) (a :: inet_address) (b :: inet_address). (name, l)"
    and "addr \<equiv> InetAddress (\<lambda>_. 0) 80 ''1.2.3.4''"
  shows "\<exists>s s' outs calls. TcpServer (\<lambda>c. case c of M_socket \<Rightarrow> 3 | _ \<Rightarrow> 0) (\<lambda>_. ''1.2.3.4'') (Some 9) addr ''srv'' False = Inr (s, calls)
     \<and> run_steps (server_step mk fst snd) [Accept_conn 7 addr addr, Accept_conn 8 addr addr, Close_conn 1]
         (server_start (\<lambda>i. i) False (server_setThreadNum 2 s)) = Inr (s', outs)
     \<and> spec_run (server_spec mk snd) [Accept_conn 7 addr addr, Accept_conn 8 addr addr, Close_conn 1]
         (1, (\<lambda>_. None), 9, [(9, Listen_task)]) outs (server_abs s')"
proof -
  let ?sys = "\<lambda>c. case c of M_socket \<Rightarrow> 3 | _ \<Rightarrow> (0 :: int)"
  obtain s :: "(nat, string \<times> nat) muduo_server" and calls where
    s: "TcpServer ?sys (\<lambda>_. ''1.2.3.4'') (Some 9) addr ''srv'' False = Inr (s, calls)"
    by (simp add: TcpServer_def CheckLoopNotNull_def Acceptor_def createNonblocking_def bindAddress_def Let_def)
  have "length (decimal (unat (80 :: 16 word))) \<le> 2" using length_decimal[of 80 1] by simp
  then have short: "length (toIPPort (\<lambda>_. ''1.2.3.4'') addr) \<le> 51"
    by (simp add: toIPPort_def addr_def InetAddress_def htons_htons)
  let ?s = "server_start (\<lambda>i. i) False (server_setThreadNum 2 s)"
  let ?ops = "[Accept_conn 7 addr addr, Accept_conn 8 addr addr, Close_conn 1]"
  have abs: "server_abs ?s = (1, (\<lambda>_. None), 9, [(9, Listen_task)])"
    using s by (auto simp: TcpServer_def CheckLoopNotNull_def and_then_eq_Inr server_abs_def server_start_def server_setThreadNum_def in_loop_def Let_def)
  have wf: "server_wf fst ?s" by (rule server_start_wf[OF short s])
  have "all_ok (server_spec mk snd) server_ok ?ops (server_abs ?s)"
    unfolding abs by (auto simp: server_ok_def server_spec_def)
  from muduo_server_table[OF _ wf this] s show ?thesis unfolding abs by (fastforce simp: mk_def)
qed

text \<open>
  The acceptor loses no descriptor: when the kernel has accepted a connection, handleRead either
  hands it to the new-connection callback together with the peer's address, or, with no callback
  set, closes it; after a failed accept it does neither, and nothing else is called.
\<close>

theorem acceptor_keeps_descriptors:
  shows "acceptor_handleRead sys from unset a =
    (let fd = sys (M_accept4 (acceptSocket a)) in
     if fd < 0 then (None, [M_accept4 (acceptSocket a)])
     else if newConnectionCallback a then (Some (fd, from), [M_accept4 (acceptSocket a)])
     else (None, [M_accept4 (acceptSocket a), M_close fd]))"
  by (auto simp: acceptor_handleRead_def socket_accept_def Let_def)

text \<open>
  The Acceptor's constructor does not look at its reuseport argument, and listening does not reach
  the poller: the channel's update has no effect.
\<close>

theorem acceptor_ignores_reuseport: "Acceptor sys addr True = Acceptor sys addr False"
  by (simp add: Acceptor_def)

end
