(* ===== verification/MuduoLog.thy ===== *)
theory MuduoLog
  imports DecimalText
begin

text \<open>
  The classes Logger and Timestamp of src/ and the log macros.  What is printed is a result.
\<close>

section \<open>Logger\<close>

datatype LogLevel = INFO | ERROR | FATAL | DEBUG

record logger =
  logLevel :: LogLevel

definition setLogLevel :: "LogLevel \<Rightarrow> logger \<Rightarrow> logger" where
  "setLogLevel level l = l\<lparr>logLevel := level\<rparr>"

definition Logger_log :: "string \<Rightarrow> logger \<Rightarrow> string" where
  "Logger_log msg l = (case logLevel l of INFO \<Rightarrow> ''[INFO]'' | ERROR \<Rightarrow> ''[ERROR]'' | FATAL \<Rightarrow> ''[FATAL]'' | DEBUG \<Rightarrow> ''[DEBUG]'')"

text \<open>
  LOG_INFO, LOG_ERROR and LOG_FATAL on the formatted message, of which the 1024-byte buffer keeps
  1023 characters; LOG_FATAL then exits.  LOG_DEBUG prints only when MUDEBUG is defined.
\<close>

definition LOG :: "LogLevel \<Rightarrow> string \<Rightarrow> logger \<Rightarrow> logger \<times> string" where
  "LOG level msg l = (let l = setLogLevel level l in (l, Logger_log (take 1023 msg) l))"

definition LOG_FATAL :: "string \<Rightarrow> logger \<Rightarrow> (logger \<times> string) \<times> fault" where
  "LOG_FATAL msg l = (LOG FATAL msg l, Aborted)"

definition LOG_DEBUG :: "bool \<Rightarrow> string \<Rightarrow> logger \<Rightarrow> logger \<times> string" where
  "LOG_DEBUG mudebug msg l = (if mudebug then LOG DEBUG msg l else (l, []))"

text \<open>The message itself is never printed.\<close>

theorem log_drops_message: "snd (LOG level msg l) = snd (LOG level msg' l')"
  by (simp add: LOG_def Logger_log_def setLogLevel_def)

section \<open>Timestamp\<close>

record timestamp =
  microSecondsSinceEpoch :: int

definition Timestamp :: "int \<Rightarrow> timestamp" where
  "Timestamp t = \<lparr>microSecondsSinceEpoch = t\<rparr>"

text \<open>\<open>time\<close> is what time(NULL) answers, in seconds.\<close>

definition Timestamp_now :: "int \<Rightarrow> timestamp" where
  "Timestamp_now time = Timestamp time"

text \<open>The fields of a struct tm the source prints, with \<open>%4d\<close> and \<open>%02d\<close>.\<close>

record tm =
  tm_year :: int
  tm_mon :: int
  tm_mday :: int
  tm_hour :: int
  tm_min :: int
  tm_sec :: int

definition pad :: "char \<Rightarrow> nat \<Rightarrow> string \<Rightarrow> string" where
  "pad c n s = replicate (n - length s) c @ s"

definition Timestamp_toString :: "(int \<Rightarrow> tm) \<Rightarrow> timestamp \<Rightarrow> string" where
  "Timestamp_toString localtime t =
     (let d = localtime (microSecondsSinceEpoch t); two = (\<lambda>n. pad (CHR ''0'') 2 (to_string n)) in
      take 127 (pad (CHR '' '') 4 (to_string (tm_year d + 1900)) @ ''/'' @ two (tm_mon d + 1) @ ''/'' @ two (tm_mday d)
        @ '' '' @ two (tm_hour d) @ '':'' @ two (tm_min d) @ '':'' @ two (tm_sec d)))"

text \<open>A date of the years 1000 to 9999 is printed with 19 characters.\<close>

lemma length_pad: "length s \<le> n \<Longrightarrow> length (pad c n s) = n"
  by (simp add: pad_def)

lemma length_to_string: "0 \<le> n \<Longrightarrow> n < 10 ^ Suc k \<Longrightarrow> length (to_string n) \<le> Suc k"
  using length_decimal[of "nat n" k] by (simp add: to_string_def nat_less_iff)

lemma Timestamp_toString_length:
  assumes "localtime (microSecondsSinceEpoch t) = d"
    and "-900 \<le> tm_year d" "tm_year d < 8100" "0 \<le> tm_mon d" "tm_mon d < 12" "0 \<le> tm_mday d" "tm_mday d < 32"
    and "0 \<le> tm_hour d" "tm_hour d < 24" "0 \<le> tm_min d" "tm_min d < 60" "0 \<le> tm_sec d" "tm_sec d < 62"
  shows "length (Timestamp_toString localtime t) = 19"
proof -
  have two: "length (pad (CHR ''0'') 2 (to_string n)) = 2" if "0 \<le> n" "n < 100" for n
    using length_to_string[of n 1] that by (intro length_pad) simp
  have four: "length (pad (CHR '' '') 4 (to_string (tm_year d + 1900))) = 4"
    using length_to_string[of "tm_year d + 1900" 3] assms by (intro length_pad) simp
  show ?thesis using assms two four by (simp add: Timestamp_toString_def Let_def)
qed

end
