(* ===== verification/EchoService.thy ===== *)
theory EchoService
  imports TcpServerModel
begin

text \<open>
  Two clients of the server library: the echo server of Test/echo/echo.hpp and the server of
  Test/TestSource/server.cc, which answers every message with a greeting.  Both are instances of
  the contracts conn_client and conn_stream.  The callbacks only log when a connection opens or
  closes; the log is not modelled.  \<open>remove\<close> is what the TCP server does on a release.
\<close>

section \<open>The echo server\<close>

datatype app_callback = App_connected | App_message | App_closed | App_removed

type_synonym 'x app_conn = "(app_callback, 'x) connection"

text \<open>
  \<open>ReadableSize\<close> of the source is the buffer's ReadAbleSize.  Shutdown calls the message callback
  again when there is input left, through \<open>call\<close>.
\<close>

definition Echo_OnConnected :: "'x app_conn \<Rightarrow> 'x app_conn" where
  "Echo_OnConnected s = s"

definition Echo_OnClosed :: "'x app_conn \<Rightarrow> 'x app_conn" where
  "Echo_OnClosed s = s"

definition Echo_OnMessage :: "(app_callback \<Rightarrow> 'x app_conn \<Rightarrow> fault + 'x app_conn) \<Rightarrow> 'x app_conn \<Rightarrow> fault + 'x app_conn" where
  "Echo_OnMessage call s =
     and_then (peek_bytes (ReadAbleSize (in_buffer s)) (in_buffer s)) (\<lambda>d.
     and_then (Conn_Send call True d s) (\<lambda>s.
     and_then (MoveReadOffset (ReadAbleSize (in_buffer s)) (in_buffer s)) (\<lambda>b.
     Shutdown call True (s\<lparr>in_buffer := b\<rparr>))))"

text \<open>The callbacks with fuel for the calls nested in Shutdown.\<close>

fun echo_call :: "('x app_conn \<Rightarrow> fault + 'x app_conn) \<Rightarrow> nat \<Rightarrow> app_callback \<Rightarrow> 'x app_conn \<Rightarrow> fault + 'x app_conn" where
  "echo_call remove n App_connected s = Inr (Echo_OnConnected s)"
| "echo_call remove n App_closed s = Inr (Echo_OnClosed s)"
| "echo_call remove n App_removed s = remove s"
| "echo_call remove 0 App_message s = Inl OutOfFuel"
| "echo_call remove (Suc n) App_message s = Echo_OnMessage (echo_call remove n) s"

text \<open>The constructor's settings on its TcpServer.\<close>

definition EchoServer_tcp :: "(app_callback, 'x, 't, 'l) tcp_server \<Rightarrow> (app_callback, 'x, 't, 'l) tcp_server" where
  "EchoServer_tcp tcp =
     Srv_SetMessageCallback (Some App_message) (Srv_SetConnectedCallback (Some App_connected)
       (Srv_SetClosedCallback (Some App_closed) (Srv_EnableInactiveRelease 10 (Srv_SetThreadCount 2 tcp))))"

definition EchoServer_Start :: "(nat \<Rightarrow> 'l) \<Rightarrow> (app_callback, 'x, 't, 'l) tcp_server \<Rightarrow> (app_callback, 'x, 't, 'l) tcp_server" where
  "EchoServer_Start started tcp = Srv_Start started tcp"

section \<open>The greeting server\<close>

definition greeting :: string where
  "greeting = ''Hello World''"

definition Hello_OnMessage :: "(app_callback \<Rightarrow> 'x app_conn \<Rightarrow> fault + 'x app_conn) \<Rightarrow> 'x app_conn \<Rightarrow> fault + 'x app_conn" where
  "Hello_OnMessage call s =
     and_then (MoveReadOffset (ReadAbleSize (in_buffer s)) (in_buffer s)) (\<lambda>b.
     Conn_Send call True greeting (s\<lparr>in_buffer := b\<rparr>))"

definition Hello_OnConnected :: "'x app_conn \<Rightarrow> 'x app_conn" where
  "Hello_OnConnected s = s"

definition Hello_OnClosed :: "'x app_conn \<Rightarrow> 'x app_conn" where
  "Hello_OnClosed s = s"

fun hello_call :: "('x app_conn \<Rightarrow> fault + 'x app_conn) \<Rightarrow> app_callback \<Rightarrow> 'x app_conn \<Rightarrow> fault + 'x app_conn" where
  "hello_call remove App_message s = Hello_OnMessage (\<lambda>_. Inr) s"
| "hello_call remove App_connected s = Inr (Hello_OnConnected s)"
| "hello_call remove App_closed s = Inr (Hello_OnClosed s)"
| "hello_call remove App_removed s = remove s"

text \<open>main: the settings, then Start.\<close>

definition Hello_tcp :: "(app_callback, 'x, 't, 'l) tcp_server \<Rightarrow> (app_callback, 'x, 't, 'l) tcp_server" where
  "Hello_tcp tcp =
     Srv_SetMessageCallback (Some App_message) (Srv_SetConnectedCallback (Some App_connected)
       (Srv_SetClosedCallback (Some App_closed) (Srv_EnableInactiveRelease 10 (Srv_SetThreadCount 2 tcp))))"

definition Hello_main :: "(nat \<Rightarrow> 'l) \<Rightarrow> (app_callback, 'x, 't, 'l) tcp_server \<Rightarrow> (app_callback, 'x, 't, 'l) tcp_server" where
  "Hello_main started tcp = Srv_Start started (Hello_tcp tcp)"

text \<open>
  Its client, Test/TestSource/client.cc: five rounds that send a text and read, with neither result looked
  at.  The bytes on the wire and what each round has read.
\<close>

fun hello_client_rounds :: "(nat \<Rightarrow> send_answer) \<Rightarrow> (nat \<Rightarrow> recv_answer) \<Rightarrow> nat \<Rightarrow> string \<times> string list" where
  "hello_client_rounds ss rs 0 = ([], [])"
| "hello_client_rounds ss rs (Suc i) =
     (let (out, seen) = hello_client_rounds ss rs i; str = ''hello hello!'';
          (r, err) = ss i (length str); (r', err', data) = rs i in
      (out @ take (nat (Send r err)) str, seen @ [take (nat (Recv r' err')) data]))"

definition hello_client_main :: "(nat \<Rightarrow> send_answer) \<Rightarrow> (nat \<Rightarrow> recv_answer) \<Rightarrow> string \<times> string list" where
  "hello_client_main ss rs = hello_client_rounds ss rs 5"

section \<open>The message callbacks\<close>

text \<open>The user part of a connection of either server.\<close>

definition app_user :: "'x \<Rightarrow> (app_callback, 'x) user_part \<Rightarrow> bool" where
  "app_user x u \<longleftrightarrow> u = (x, Some App_connected, Some App_message, None)"

lemma read_all:
  assumes s: "conn_inv P s"
  shows "\<exists>b. MoveReadOffset (ReadAbleSize (in_buffer s)) (in_buffer s) = Inr b \<and> buf_wf b \<and> content b = []
     \<and> conn_inv P (s\<lparr>in_buffer := b\<rparr>) \<and> conn_le s (s\<lparr>in_buffer := b\<rparr>)"
proof -
  note wf = conn_coreD(1)[OF conn_invD[OF s]]
  from MoveReadOffset_ok[OF wf, of "ReadAbleSize (in_buffer s)"] obtain b where
    b: "MoveReadOffset (ReadAbleSize (in_buffer s)) (in_buffer s) = Inr b" "buf_wf b" "content b = []"
    by (auto simp: unat_ReadAbleSize[OF wf])
  with s show ?thesis by (simp add: conn_inv_def conn_core_def conn_le_def)
qed

lemma peek_in: "conn_inv P s \<Longrightarrow> peek_bytes (ReadAbleSize (in_buffer s)) (in_buffer s) = Inr (content (in_buffer s))"
  using peek_all conn_coreD(1)[OF conn_invD] by blast

lemma content_fits: "conn_inv P s \<Longrightarrow> length (content (in_buffer s)) \<le> max_size"
  using length_content_le conn_coreD(1)[OF conn_invD] by blast

text \<open>
  One echo: everything read is submitted, and with output pending the connection then drains.  The
  nested call of the message callback does not happen, so its fuel does not matter.
\<close>

lemma Echo_after_send:
  assumes "conn_inv P s" and "Conn_Send call True (content (in_buffer s)) s = Inr u"
  shows "\<exists>b. Echo_OnMessage call s = Inr (shutdown_tail (u\<lparr>in_buffer := b, statu := DISCONNECTING\<rparr>)) \<and> content b = []
     \<and> conn_inv P (u\<lparr>in_buffer := b\<rparr>) \<and> conn_le s (u\<lparr>in_buffer := b\<rparr>) \<and> submitted u = submitted s @ content (in_buffer s)
     \<and> received_bytes u = received_bytes s \<and> el_tasks u = el_tasks s
     \<and> content (out_buffer u) = content (out_buffer s) @ content (in_buffer s)"
proof -
  from Conn_Send_does[OF assms(1) content_fits[OF assms(1)], of call] assms(2)
  have u: "conn_inv P u" "conn_le s u" "in_buffer u = in_buffer s" "submitted u = submitted s @ content (in_buffer s)"
    "received_bytes u = received_bytes s" "el_tasks u = el_tasks s" "content (out_buffer u) = content (out_buffer s) @ content (in_buffer s)"
    by simp_all
  from read_all[OF u(1)] obtain b where b: "MoveReadOffset (ReadAbleSize (in_buffer u)) (in_buffer u) = Inr b" "content b = []"
    "conn_inv P (u\<lparr>in_buffer := b\<rparr>)" "conn_le u (u\<lparr>in_buffer := b\<rparr>)" by blast
  then show ?thesis
    using u(4-7) conn_le_trans[OF u(2) b(4)] Shutdown_idle[OF b(3), of call]
    by (intro exI[of _ b]) (simp add: Echo_OnMessage_def peek_in[OF assms(1)] assms(2))
qed

lemma Echo_OnMessage_call:
  assumes "conn_inv P s"
  shows "Echo_OnMessage call s = Echo_OnMessage call' s"
proof -
  have "Shutdown call True (u\<lparr>in_buffer := b\<rparr>) = Shutdown call' True (u\<lparr>in_buffer := b\<rparr>)"
    if "Conn_Send call' True (content (in_buffer s)) s = Inr u" "MoveReadOffset (ReadAbleSize (in_buffer u)) (in_buffer u) = Inr b" for u b
  proof -
    from Conn_Send_does[OF assms content_fits[OF assms], of call'] that(1) have "conn_inv P u" by simp
    from read_all[OF this] that(2) have "conn_inv P (u\<lparr>in_buffer := b\<rparr>)" "content b = []" by auto
    then show ?thesis using Shutdown_idle[of P "u\<lparr>in_buffer := b\<rparr>"] by simp
  qed
  then show ?thesis
    by (auto simp: Echo_OnMessage_def peek_in[OF assms] Conn_Send_call[of call _ s call'] intro!: and_then_cong)
qed

lemma Echo_fuel: "conn_inv P s \<Longrightarrow> echo_call remove (Suc n) k s = echo_call remove (Suc m) k s"
  using Echo_OnMessage_call by (cases k) auto

lemma Echo_OnMessage_ok:
  assumes s: "conn_inv (app_user x) s"
  shows "step_ok (app_user x) {LengthError} s (Echo_OnMessage call s)"
proof (cases "Conn_Send call True (content (in_buffer s)) s")
  case (Inl e)
  with Conn_Send_does[OF s content_fits[OF s], of call] show ?thesis by (simp add: Echo_OnMessage_def peek_in[OF s])
next
  case (Inr u)
  from Echo_after_send[OF s this] obtain b where b:
    "Echo_OnMessage call s = Inr (shutdown_tail (u\<lparr>in_buffer := b, statu := DISCONNECTING\<rparr>))"
    "conn_inv (app_user x) (u\<lparr>in_buffer := b\<rparr>)" "conn_le s (u\<lparr>in_buffer := b\<rparr>)" by blast
  note d = disconnecting_inv[OF b(2)]
  from shutdown_tail_inv[of "app_user x"] d conn_le_trans[OF b(3)] show ?thesis
    by (auto simp: b(1) intro: conn_le_trans)
qed

lemma Hello_OnMessage_ok:
  assumes s: "conn_inv (app_user x) s"
  shows "step_ok (app_user x) {LengthError} s (Hello_OnMessage call s)"
    "Hello_OnMessage call s = Inr t \<Longrightarrow> submitted t = submitted s @ greeting"
proof -
  from read_all[OF s] obtain b where b: "MoveReadOffset (ReadAbleSize (in_buffer s)) (in_buffer s) = Inr b"
    "conn_inv (app_user x) (s\<lparr>in_buffer := b\<rparr>)" "conn_le s (s\<lparr>in_buffer := b\<rparr>)" by blast
  have "length greeting \<le> max_size" by (simp add: greeting_def max_size_def)
  from Conn_Send_does[OF b(2) this, of call] conn_le_trans[OF b(3)] b(1)
  show "step_ok (app_user x) {LengthError} s (Hello_OnMessage call s)"
    "Hello_OnMessage call s = Inr t \<Longrightarrow> submitted t = submitted s @ greeting"
    by (auto simp: Hello_OnMessage_def)
qed

lemma app_callback: "conn_inv (app_user x) s \<Longrightarrow> is_callback (Some k) s \<Longrightarrow> k = App_connected \<or> k = App_message"
  using conn_inv_context[of "app_user x" s] by (auto simp: app_user_def)

interpretation echo: conn_stream "echo_call remove (Suc n)" "app_user x" "{LengthError}"
    "\<lambda>_ sub unread got. got = sub @ unread" "\<lambda>_ sub unread got. got = sub @ unread"
  for remove :: "'x app_conn \<Rightarrow> fault + 'x app_conn" and n :: nat and x :: 'x
proof unfold_locales
  fix s :: "'x app_conn" and k assume s: "conn_inv (app_user x) s"
  show "step_ok (app_user x) {LengthError} s (echo_call remove (Suc n) k s)" if "is_callback (Some k) s"
    using app_callback[OF s that] s by (elim disjE) (simp_all add: Echo_OnConnected_def Echo_OnMessage_ok)
  assume I: "stream_of (\<lambda>_ sub unread got. got = sub @ unread) s" and "Some k \<in> {message_cb s, any_event_cb s}"
  then have k: "k = App_message" using conn_inv_context[OF s] by (auto simp: app_user_def)
  show "keeps_stream (\<lambda>_ sub unread got. got = sub @ unread) (echo_call remove (Suc n) k s)"
  proof (cases "Conn_Send (echo_call remove n) True (content (in_buffer s)) s")
    case (Inl e)
    then show ?thesis using I by (simp add: k Echo_OnMessage_def peek_in[OF s])
  next
    case (Inr u)
    from Echo_after_send[OF s this] I show ?thesis by (auto simp: k stream_of_def)
  qed
qed simp_all

interpretation hello: conn_stream "hello_call remove" "app_user x" "{LengthError}"
    "\<lambda>_ sub unread got. \<exists>m. sub = concat (replicate m greeting)" "\<lambda>_ sub unread got. \<exists>m. sub = concat (replicate m greeting)"
  for remove :: "'x app_conn \<Rightarrow> fault + 'x app_conn" and x :: 'x
proof unfold_locales
  fix s :: "'x app_conn" and k assume s: "conn_inv (app_user x) s"
  show "step_ok (app_user x) {LengthError} s (hello_call remove k s)" if "is_callback (Some k) s"
    using app_callback[OF s that] s by (elim disjE) (simp_all add: Hello_OnConnected_def Hello_OnMessage_ok(1))
  assume I: "stream_of (\<lambda>_ sub unread got. \<exists>m. sub = concat (replicate m greeting)) s" and "Some k \<in> {message_cb s, any_event_cb s}"
  then have k: "k = App_message" using conn_inv_context[OF s] by (auto simp: app_user_def)
  from I obtain m where m: "submitted s = concat (replicate m greeting)" by (auto simp: stream_of_def)
  have "concat (replicate m greeting) @ greeting = concat (replicate (Suc m) greeting)"
    by (simp only: replicate_append_same[symmetric] replicate_Suc concat_append concat.simps append_Nil2)
  then have "\<exists>m. submitted t = concat (replicate m greeting)" if "Hello_OnMessage (\<lambda>_. Inr) s = Inr t" for t
    using Hello_OnMessage_ok(2)[OF s that] m by metis
  then show "keeps_stream (\<lambda>_ sub unread got. \<exists>m. sub = concat (replicate m greeting)) (hello_call remove k s)"
    by (auto simp: k keeps_stream_def stream_of_def split: sum.splits)
qed auto

section \<open>Properties\<close>

lemma app_tcp_user:
  "srv_event_cb tcp = None \<Longrightarrow> srv_user x (EchoServer_tcp tcp) = (x, Some App_connected, Some App_message, None)"
  "srv_message_cb (EchoServer_tcp tcp) \<noteq> None" "timeout_ok (EchoServer_tcp tcp)" "Hello_tcp tcp = EchoServer_tcp tcp"
  by (simp_all add: EchoServer_tcp_def Hello_tcp_def srv_user_def timeout_ok_def Srv_SetMessageCallback_def Srv_SetConnectedCallback_def
      Srv_SetClosedCallback_def Srv_EnableInactiveRelease_def Srv_SetThreadCount_def)

text \<open>A connection either server has just accepted.\<close>

lemma app_accepted:
  fixes tcp :: "(app_callback, 'x, 't, 'l) tcp_server"
  assumes "NextLoop (srv_pool (EchoServer_tcp tcp)) = Inr (l, q)" and "fresh_in h (view l) a fd"
    and "srv_event_cb tcp = None" and cb: "\<And>s. call App_connected s = Inr s"
  shows "case accept_in_loop call App_removed view x a fd (EchoServer_tcp tcp) of
      Inl e \<Rightarrow> e = LengthError | Inr (c, _) \<Rightarrow> conn_inv (app_user x) c \<and> streams c = ([], Buffer_new, [])"
proof -
  let ?tcp = "EchoServer_tcp tcp"
  note user = app_tcp_user(1)[OF assms(3), of x] app_tcp_user(2,3)[of tcp]
  have cn: "srv_connected_cb ?tcp = Some App_connected" using user(1) by (simp add: srv_user_def)
  have ok: "step_ok (app_user x) {LengthError} t (call_if call (srv_connected_cb ?tcp) t)"
    if "conn_inv (\<lambda>u. u = srv_user x ?tcp) t" for t
    using that by (simp add: user(1) cn call_if_def cb app_user_def[abs_def])
  have quiet: "call_if call (srv_connected_cb ?tcp) s = Inr t \<Longrightarrow> streams t = streams s" for s t
    by (simp add: cn call_if_def cb)
  show ?thesis
    using accept_ok[where call = call and removed = App_removed and view = view and P = "app_user x" and E = "{LengthError}" and x = x,
        OF assms(1,2) user(2,3) ok]
      accept_streams[where call = call and removed = App_removed and view = view and x = x, OF assms(1,2) user(2,3) quiet]
    by (auto split: sum.splits prod.splits)
qed

text \<open>
  C9. The echo server echoes: from the acceptance of a connection through any run of events, closures
  and timers, what the peer has sent is, byte for byte and in order, what has been sent back to it,
  what waits in the output buffer and what has not been read yet.  The run stops only by
  std::length_error; the callback's own recursion through Shutdown never goes deeper than one call.
\<close>

theorem echo_connection_echoes:
  fixes tcp :: "(app_callback, 'x, 't, 'l) tcp_server"
  assumes "NextLoop (srv_pool (EchoServer_tcp tcp)) = Inr (l, q)" and "fresh_in h (view l) a fd"
    and "srv_event_cb tcp = None" and "list_all op_fine ops" and "list_all no_send ops"
  shows "case and_then (accept_in_loop (echo_call remove (Suc n)) App_removed view x a fd (EchoServer_tcp tcp))
            (\<lambda>(c, _). conn_run (echo_call remove (Suc n)) ops c) of
      Inl e \<Rightarrow> e = LengthError
    | Inr t \<Rightarrow> received_bytes t = sent t @ content (out_buffer t) @ content (in_buffer t)"
proof -
  let ?call = "echo_call remove (Suc n)"
  note ok = app_accepted[where call = ?call and view = view and x = x, OF assms(1-3)]
  show ?thesis
  proof (cases "accept_in_loop ?call App_removed view x a fd (EchoServer_tcp tcp)")
    case (Inl e)
    with ok show ?thesis by (simp add: Echo_OnConnected_def)
  next
    case (Inr r)
    with ok obtain c srv' where r: "r = (c, srv')" and c: "conn_inv (app_user x) c" "streams c = ([], Buffer_new, [])"
      by (cases r) (simp add: Echo_OnConnected_def)
    then have I: "stream_of (\<lambda>_ sub unread got. got = sub @ unread) c" by (simp add: streams_def stream_of_def)
    from echo.conn_run_ok[OF c(1) assms(4), of remove n] echo.run_keeps[OF c(1) I assms(4,5), of remove n] conn_coreD(7)[OF conn_invD]
    show ?thesis by (cases "conn_run ?call ops c") (auto simp: Inr r stream_of_def)
  qed
qed

definition example_echo :: "(app_callback, unit, string, nat) tcp_server" where
  "example_echo = fst (projr (TcpServer_new (\<lambda>_. 3) 0 8080 (Socket_new (-1)) 0 0 Poller_new))"

lemma example_echo_eq: "srv_pool example_echo = LoopThreadPool_new 0" "srv_event_cb example_echo = None"
  by (simp_all add: example_echo_def TcpServer_new_def Acceptor_new_def Acceptor_CreateServer_def CreateServer_def Create_def
      Bind_def Listen_def Socket_new_def Let_def Acceptor_Listen_def EnableRead_def split: prod.split)

theorem echo_connection_echoes_witness:
  "case and_then (accept_in_loop (echo_call Inr (Suc 0)) App_removed (\<lambda>_. (Poller_new, TimerWheel_new)) () 7 5
        (EchoServer_tcp (example_echo\<lparr>srv_pool := \<lparr>thread_count = 2, next_idx = 0, baseloop = 0, loops = [1, 2]\<rparr>\<rparr>)))
      (\<lambda>(c, _). conn_run (echo_call Inr (Suc 0)) [Ready_events (2, EAGAIN, ''hi'') (\<lambda>n. (int n, EAGAIN)) (EPOLLIN OR EPOLLOUT)] c) of
      Inl e \<Rightarrow> e = LengthError
    | Inr t \<Rightarrow> received_bytes t = sent t @ content (out_buffer t) @ content (in_buffer t)"
proof (rule echo_connection_echoes)
  show "NextLoop (srv_pool (EchoServer_tcp (example_echo\<lparr>srv_pool := \<lparr>thread_count = 2, next_idx = 0, baseloop = 0, loops = [1, 2]\<rparr>\<rparr>)))
      = Inr (2, \<lparr>thread_count = 2, next_idx = 1, baseloop = 0, loops = [1, 2]\<rparr>)"
    by (simp add: EchoServer_tcp_def Srv_SetMessageCallback_def Srv_SetConnectedCallback_def Srv_SetClosedCallback_def
        Srv_EnableInactiveRelease_def Srv_SetThreadCount_def SetThreadCount_def NextLoop_def signed_modulo_int_def signed_divide_int_def)
  show "fresh_in (\<lambda>_. None) (Poller_new, TimerWheel_new) 7 5"
    by (simp add: fresh_in_def poller_wf_new wheel_wf_new)
qed (simp_all add: example_echo_eq recv_ok_def send_ok_def)

text \<open>
  C10. The echo server answers and then closes.  When a peer's bytes arrive and the kernel takes at
  least one byte per writable event, the peer gets exactly these bytes, behind what was pending and
  unread before, after at most as many events as there are bytes; then, and not before, one release of the
  connection is queued.
\<close>

theorem echo_answers:
  assumes "conn_inv (app_user x) s" and "0 < r" and "recv_ok (r, err, data)"
    and "has_room (in_buffer s) (nat r)" and "has_room (out_buffer s) (length (content (in_buffer s)) + nat r)"
    and "list_all (\<lambda>a. send_ok a \<and> makes_progress a) as"
    and "length (content (out_buffer s)) + length (content (in_buffer s)) + nat r \<le> length as"
  shows "\<exists>u k t. HandleRead (echo_call remove (Suc n)) (r, err, data) s = Inr u \<and> el_tasks u = el_tasks s \<and> k \<le> length as
     \<and> write_run (echo_call remove (Suc n)) (take k as) u = Inr t
     \<and> sent t = submitted s @ content (in_buffer s) @ data \<and> el_tasks t = el_tasks s @ [Release_task]
     \<and> (\<forall>j<k. \<exists>v. write_run (echo_call remove (Suc n)) (take j as) u = Inr v \<and> el_tasks v = el_tasks s)"
proof -
  let ?call = "echo_call remove (Suc n)"
  note core = conn_invD[OF assms(1)]
  have r: "NonBlockRecv r err = r" "length data = nat r" using assms(2,3) by (auto simp: recv_ok_def NonBlockRecv_def Recv_def)
  with assms(4) have "has_room (in_buffer s) (length data)" by simp
  from WriteAndPush_ok[OF conn_coreD(1)[OF core] this] obtain b where
    b: "WriteAndPush data (in_buffer s) = Inr b" "buf_wf b" "content b = content (in_buffer s) @ data" by blast
  let ?s = "s\<lparr>in_buffer := b, received_bytes := received_bytes s @ data\<rparr>"
  have s: "conn_inv (app_user x) ?s"
    using assms(1) b conn_coreD(8)[OF core] by (simp add: conn_inv_def conn_core_def)
  have msg: "message_cb s = Some App_message" using conn_inv_context[OF assms(1)] by (simp add: app_user_def)
  have "ReadAbleSize b > 0" using pending_iff[OF b(2)] b(3) r(2) assms(2) by auto
  then have read: "HandleRead ?call (r, err, data) s = Echo_OnMessage (echo_call remove n) ?s"
    using r assms(2) b(1) msg by (simp add: HandleRead_def Let_def call_set_def)
  have "has_room (out_buffer ?s) (length (content (in_buffer ?s)) + 0)" using assms(5) r(2) b(3) by simp
  from Conn_Send_room[OF s this, of "echo_call remove n"] obtain w where
    w: "Conn_Send (echo_call remove n) True (content (in_buffer ?s)) ?s = Inr w" by blast
  from Echo_after_send[OF s w] obtain b' where u: "HandleRead ?call (r, err, data) s = Inr (shutdown_tail (w\<lparr>in_buffer := b', statu := DISCONNECTING\<rparr>))"
    "conn_inv (app_user x) (w\<lparr>in_buffer := b'\<rparr>)" "submitted w = submitted s @ content (in_buffer s) @ data"
    "el_tasks w = el_tasks s" "content (out_buffer w) = content (out_buffer s) @ content (in_buffer s) @ data"
    unfolding read by (auto simp: b(3))
  let ?w = "w\<lparr>in_buffer := b', statu := DISCONNECTING\<rparr>" let ?u = "shutdown_tail ?w"
  have w': "conn_inv (app_user x) ?w" using disconnecting_inv[OF u(2)] by simp
  then have inv: "conn_inv (app_user x) ?u" using shutdown_tail_inv by blast
  have out: "content (out_buffer ?w) \<noteq> []" using u(5) r(2) assms(2) by auto
  note tail = shutdown_tail_pending[OF w' out]
  have "\<exists>k t. k \<le> length as \<and> write_run ?call (take k as) ?u = Inr t
     \<and> sent t = submitted ?u \<and> content (out_buffer t) = [] \<and> el_tasks t = el_tasks ?u @ [Release_task]
     \<and> (\<forall>j<k. \<exists>v. write_run ?call (take j as) ?u = Inr v \<and> el_tasks v = el_tasks ?u \<and> content (out_buffer v) \<noteq> [])"
    by (rule write_run_drains[OF inv _ _ assms(6)]) (use tail out u(5) assms(7) r(2) in simp_all)
  then obtain k t where "k \<le> length as" "write_run ?call (take k as) ?u = Inr t" "sent t = submitted ?u"
    "el_tasks t = el_tasks ?u @ [Release_task]" "\<forall>j<k. \<exists>v. write_run ?call (take j as) ?u = Inr v \<and> el_tasks v = el_tasks ?u" by blast
  with u(1,3,4) tail show ?thesis by (intro exI[of _ ?u] exI[of _ k] exI[of _ t]) simp
qed

definition echo_conn :: "(app_callback, unit) connection" where
  "echo_conn = (Connection_new Poller_new TimerWheel_new [] 0 () 1 5)\<lparr>message_cb := Some App_message, connected_cb := Some App_connected\<rparr>"

lemma echo_conn_inv: "conn_inv (app_user ()) echo_conn"
  using channel_wf_new[OF poller_wf_new, where a = 0 and fd = 5 and w = TimerWheel_new and ts = "[]" and x = "()" and i = 1]
  by (simp add: echo_conn_def conn_inv_def conn_core_def Connection_new_def Socket_new_def wheel_wf_new app_user_def)

theorem echo_answers_witness:
  "\<exists>u k t. HandleRead (echo_call Inr (Suc 0)) (2, EAGAIN, ''hi'') echo_conn = Inr u \<and> k \<le> 2
     \<and> write_run (echo_call Inr (Suc 0)) (take k [one_byte, one_byte]) u = Inr t
     \<and> sent t = ''hi'' \<and> el_tasks t = [Release_task]"
proof -
  have a: "list_all (\<lambda>a. send_ok a \<and> makes_progress a) [one_byte, one_byte]"
    by (simp add: send_ok_def makes_progress_def one_byte_def)
  have e: "in_buffer echo_conn = Buffer_new" "out_buffer echo_conn = Buffer_new" "submitted echo_conn = []" "el_tasks echo_conn = []"
    by (simp_all add: echo_conn_def Connection_new_def)
  have room: "has_room Buffer_new n \<longleftrightarrow> n \<le> max_size" for n by (simp add: has_room_def Buffer_new_def)
  have "\<exists>u k t. HandleRead (echo_call Inr (Suc 0)) (2, EAGAIN, ''hi'') echo_conn = Inr u \<and> el_tasks u = el_tasks echo_conn
     \<and> k \<le> length [one_byte, one_byte]
     \<and> write_run (echo_call Inr (Suc 0)) (take k [one_byte, one_byte]) u = Inr t
     \<and> sent t = submitted echo_conn @ content (in_buffer echo_conn) @ ''hi'' \<and> el_tasks t = el_tasks echo_conn @ [Release_task]
     \<and> (\<forall>j<k. \<exists>v. write_run (echo_call Inr (Suc 0)) (take j [one_byte, one_byte]) u = Inr v \<and> el_tasks v = el_tasks echo_conn)"
    by (rule echo_answers[OF echo_conn_inv _ _ _ _ a])
       (simp_all add: e recv_ok_def room max_size_def)
  then show ?thesis by (simp add: e numeral_2_eq_2) blast
qed

text \<open>
  The greeting server, from the acceptance of a connection on, answers with whole greetings only, whatever
  arrives in whatever pieces.
\<close>

theorem greetings_only:
  fixes tcp :: "(app_callback, 'x, 't, 'l) tcp_server"
  assumes "NextLoop (srv_pool (Hello_tcp tcp)) = Inr (l, q)" and "fresh_in h (view l) a fd"
    and "srv_event_cb tcp = None" and "list_all op_fine ops" and "list_all no_send ops"
  shows "case and_then (accept_in_loop (hello_call remove) App_removed view x a fd (Hello_tcp tcp))
            (\<lambda>(c, _). conn_run (hello_call remove) ops c) of
      Inl e \<Rightarrow> e = LengthError
    | Inr t \<Rightarrow> \<exists>m. sent t @ content (out_buffer t) = concat (replicate m greeting)"
proof -
  let ?call = "hello_call remove"
  note ok = app_accepted[where call = ?call and view = view and x = x, OF assms(1)[unfolded app_tcp_user(4)] assms(2,3)]
  show ?thesis
  proof (cases "accept_in_loop ?call App_removed view x a fd (EchoServer_tcp tcp)")
    case (Inl e)
    with ok show ?thesis by (simp add: Hello_OnConnected_def app_tcp_user(4))
  next
    case (Inr r)
    with ok obtain c srv' where r: "r = (c, srv')" and c: "conn_inv (app_user x) c" "streams c = ([], Buffer_new, [])"
      by (cases r) (simp add: Hello_OnConnected_def)
    then have I: "stream_of (\<lambda>_ sub unread got. \<exists>m. sub = concat (replicate m greeting)) c"
      by (auto simp: streams_def stream_of_def intro: exI[of _ 0])
    have sub: "conn_inv (app_user x) t \<Longrightarrow> sent t @ content (out_buffer t) = submitted t" for t
      using conn_coreD(7)[OF conn_invD] by metis
    from hello.conn_run_ok[OF c(1) assms(4), of remove] hello.run_keeps[OF c(1) I assms(4,5), of remove]
    show ?thesis by (cases "conn_run ?call ops c") (auto simp: Inr r stream_of_def app_tcp_user(4) sub)
  qed
qed

text \<open>What its client puts on the wire is at most five of its texts, each perhaps cut short.\<close>

lemma hello_client_wire:
  "\<exists>ks. length ks = n \<and> fst (hello_client_rounds ss rs n) = concat (map (\<lambda>k. take k ''hello hello!'') ks)
     \<and> length (snd (hello_client_rounds ss rs n)) = n"
proof (induction n)
  case (Suc n)
  obtain out seen where o: "hello_client_rounds ss rs n = (out, seen)" by force
  obtain r err where a: "ss n (length ''hello hello!'') = (r, err)" by force
  obtain r' err' data where b: "rs n = (r', err', data)" by (metis prod_cases3)
  from Suc o obtain ks where "length ks = n" "out = concat (map (\<lambda>k. take k ''hello hello!'') ks)" "length seen = n" by auto
  then show ?case by (intro exI[of _ "ks @ [nat (Send r err)]"]) (simp add: o a[simplified] b Let_def)
qed simp

end
