(* ===== verification/DemoServer.thy ===== *)
theory DemoServer
  imports HttpRouting
begin

text \<open>
  The program source/main.cc: an HTTP server with four handlers and a served directory.  The handlers
  print the request back, and PutFile stores the request's body below the served directory.  The
  handlers registered with the server (\<open>demo_server\<close>) are functions from request and response to
  response, all that Route and the connections look at; \<open>demo_request\<close> is main's server with what
  its handlers do to the file system, and \<open>demo_request_route\<close> shows that it answers as Route does.
  Which files can be written is the parameter \<open>can_write\<close>.
\<close>

section \<open>The handlers\<close>

definition WWWROOT :: string where
  "WWWROOT = ''./wwwroot/''"

definition field_lines :: "str_map \<Rightarrow> string" where
  "field_lines m = concat (map (\<lambda>(k, v). k @ '': '' @ v @ crlf) m)"

definition RequestStr :: "(str_map \<Rightarrow> str_map) \<Rightarrow> http_request \<Rightarrow> string" where
  "RequestStr order req =
     rq_method req @ '' '' @ rq_path req @ '' '' @ rq_version req @ crlf
     @ field_lines (order (rq_params req)) @ field_lines (order (rq_headers req)) @ crlf @ rq_body req"

definition Hello :: "(str_map \<Rightarrow> str_map) \<Rightarrow> handler" where
  "Hello order req rsp = Inr (SetContent (RequestStr order req) ''text/plain'' rsp)"

definition Login :: "(str_map \<Rightarrow> str_map) \<Rightarrow> handler" where
  "Login order req rsp = Inr (SetContent (RequestStr order req) ''text/plain'' rsp)"

definition PutFile :: "(string \<Rightarrow> bool) \<Rightarrow> file_system \<Rightarrow> http_request \<Rightarrow> http_response \<Rightarrow> file_system \<times> http_response" where
  "PutFile can_write fs req rsp =
     (let pathname = WWWROOT @ rq_path req in (snd (WriteFile can_write fs pathname (rq_body req)), rsp))"

definition DelFile :: "(str_map \<Rightarrow> str_map) \<Rightarrow> handler" where
  "DelFile order req rsp = Inr (SetContent (RequestStr order req) ''text/plain'' rsp)"

section \<open>The server\<close>

text \<open>
  \<open>std::regex(p)\<close> for a pattern without metacharacters other than the dot, which stands for every
  character but a line end.
\<close>

fun dotted_rx :: "string \<Rightarrow> rx" where
  "dotted_rx [] = Many (\<lambda>_. False)"
| "dotted_rx (c # cs) = Seq (Cls (if c = CHR ''.'' then not_line_end else (\<lambda>x. x = c))) (dotted_rx cs)"

text \<open>main up to Listen: the served directory must exist, then the handlers are registered.\<close>

definition demo_server :: "(str_map \<Rightarrow> str_map) \<Rightarrow> (string \<Rightarrow> bool) \<Rightarrow> file_system \<Rightarrow> fault + http_server" where
  "demo_server order can_write fs =
     and_then (SetBaseDir fs WWWROOT HttpServer_new) (\<lambda>server. Inr (
       Delete (dotted_rx ''/1234.txt'') (DelFile order) (
       Put (dotted_rx ''/1234.txt'') (\<lambda>req rsp. Inr (snd (PutFile can_write fs req rsp))) (
       Post (dotted_rx ''/login'') (Login order) (
       Get (dotted_rx ''/hello'') (Hello order) server)))))"

text \<open>
  The same registrations with the handlers' effect: a handler of this kind also gets the file system
  and returns it.  Only PutFile changes it.
\<close>

type_synonym file_handler = "http_request \<Rightarrow> http_response \<Rightarrow> file_system \<Rightarrow> fault + (file_system \<times> http_response)"

definition reads_only :: "handler \<Rightarrow> file_handler" where
  "reads_only h req rsp fs = and_then (h req rsp) (\<lambda>rsp. Inr (fs, rsp))"

definition demo_handlers :: "(str_map \<Rightarrow> str_map) \<Rightarrow> (string \<Rightarrow> bool) \<Rightarrow> string \<Rightarrow> (rx \<times> file_handler) list" where
  "demo_handlers order can_write m =
     (if m = ''GET'' \<or> m = ''HEAD'' then [(dotted_rx ''/hello'', reads_only (Hello order))]
      else if m = ''POST'' then [(dotted_rx ''/login'', reads_only (Login order))]
      else if m = ''PUT'' then [(dotted_rx ''/1234.txt'', \<lambda>req rsp fs. Inr (PutFile can_write fs req rsp))]
      else if m = ''DELETE'' then [(dotted_rx ''/1234.txt'', reads_only (DelFile order))]
      else [])"

text \<open>Dispatcher and Route with such handlers, for the server main has set up.\<close>

fun demo_dispatch :: "http_request \<Rightarrow> http_response \<Rightarrow> file_system \<Rightarrow> (rx \<times> file_handler) list
    \<Rightarrow> fault + (file_system \<times> http_request \<times> http_response)" where
  "demo_dispatch req rsp fs [] = Inr (fs, req, rsp\<lparr>rs_statu := 404\<rparr>)"
| "demo_dispatch req rsp fs ((re, functor) # hs) =
     (case submatches re (rq_path req) of
        None \<Rightarrow> demo_dispatch (req\<lparr>rq_matches := []\<rparr>) rsp fs hs
      | Some ms \<Rightarrow> let req = req\<lparr>rq_matches := ms\<rparr> in
          and_then (functor req rsp fs) (\<lambda>(fs, rsp). Inr (fs, req, rsp)))"

definition demo_request :: "(str_map \<Rightarrow> str_map) \<Rightarrow> (string \<Rightarrow> bool) \<Rightarrow> http_server \<Rightarrow> file_system \<Rightarrow> http_request \<Rightarrow> http_response
    \<Rightarrow> fault + (file_system \<times> http_request \<times> http_response)" where
  "demo_request order can_write server fs req rsp =
     and_then (IsFileHandler fs server req) (\<lambda>is_file.
       if is_file then and_then (FileHandler fs server req rsp) (\<lambda>rsp. Inr (fs, req, rsp))
       else if rq_method req \<in> {''GET'', ''HEAD'', ''POST'', ''PUT'', ''DELETE''}
       then demo_dispatch req rsp fs (demo_handlers order can_write (rq_method req))
       else Inr (fs, req, rsp\<lparr>rs_statu := 405\<rparr>))"

text \<open>The TCP side: the default timeout of HttpServer's constructor, three loops, and the start.\<close>

definition DEFALT_TIMEOUT :: int where
  "DEFALT_TIMEOUT = 10"

definition demo_tcp :: "(http_callback, http_context option, 't, 'l) tcp_server
    \<Rightarrow> (http_callback, http_context option, 't, 'l) tcp_server" where
  "demo_tcp tcp = Http_SetThreadCount 3 (HttpServer_tcp DEFALT_TIMEOUT tcp)"

definition demo_main :: "(nat \<Rightarrow> 'l) \<Rightarrow> (http_callback, http_context option, 't, 'l) tcp_server
    \<Rightarrow> (http_callback, http_context option, 't, 'l) tcp_server" where
  "demo_main started tcp = Http_Listen started (demo_tcp tcp)"

section \<open>What the patterns match\<close>

text \<open>The texts a dotted pattern matches: those of its length that agree outside the dots.\<close>

definition fits :: "string \<Rightarrow> string \<Rightarrow> bool" where
  "fits p s \<longleftrightarrow> list_all2 (\<lambda>c x. if c = CHR ''.'' then not_line_end x else x = c) p s"

lemma dotted_lang: "lang (dotted_rx p) s \<longleftrightarrow> fits p s"
proof (induction p arbitrary: s)
  case (Cons c p)
  let ?P = "if c = CHR ''.'' then not_line_end else (\<lambda>x. x = c)"
  have "lang (dotted_rx (c # p)) s \<longleftrightarrow> (\<exists>x v. s = [x] @ v \<and> ?P x \<and> fits p v)"
    unfolding dotted_rx.simps lang.simps Cons.IH by blast
  then show ?case by (cases s) (simp_all add: fits_def)
qed (auto simp: fits_def)

lemma dotted_match: "regex_match (dotted_rx p) s = (if fits p s then Some (\<lambda>_. None) else None)"
proof -
  have free: "group_free (dotted_rx p)" by (induction p) auto
  note mem = in_group_free[OF free, of "[]" _ s "\<lambda>_. None", unfolded dotted_lang append_Nil2]
  show ?thesis
  proof (cases "regex_match (dotted_rx p) s")
    case None
    then have "\<not> fits p s" unfolding regex_match_None mem by simp
    with None show ?thesis by simp
  next
    case (Some m)
    from regex_match_Some[OF this] show ?thesis unfolding mem by (auto simp: Some)
  qed
qed

lemma handles_dotted: "handles s (dotted_rx p, h) \<longleftrightarrow> fits p s"
  by (simp add: handles_def dotted_match)

lemma demo_server_eq:
  "IsDirectory fs WWWROOT \<Longrightarrow> demo_server order can_write fs = Inr \<lparr>get_route = [(dotted_rx ''/hello'', Hello order)],
     post_route = [(dotted_rx ''/login'', Login order)],
     put_route = [(dotted_rx ''/1234.txt'', \<lambda>req rsp. Inr (snd (PutFile can_write fs req rsp)))],
     delete_route = [(dotted_rx ''/1234.txt'', DelFile order)], basedir = WWWROOT\<rparr>"
  by (simp add: demo_server_def SetBaseDir_def Get_def Post_def Put_def Delete_def HttpServer_new_def)

text \<open>
  With its effects the server answers as Route does, and files change only where PutFile runs: a PUT
  whose path its pattern matches.
\<close>

lemma demo_request_route:
  assumes "demo_server order can_write fs0 = Inr srv" and "IsDirectory fs0 WWWROOT"
  shows "map_sum id snd (demo_request order can_write srv fs req rsp) = Route fs srv req rsp"
proof -
  note eq = assms(1)[unfolded demo_server_eq[OF assms(2)] sum.inject, symmetric]
  have tables: "get_route srv = [(dotted_rx ''/hello'', Hello order)]" "post_route srv = [(dotted_rx ''/login'', Login order)]"
    "put_route srv = [(dotted_rx ''/1234.txt'', \<lambda>req rsp. Inr rsp)]" "delete_route srv = [(dotted_rx ''/1234.txt'', DelFile order)]"
    by (simp_all add: eq PutFile_def Let_def)
  have one: "map_sum id snd (demo_dispatch req rsp fs [(p, f)]) = Dispatcher req rsp [(p, h)]"
    if "\<And>req. map_sum id snd (f req rsp fs) = h req rsp" for p f h
  proof (cases "submatches p (rq_path req)")
    case (Some ms)
    let ?req = "req\<lparr>rq_matches := ms\<rparr>"
    from that[of ?req, symmetric] Some show ?thesis
      by (cases "f ?req rsp fs") (simp_all add: Let_def split: prod.split)
  next
    case None
    then show ?thesis by (simp only: demo_dispatch.simps Dispatcher.simps option.case map_sum.simps snd_conv)
  qed
  have pure: "map_sum id snd (reads_only h req rsp fs) = h req rsp" for h req
    by (cases "h req rsp") (simp_all add: reads_only_def)
  have disp: "map_sum id snd (demo_dispatch req rsp fs (demo_handlers order can_write (rq_method req)))
      = Dispatcher req rsp (route_table srv (rq_method req))" if "rq_method req \<in> {''GET'', ''HEAD'', ''POST'', ''PUT'', ''DELETE''}"
    using that unfolding demo_handlers_def route_table_def tables
    by (auto simp del: demo_dispatch.simps Dispatcher.simps dotted_rx.simps intro!: one pure simp: PutFile_def Let_def)
  show ?thesis
  proof (cases "IsFileHandler fs srv req")
    case (Inr b)
    show ?thesis
    proof (cases b)
      case True
      with Inr show ?thesis by (cases "FileHandler fs srv req rsp") (simp_all add: demo_request_def Route_def)
    next
      case False
      with Inr disp show ?thesis by (auto simp: demo_request_def Route_def route_table_def split: if_splits)
    qed
  qed (simp add: demo_request_def Route_def)
qed

lemma demo_put:
  assumes "\<not> is_static fs srv req" and "rq_method req = ''PUT''" and "fits ''/1234.txt'' (rq_path req)"
  shows "\<exists>req'. demo_request order can_write srv fs req rsp = Inr (fst (PutFile can_write fs req rsp), req', rsp)"
proof -
  have path: "rq_path req \<noteq> []" using assms(3) by (auto simp: fits_def)
  obtain ms where ms: "submatches (dotted_rx ''/1234.txt'') (rq_path req) = Some ms"
    using assms(3) submatches_def[of "dotted_rx ''/1234.txt''" "rq_path req"] dotted_match[of "''/1234.txt''" "rq_path req"]
    by (simp del: dotted_rx.simps)
  show ?thesis
    unfolding demo_request_def IsFileHandler_static[OF path]
    by (simp add: assms(1,2) demo_handlers_def ms PutFile_def Let_def del: dotted_rx.simps)
qed

section \<open>Properties\<close>

lemma exists_methods: "''GET'' \<in> set methods" "''PUT'' \<in> set methods" "''POST'' \<in> set methods" "''DELETE'' \<in> set methods"
  by (simp_all add: methods_def)

text \<open>
  C20. What has been put can be fetched.  When main's server gets a PUT of /1234.txt and the file may be
  written, the response is left as it was and the body is stored under the served directory by the
  handler, no other file changed; a later GET of the same path is then answered with exactly that
  body as text/plain and changes nothing, until the file changes.  Without the served directory main stops in an assert.
\<close>

theorem put_then_get:
  assumes "rq_path req = ''/1234.txt''" and "can_write (WWWROOT @ ''/1234.txt'')" and "fs WWWROOT = Some Directory"
    and "rq_method req = ''PUT''" and "rq_method req' = ''GET''" and "rq_path req' = ''/1234.txt''"
  shows "\<exists>srv req''. demo_server order can_write fs = Inr srv \<and> Route fs srv req rsp = Inr (req'', rsp)
     \<and> demo_request order can_write srv fs req rsp = Inr (fst (PutFile can_write fs req rsp), req'', rsp)
     \<and> (\<forall>p. fst (PutFile can_write fs req rsp) p = (if p = ''./wwwroot//1234.txt'' then Some (RegularFile (rq_body req)) else fs p))
     \<and> (\<exists>rsp''. Route (fst (PutFile can_write fs req rsp)) srv req' rsp' = Inr (req', rsp'')
          \<and> demo_request order can_write srv (fst (PutFile can_write fs req rsp)) req' rsp'
              = Inr (fst (PutFile can_write fs req rsp), req', rsp'')
          \<and> rs_body rsp'' = rq_body req \<and> rs_statu rsp'' = rs_statu rsp'
          \<and> rs_headers rsp'' = map_insert ''Content-Type'' ''text/plain'' (rs_headers rsp'))"
proof -
  have dir: "IsDirectory fs WWWROOT" using assms(3) by (simp add: IsDirectory_def)
  let ?srv = "projr (demo_server order can_write fs)"
  note srv = demo_server_eq[OF dir, of order can_write]
  have path: "rq_path req \<noteq> []" "rq_path req' \<noteq> []" using assms(1,6) by simp_all
  have not_file: "\<not> is_static fs ?srv req" using assms(4) by (simp add: is_static_def)
  moreover have "find (handles (rq_path req)) (route_table ?srv (rq_method req))
      = Some (dotted_rx ''/1234.txt'', \<lambda>req rsp. Inr (snd (PutFile can_write fs req rsp)))"
    unfolding srv by (simp add: assms(1,4) route_table_def handles_dotted fits_def not_line_end_def del: dotted_rx.simps)
  ultimately obtain req'' where put: "Route fs ?srv req rsp = Inr (req'', rsp)"
    using Route_answer[of req fs ?srv rsp] exists_methods(2) path assms(4) by (simp add: PutFile_def Let_def)
  have start: "demo_server order can_write fs = Inr ?srv" by (simp add: srv)
  note same = demo_request_route[OF start dir]
  have "fits ''/1234.txt'' (rq_path req)" using assms(1) by (simp add: fits_def not_line_end_def)
  from demo_put[OF not_file assms(4) this, of order can_write rsp] same[of fs req rsp] put
  have effect: "demo_request order can_write ?srv fs req rsp = Inr (fst (PutFile can_write fs req rsp), req'', rsp)" by auto
  have stored: "fst (PutFile can_write fs req rsp) = fs(''./wwwroot//1234.txt'' \<mapsto> RegularFile (rq_body req))"
    using assms(1,2) by (simp add: PutFile_def WriteFile_def WWWROOT_def)
  have valid: "ValidPath ''/1234.txt'' = Some True" by (simp add: ValidPath_def Split_def split_loop.simps str_find_def)
  have static: "static_path ?srv (rq_path req') = ''./wwwroot//1234.txt''"
    unfolding srv by (simp add: static_path_def assms(6) WWWROOT_def)
  then have static': "is_static (fst (PutFile can_write fs req rsp)) ?srv req'"
    unfolding is_static_def srv by (simp add: assms(5,6) valid stored IsRegular_def WWWROOT_def)
  from Route_static(1)[OF path(2) static', of "rq_body req" rsp'] static stored
  have got: "Route (fst (PutFile can_write fs req rsp)) ?srv req' rsp'
    = Inr (req', rs_SetHeader ''Content-Type'' (ExtMime ''./wwwroot//1234.txt'') (rsp'\<lparr>rs_body := rq_body req\<rparr>))" by simp
  have mime: "ExtMime ''./wwwroot//1234.txt'' = ''text/plain''" by code_simp
  have "demo_request order can_write ?srv (fst (PutFile can_write fs req rsp)) req' rsp'
      = Inr (fst (PutFile can_write fs req rsp), req', rs_SetHeader ''Content-Type'' (ExtMime ''./wwwroot//1234.txt'') (rsp'\<lparr>rs_body := rq_body req\<rparr>))"
    using same[of "fst (PutFile can_write fs req rsp)" req' rsp'] static' unfolding got
    by (auto simp: demo_request_def IsFileHandler_static[OF path(2)] and_then_eq_Inr map_sum_def split: sum.splits)
  with start put effect got stored show ?thesis by (auto simp: mime rs_SetHeader_def)
qed

theorem put_then_get_witness:
  defines "fs \<equiv> [''./wwwroot/'' \<mapsto> Directory]" and "req \<equiv> HttpRequest_new\<lparr>rq_method := ''PUT'', rq_path := ''/1234.txt'', rq_body := ''hi''\<rparr>"
    and "req' \<equiv> HttpRequest_new\<lparr>rq_method := ''GET'', rq_path := ''/1234.txt''\<rparr>"
  shows "\<exists>srv fs' req'' rsp. demo_server id (\<lambda>_. True) fs = Inr srv
    \<and> demo_request id (\<lambda>_. True) srv fs req (HttpResponse_new 200) = Inr (fs', req'', HttpResponse_new 200)
    \<and> demo_request id (\<lambda>_. True) srv fs' req' (HttpResponse_new 200) = Inr (fs', req', rsp)
    \<and> Route fs' srv req' (HttpResponse_new 200) = Inr (req', rsp) \<and> rs_body rsp = ''hi''"
  using put_then_get[of req "\<lambda>_. True" fs req' id "HttpResponse_new 200" "HttpResponse_new 200"]
  by (fastforce simp: fs_def req_def req'_def WWWROOT_def)

text \<open>
  The dot of the pattern is a metacharacter: PutFile and DelFile answer every nine-character path that
  agrees with /1234.txt outside the dot, and PutFile stores a file of that name.
\<close>

theorem put_pattern_dot:
  "handles path (dotted_rx ''/1234.txt'', h) \<longleftrightarrow> (\<exists>c. path = ''/1234'' @ [c] @ ''txt'' \<and> not_line_end c)"
proof -
  have "fits ''/1234.txt'' path \<longleftrightarrow> (\<exists>c. path = ''/1234'' @ [c] @ ''txt'' \<and> not_line_end c)"
    by (auto simp: fits_def list_all2_Cons1)
  then show ?thesis by (simp only: handles_dotted)
qed

text \<open>The other handlers answer with the request they were given, as plain text.\<close>

theorem demo_prints_request:
  assumes "IsDirectory fs WWWROOT" and "rq_method req = ''POST''" and "rq_path req = ''/login''"
  shows "\<exists>srv req' rsp'. demo_server order can_write fs = Inr srv \<and> Route fs srv req rsp = Inr (req', rsp')
     \<and> rs_body rsp' = RequestStr order req \<and> rs_statu rsp' = rs_statu rsp"
proof -
  let ?srv = "projr (demo_server order can_write fs)"
  note srv = demo_server_eq[OF assms(1), of order can_write]
  have "\<not> is_static fs ?srv req" using assms(2) by (simp add: is_static_def)
  moreover have "find (handles (rq_path req)) (route_table ?srv (rq_method req)) = Some (dotted_rx ''/login'', Login order)"
    unfolding srv by (simp add: assms(2,3) route_table_def handles_dotted fits_def del: dotted_rx.simps)
  ultimately show ?thesis
    using Route_answer[of req fs ?srv rsp] exists_methods(3) assms(2,3)
    by (simp add: srv Login_def SetContent_def RequestStr_def rs_SetHeader_def)
qed

end
