(* ===== verification/TestClients.thy ===== *)
theory TestClients
  imports DemoServer HttpConnections
begin

text \<open>
  The client programs source/test/client1.cc to client6.cc, which were written to try out the HTTP server
  of main.cc: keep-alive requests one by one, a request whose body is announced longer than it is,
  several requests in one send, and a file to be stored.  What each of them sends, reads and sleeps is
  computed from its text and the kernel's answers; the bytes are then given to the server, and the
  pauses to the inactivity timer of its connection.
\<close>

section \<open>The socket calls of a client\<close>

text \<open>
  \<open>assert(cli_sock.Send(req.c_str(), req.size()) != -1)\<close>: what the kernel took goes on the wire; a
  short write is not noticed.  \<open>assert(cli_sock.Recv(buf, 1023))\<close> fails only on 0: an error (-1)
  passes, and leaves the zeroed buffer.
\<close>

definition client_send :: "string \<Rightarrow> send_answer \<Rightarrow> fault + string" where
  "client_send req ans =
     (case ans (length req) of (r, err) \<Rightarrow>
      if Send r err = -1 then Inl AssertFailed else Inr (take (nat (Send r err)) req))"

definition client_recv :: "recv_answer \<Rightarrow> fault + string" where
  "client_recv = (\<lambda>(r, err, data).
     if Recv r err = 0 then Inl AssertFailed else Inr (take (nat (Recv r err)) data))"

text \<open>The sends of one turn of a client's loop; \<open>ss i\<close> answers the i-th send of the program.\<close>

fun client_sends :: "(nat \<Rightarrow> send_answer) \<Rightarrow> nat \<Rightarrow> string list \<Rightarrow> fault + string" where
  "client_sends ss i [] = Inr []"
| "client_sends ss i (req # reqs) =
     and_then (client_send req (ss i)) (\<lambda>out.
     and_then (client_sends ss (Suc i) reqs) (\<lambda>outs. Inr (out @ outs)))"

text \<open>
  What a client does: sending bytes, reading an answer, sleeping for so many seconds, and closing.
  The first \<open>n\<close> turns of \<open>while(1)\<close> send, read and sleep for the time \<open>pause\<close>, if the program has a
  sleep at all.  (The result of CreateClient is not looked at.)
\<close>

datatype client_act = Sends string | Receives string | Sleeps nat | Closes

fun client_turns :: "nat option \<Rightarrow> string list \<Rightarrow> (nat \<Rightarrow> send_answer) \<Rightarrow> (nat \<Rightarrow> recv_answer) \<Rightarrow> nat \<Rightarrow> fault + client_act list" where
  "client_turns pause reqs ss rs 0 = Inr []"
| "client_turns pause reqs ss rs (Suc n) =
     and_then (client_turns pause reqs ss rs n) (\<lambda>acts.
     and_then (client_sends ss (n * length reqs) reqs) (\<lambda>out.
     and_then (client_recv (rs n)) (\<lambda>buf.
     Inr (acts @ [Sends out, Receives buf] @ (case pause of None \<Rightarrow> [] | Some t \<Rightarrow> [Sleeps t])))))"

definition on_wire :: "client_act list \<Rightarrow> string" where
  "on_wire acts = concat (map (\<lambda>a. case a of Sends out \<Rightarrow> out | _ \<Rightarrow> []) acts)"

definition answers_read :: "client_act list \<Rightarrow> nat" where
  "answers_read acts = length (filter (\<lambda>a. case a of Receives _ \<Rightarrow> True | _ \<Rightarrow> False) acts)"

text \<open>
  What the acts mean for the inactivity timer of the connection at the server: a send is an event on
  it, a second of sleep is a tick of the wheel.
\<close>

fun timer_run :: "('k \<Rightarrow> ('k, 'x) connection \<Rightarrow> ('k, 'x) conn_result) \<Rightarrow> client_act list
    \<Rightarrow> ('k, 'x) connection \<Rightarrow> ('k, 'x) conn_result" where
  "timer_run call [] s = Inr s"
| "timer_run call (Sends out # acts) s = and_then (HandleAnyEvent call s) (timer_run call acts)"
| "timer_run call (Sleeps t # acts) s = and_then (conn_ticks t s) (timer_run call acts)"
| "timer_run call (Receives buf # acts) s = timer_run call acts s"
| "timer_run call (Closes # acts) s = timer_run call acts s"

section \<open>The programs\<close>

definition hello_request :: string where
  "hello_request = ''GET /hello HTTP/1.1'' @ crlf @ ''Connection: keep-alive'' @ crlf @ ''Content-Length: 0'' @ crlf @ crlf"

definition client1 :: "(nat \<Rightarrow> send_answer) \<Rightarrow> (nat \<Rightarrow> recv_answer) \<Rightarrow> nat \<Rightarrow> fault + client_act list" where
  "client1 = client_turns (Some 3) [hello_request]"

text \<open>client2 sleeps for longer than the server's timeout.\<close>

definition client2 :: "(nat \<Rightarrow> send_answer) \<Rightarrow> (nat \<Rightarrow> recv_answer) \<Rightarrow> nat \<Rightarrow> fault + client_act list" where
  "client2 = client_turns (Some 15) [hello_request]"

definition short_body_request :: string where
  "short_body_request = ''GET /hello HTTP/1.1'' @ crlf @ ''Connection: keep-alive'' @ crlf @ ''Content-Length: 100'' @ crlf @ crlf
     @ ''bitejiuyeke''"

definition client3 :: "(nat \<Rightarrow> send_answer) \<Rightarrow> (nat \<Rightarrow> recv_answer) \<Rightarrow> nat \<Rightarrow> fault + client_act list" where
  "client3 = client_turns (Some 3) [short_body_request, short_body_request, short_body_request]"

text \<open>
  client4 forks ten processes, each of which is this loop, without a sleep.  A failed fork makes the parent stop with
  the children already made; \<open>forks\<close> are the answers of fork in the parent.
\<close>

definition client4_child :: "(nat \<Rightarrow> send_answer) \<Rightarrow> (nat \<Rightarrow> recv_answer) \<Rightarrow> nat \<Rightarrow> fault + client_act list" where
  "client4_child = client_turns None [hello_request]"

definition client4_children :: "int list \<Rightarrow> nat" where
  "client4_children forks = length (takeWhile (\<lambda>pid. \<not> pid < 0) (take 10 forks))"

definition client5 :: "(nat \<Rightarrow> send_answer) \<Rightarrow> (nat \<Rightarrow> recv_answer) \<Rightarrow> nat \<Rightarrow> fault + client_act list" where
  "client5 = client_turns (Some 3) [hello_request @ hello_request @ hello_request]"

text \<open>client6 sends the head and the body of one PUT, with the file read before.\<close>

definition client6_head :: "string \<Rightarrow> string" where
  "client6_head body = (''PUT /1234.txt HTTP/1.1'' @ crlf @ ''Connection: keep-alive'' @ crlf)
     @ ''Content-Length: '' @ to_string (int (length body)) @ crlf @ crlf"

definition client6 :: "file_system \<Rightarrow> (nat \<Rightarrow> send_answer) \<Rightarrow> recv_answer \<Rightarrow> fault + client_act list" where
  "client6 fs ss r =
     (let body = snd (ReadFile fs ''./file/hello.txt'' []) in
      and_then (client_sends ss 0 [client6_head body, body]) (\<lambda>out.
      and_then (client_recv r) (\<lambda>buf. Inr [Sends out, Receives buf, Sleeps 3, Closes])))"

section \<open>What goes on the wire\<close>

text \<open>The kernel takes every send whole, and every turn reads something.\<close>

definition takes_all :: "(nat \<Rightarrow> send_answer) \<Rightarrow> bool" where
  "takes_all ss \<longleftrightarrow> (\<forall>i n. fst (ss i n) = int n)"

definition replies :: "(nat \<Rightarrow> recv_answer) \<Rightarrow> bool" where
  "replies rs \<longleftrightarrow> (\<forall>i. fst (rs i) > 0)"

lemma client_send_all: "takes_all ss \<Longrightarrow> client_send req (ss i) = Inr req"
proof -
  assume all: "takes_all ss"
  obtain r err where "ss i (length req) = (r, err)" by force
  moreover with all have "r = int (length req)" unfolding takes_all_def by (metis fst_conv)
  ultimately show ?thesis by (simp add: client_send_def Send_def)
qed

lemma client_sends_all: "takes_all ss \<Longrightarrow> client_sends ss i reqs = Inr (concat reqs)"
  by (induction reqs arbitrary: i) (simp_all add: client_send_all)

lemma client_recv_some: "fst r > 0 \<Longrightarrow> client_recv r = Inr (take (nat (fst r)) (snd (snd r)))"
  by (cases r) (auto simp: client_recv_def Recv_def)

lemma client_turns_acts:
  assumes "takes_all ss" and "replies rs"
  shows "client_turns pause reqs ss rs n = Inr (concat (map (\<lambda>i.
      [Sends (concat reqs), Receives (take (nat (fst (rs i))) (snd (snd (rs i))))] @ (case pause of None \<Rightarrow> [] | Some t \<Rightarrow> [Sleeps t])) [0..<n]))"
proof (induction n)
  case (Suc n)
  have "client_recv (rs n) = Inr (take (nat (fst (rs n))) (snd (snd (rs n))))"
    using assms(2) by (intro client_recv_some) (simp add: replies_def)
  then show ?case using Suc by (simp add: client_sends_all[OF assms(1)])
qed simp

lemma client_turns_wire:
  assumes "takes_all ss" and "replies rs"
  shows "\<exists>acts. client_turns pause reqs ss rs n = Inr acts \<and> on_wire acts = concat (replicate n (concat reqs)) \<and> answers_read acts = n"
proof -
  let ?turn = "\<lambda>i. [Sends (concat reqs), Receives (take (nat (fst (rs i))) (snd (snd (rs i))))] @ (case pause of None \<Rightarrow> [] | Some t \<Rightarrow> [Sleeps t])"
  have turn: "on_wire (?turn i @ acts) = concat reqs @ on_wire acts" "answers_read (?turn i @ acts) = Suc (answers_read acts)" for i acts
    by (cases pause; simp add: on_wire_def answers_read_def)+
  have "on_wire (concat (map ?turn ks)) = concat (replicate (length ks) (concat reqs)) \<and> answers_read (concat (map ?turn ks)) = length ks"
    for ks :: "nat list"
  proof (induction ks)
    case (Cons i js)
    then show ?case using turn[of i "concat (map ?turn js)"] by simp
  qed (simp add: on_wire_def answers_read_def)
  from this[of "[0..<n]"] show ?thesis by (simp add: client_turns_acts[OF assms])
qed

text \<open>
  Clients that are never silent for as long as the timeout keep the timer going, however many turns
  they make; a silence of the timeout queues the release.
\<close>

lemma timer_kept:
  assumes "waits r d s" and "inactive_release s" and "any_event_cb s = None" and "case pause of None \<Rightarrow> True | Some t \<Rightarrow> t < d"
  shows "\<exists>u. timer_run call (concat (map (\<lambda>i. [Sends w, Receives (b i)] @ (case pause of None \<Rightarrow> [] | Some t \<Rightarrow> [Sleeps t])) ks)) s = Inr u
     \<and> el_tasks u = el_tasks s"
  using assms(1-3)
proof (induction ks arbitrary: s r)
  case (Cons i js)
  from activity_waits[OF Cons.prems] Cons.prems(2,3) obtain t where t: "HandleAnyEvent call s = Inr t" "el_tasks t = el_tasks s"
    "waits d d t" "inactive_release t" "any_event_cb t = None" by auto
  show ?case
  proof (cases pause)
    case None
    from Cons.IH[OF t(3-5)] t(1,2) show ?thesis by (auto simp: None)
  next
    case (Some k)
    from ticks_wait[OF t(3), of k] t(4,5) assms(4) obtain v where v: "conn_ticks k t = Inr v" "el_tasks v = el_tasks t"
      "waits (d - k) d v" "inactive_release v" "any_event_cb v = None" by (auto simp: Some)
    from Cons.IH[OF v(3-5)] t(1,2) v(1,2) show ?thesis by (auto simp: Some)
  qed
qed simp

lemma conn_ticks_Suc: "conn_ticks (Suc n) s = and_then (conn_ticks n s) (conn_OnTime 1)"
proof (induction n arbitrary: s)
  case 0
  show ?case by (cases "conn_OnTime 1 s") simp_all
next
  case (Suc n)
  then show ?case by (cases "conn_OnTime 1 s") simp_all
qed

lemma timer_expires:
  assumes "waits r d s" and "inactive_release s" and "any_event_cb s = None" and "0 < d"
  shows "j < d \<Longrightarrow> \<exists>u. timer_run call [Sends w, Receives b, Sleeps j] s = Inr u \<and> el_tasks u = el_tasks s"
    and "\<exists>u. timer_run call [Sends w, Receives b, Sleeps d] s = Inr u \<and> el_tasks u = el_tasks s @ [Release_task]"
proof -
  from activity_waits[OF assms(1-3)] obtain t where t: "HandleAnyEvent call s = Inr t" "el_tasks t = el_tasks s" "waits d d t" by blast
  show "j < d \<Longrightarrow> \<exists>u. timer_run call [Sends w, Receives b, Sleeps j] s = Inr u \<and> el_tasks u = el_tasks s"
    using ticks_wait[OF t(3), of j] t(1,2) by auto
  obtain k where k: "d = Suc k" using assms(4) by (cases d) auto
  have "waits (d - k) d v \<Longrightarrow> \<exists>u. conn_OnTime 1 v = Inr u \<and> el_tasks u = el_tasks v @ [Release_task]" for v
    using tick_waits[of 1 d v] by (auto simp: k)
  then show "\<exists>u. timer_run call [Sends w, Receives b, Sleeps d] s = Inr u \<and> el_tasks u = el_tasks s @ [Release_task]"
    using ticks_wait[OF t(3), of k] t(1,2) unfolding k timer_run.simps conn_ticks_Suc by fastforce
qed

text \<open>The requests as the parser's correctness lemmas have them.\<close>

lemma hello_is_raw:
  "hello_request = raw_request ''GET'' ''/hello'' ''HTTP/1.1'' [] [(''Connection'', ''keep-alive''), (''Content-Length'', ''0'')] []"
  by (simp add: hello_request_def raw_request_def raw_line_def print_header_def crlf_def)

lemma client6_is_raw:
  "client6_head body @ body = raw_request ''PUT'' ''/1234.txt'' ''HTTP/1.1'' []
     [(''Connection'', ''keep-alive''), (''Content-Length'', to_string (int (length body)))] body"
  by (simp add: client6_head_def raw_request_def raw_line_def print_header_def crlf_def)

section \<open>What the server of main.cc answers\<close>

lemma plain_path: "UrlDecode ''/hello'' False = ''/hello''" "UrlDecode ''/1234.txt'' False = ''/1234.txt''"
  by code_simp+

text \<open>A request of these clients: what the parser makes of it.\<close>

definition keepalive_headers :: "string \<Rightarrow> (string \<times> string) list" where
  "keepalive_headers n = [(''Connection'', ''keep-alive''), (''Content-Length'', n)]"

lemma keepalive_raw_ok:
  assumes "m \<in> {''GET'', ''PUT''}" and "p \<in> {''/hello'', ''/1234.txt''}" and "length body \<le> max_size"
    and "stol n = Inr (int (length body))" and "newline \<notin> set n" and "length n \<le> 100"
  shows "client_ok (m, p, ''HTTP/1.1'', [], keepalive_headers n, body)"
proof -
  have "length (raw_line m p ''HTTP/1.1'' []) \<le> MAX_LINE"
    using assms(1,2) by (auto simp: raw_line_def crlf_def MAX_LINE_def)
  then show ?thesis
    using assms by (auto simp: client_ok_def raw_ok_def length_ok_def methods_def header_ok_def newline_def keepalive_headers_def MAX_LINE_def)
qed

lemma received_request:
  "received m path v params hs body (parsed_client (m, p, v, params, hs, body)) \<longleftrightarrow> path = UrlDecode p False"
  using received_parsed[of m "UrlDecode p False" v params hs body] by (auto simp: parsed_client_def received_def)

lemma keepalive_not_closed:
  assumes "map_of (rq_headers req) = map_of (keepalive_headers n)" and "\<not> rs_HasHeader ''Connection'' rsp"
  shows "\<not> Response_Close (complete_response req rsp)"
proof -
  have "\<not> Request_Close req"
    using assms(1) by (simp add: Request_Close_def request_headers.has_look request_headers.get_look keepalive_headers_def)
  then have "map_of (rs_headers (complete_response req rsp)) ''Connection'' = Some ''keep-alive''"
    using assms(2) by (simp add: complete_response_def Let_def)
  then show ?thesis by (simp add: Response_Close_def response_headers.has_look response_headers.get_look)
qed

text \<open>The answer to a GET of /hello: the request printed back.\<close>

lemma hello_answer:
  assumes dir: "IsDirectory fs WWWROOT" and none: "\<not> IsRegular fs ''./wwwroot//hello''" and srv: "demo_server order can_write fs = Inr srv"
    and rq: "rq_method rq = ''GET''" "rq_path rq = ''/hello''" "map_of (rq_headers rq) = map_of (keepalive_headers n)"
  obtains req rsp where "answer order fs srv rq = Inr (response_text order req rsp, False)"
    "rs_body rsp = RequestStr order rq" "rs_statu rsp = 200" "rq_version req = rq_version rq"
proof -
  note eq = srv[unfolded demo_server_eq[OF dir] sum.inject, symmetric]
  let ?req = "rq\<lparr>rq_matches := the (submatches (dotted_rx ''/hello'') (rq_path rq))\<rparr>"
  let ?rsp = "SetContent (RequestStr order rq) ''text/plain'' (HttpResponse_new 200)"
  have base: "basedir srv = ''./wwwroot/''" unfolding eq by (simp add: WWWROOT_def)
  have "\<not> is_static fs srv rq" using none by (simp add: is_static_def static_path_def rq base)
  moreover have "find (handles (rq_path rq)) (route_table srv (rq_method rq)) = Some (dotted_rx ''/hello'', Hello order)"
    unfolding eq by (simp add: rq route_table_def handles_dotted fits_def del: dotted_rx.simps)
  moreover have "RequestStr order ?req = RequestStr order rq" by (simp add: RequestStr_def)
  ultimately have "Route fs srv rq (HttpResponse_new 200) = Inr (?req, ?rsp)"
    using Route_answer[of rq fs srv "HttpResponse_new 200"] rq exists_methods(1) by (simp add: Hello_def Let_def)
  moreover have "\<not> Response_Close (complete_response ?req ?rsp)"
    by (rule keepalive_not_closed[of _ n])
       (simp_all add: rq(3) SetContent_def HttpResponse_new_def rs_HasHeader_def rs_SetHeader_def map_has_def map_insert_def)
  ultimately have "answer order fs srv rq = Inr (response_text order ?req (complete_response ?req ?rsp), False)"
    by (simp add: answer_def Let_def)
  then show thesis by (rule that) (simp_all add: SetContent_def HttpResponse_new_def rs_SetHeader_def)
qed

lemma serve_client:
  assumes "client_ok r" and "answer order fs srv (request (parsed_client r)) = Inr (page, False)"
  shows "serve order fs srv (concat (replicate n (print_client r))) HttpContext_new = Inr (concat (replicate n page), False, HttpContext_new, [])"
proof -
  have "answers order fs srv (map (\<lambda>r. request (parsed_client r)) (replicate n r)) = Inr (concat (replicate n page), False)"
    by (induction n) (simp_all add: assms(2))
  moreover have "list_all client_ok (replicate n r)" by (simp add: assms(1) list_all_iff)
  ultimately show ?thesis using serve_pipeline[of "replicate n r" order fs srv] by simp
qed

definition hello_client :: client_request where
  "hello_client = (''GET'', ''/hello'', ''HTTP/1.1'', [], keepalive_headers ''0'', [])"

lemma hello_client_facts:
  "print_client hello_client = hello_request" "client_ok hello_client" "rq_method (request (parsed_client hello_client)) = ''GET''"
  "rq_path (request (parsed_client hello_client)) = ''/hello''"
  "map_of (rq_headers (request (parsed_client hello_client))) = map_of (keepalive_headers ''0'')"
  "rq_version (request (parsed_client hello_client)) = ''HTTP/1.1''"
proof -
  show "print_client hello_client = hello_request" by (simp add: hello_is_raw print_client_def hello_client_def keepalive_headers_def)
  have "stol ''0'' = Inr 0" by (simp add: stol_def isspace_def isdigit_def digits_value_def)
  then show "client_ok hello_client" unfolding hello_client_def by (intro keepalive_raw_ok) (simp_all add: newline_def)
  have "received ''GET'' ''/hello'' ''HTTP/1.1'' [] (keepalive_headers ''0'') [] (parsed_client hello_client)"
    by (simp add: hello_client_def received_request plain_path)
  then show "rq_method (request (parsed_client hello_client)) = ''GET''" "rq_path (request (parsed_client hello_client)) = ''/hello''"
    "map_of (rq_headers (request (parsed_client hello_client))) = map_of (keepalive_headers ''0'')"
    "rq_version (request (parsed_client hello_client)) = ''HTTP/1.1''" by (simp_all add: received_def)
qed

text \<open>The client of the unfinished body: what the parser makes of one request and of three.\<close>

definition short_text :: string where
  "short_text = short_body_request @ short_body_request @ short_body_request"

definition short_client :: client_request where
  "short_client = (''GET'', ''/hello'', ''HTTP/1.1'', [], keepalive_headers ''100'', take 100 (drop 68 short_text))"

lemma short_parts: "short_text = print_client short_client @ drop 168 short_text" "length (take 100 (drop 68 short_text)) = 100"
  by code_simp+

lemma short_waits:
  "\<exists>c. recv_bytes short_body_request HttpContext_new = Inr (c, []) \<and> recv_statu c = RECV_HTTP_BODY
     \<and> resp_statu c = 200 \<and> rq_body (request c) = ''bitejiuyeke''"
proof -
  have raw: "short_body_request = raw_request ''GET'' ''/hello'' ''HTTP/1.1'' [] (keepalive_headers ''100'') ''bitejiuyeke''"
    by (simp add: short_body_request_def raw_request_def raw_line_def print_header_def crlf_def keepalive_headers_def)
  have n: "stol ''100'' = Inr (int 100)" by (simp add: stol_def isspace_def isdigit_def digits_value_def)
  show ?thesis
    unfolding raw
    by (rule recv_bytes_short[OF _ _ _ _ _ _ _ _ n])
       (simp_all add: methods_def newline_def raw_line_def crlf_def MAX_LINE_def header_ok_def keepalive_headers_def max_size_def)
qed

lemma short_rest: "\<exists>r. recv_bytes (drop 168 short_text) HttpContext_new = Inr (bad 400 HttpContext_new, r)"
proof -
  have parts: "drop 168 short_text = '' HTTP/1.1'' @ crlf @ drop 79 (drop 100 short_text)" by code_simp
  have "map toupper (takeWhile (\<lambda>c. c \<noteq> CHR '' '') ('' HTTP/1.1'' @ crlf)) \<notin> set methods" by code_simp
  from recv_bytes_refused[OF _ _ no_method_refused[OF this]] show ?thesis
    unfolding parts by (auto simp: newline_def MAX_LINE_def)
qed

section \<open>Properties\<close>

lemma client3_wire: "takes_all ss \<Longrightarrow> replies rs \<Longrightarrow> \<exists>acts. client3 ss rs 1 = Inr acts \<and> on_wire acts = short_text"
  using client_turns_wire[of ss rs "Some 3" "[short_body_request, short_body_request, short_body_request]" 1]
  by (auto simp: client3_def short_text_def simp del: client_turns.simps)

text \<open>What a page that prints a request is: its text, status and body.\<close>

definition prints_request :: "(str_map \<Rightarrow> str_map) \<Rightarrow> http_request \<Rightarrow> string \<Rightarrow> bool" where
  "prints_request order rq page \<longleftrightarrow> (\<exists>req rsp. page = response_text order req rsp \<and> rs_statu rsp = 200
     \<and> rs_body rsp = RequestStr order rq \<and> rq_version req = ''HTTP/1.1'')"

lemma hello_page:
  assumes "IsDirectory fs WWWROOT" and "\<not> IsRegular fs ''./wwwroot//hello''" and "demo_server order can_write fs = Inr srv"
    and "rq_method rq = ''GET''" "rq_path rq = ''/hello''" "map_of (rq_headers rq) = map_of (keepalive_headers n)" "rq_version rq = ''HTTP/1.1''"
  obtains page where "answer order fs srv rq = Inr (page, False)" "prints_request order rq page"
proof -
  from hello_answer[OF assms(1-6)] obtain req rsp where "answer order fs srv rq = Inr (response_text order req rsp, False)"
    "rs_body rsp = RequestStr order rq" "rs_statu rsp = 200" "rq_version req = rq_version rq" by blast
  with that assms(7) show thesis by (auto simp: prints_request_def)
qed

text \<open>
  C17. The keep-alive clients are answered.  Against main's server, when the kernel takes what they send,
  n turns of client1 or of a child of client4 put bytes on the wire that are answered by n copies of
  one page, and n turns of client5, which sends three requests at once, by 3n copies: the page with
  status 200 whose body is the request.  The answers do not close the connection, nothing is left
  unread and the context is ready for the next request; and no turn is so long that the timeout of
  ten ticks, of a connection whose timer has been started, would queue its release.  client2, which
  sleeps for 15 seconds, is answered once, and then that timeout queues the release at its tenth tick.
\<close>

theorem keepalive_clients_answered:
  assumes "fs WWWROOT = Some Directory" and "\<not> IsRegular fs ''./wwwroot//hello''" and "demo_server order can_write fs = Inr srv"
    and "takes_all ss" and "replies rs"
    and "wheel_wf (loop_wheel s)" and "\<not> HasTimer (conn_id s) (loop_wheel s)" and "action_unused (conn_id s) (loop_wheel s)"
    and "any_event_cb s = None"
  shows "\<exists>page s1. prints_request order (request (parsed_client hello_client)) page
     \<and> EnableInactiveReleaseInLoop DEFALT_TIMEOUT s = Inr s1 \<and> el_tasks s1 = el_tasks s
     \<and> (\<forall>n. \<forall>(turns, k) \<in> {(client1, 1), (client4_child, 1), (client5, 3)}.
          \<exists>acts t. turns ss rs n = Inr acts \<and> answers_read acts = n
            \<and> serve order fs srv (on_wire acts) HttpContext_new = Inr (concat (replicate (k * n) page), False, HttpContext_new, [])
            \<and> timer_run call acts s1 = Inr t \<and> el_tasks t = el_tasks s)
     \<and> (\<exists>buf. client2 ss rs 1 = Inr [Sends hello_request, Receives buf, Sleeps 15]
          \<and> serve order fs srv hello_request HttpContext_new = Inr (page, False, HttpContext_new, [])
          \<and> (\<forall>j < 10. \<exists>t. timer_run call [Sends hello_request, Receives buf, Sleeps j] s1 = Inr t \<and> el_tasks t = el_tasks s)
          \<and> (\<exists>t. timer_run call [Sends hello_request, Receives buf, Sleeps 10] s1 = Inr t \<and> el_tasks t = el_tasks s @ [Release_task]))"
proof -
  have dir: "IsDirectory fs WWWROOT" using assms(1) by (simp add: IsDirectory_def)
  from hello_page[OF dir assms(2,3) hello_client_facts(3-6)] obtain page where
    page: "answer order fs srv (request (parsed_client hello_client)) = Inr (page, False)" "prints_request order (request (parsed_client hello_client)) page"
    by blast
  note serve = serve_client[OF hello_client_facts(2) page(1), unfolded hello_client_facts(1)]
  have triple: "concat (replicate n (concat [hello_request @ hello_request @ hello_request])) = concat (replicate (3 * n) hello_request)" for n
    by (induction n) (simp_all add: numeral_3_eq_3)
  have ten: "10 = eff_delay (nat DEFALT_TIMEOUT)" by (simp add: DEFALT_TIMEOUT_def eff_delay_def)
  from enable_waits[OF assms(6-8) _ _ ten] assms(9) obtain s1 where s1: "EnableInactiveReleaseInLoop DEFALT_TIMEOUT s = Inr s1"
    "el_tasks s1 = el_tasks s" "waits 10 10 s1" "inactive_release s1" "any_event_cb s1 = None"
    by (auto simp: DEFALT_TIMEOUT_def)
  have turns: "\<exists>acts t. client_turns pause [w] ss rs n = Inr acts \<and> answers_read acts = n \<and> on_wire acts = concat (replicate n (concat [w]))
      \<and> timer_run call acts s1 = Inr t \<and> el_tasks t = el_tasks s" if "case pause of None \<Rightarrow> True | Some t \<Rightarrow> t < 10" for pause w n
  proof -
    from client_turns_wire[OF assms(4,5), of pause "[w]" n] obtain acts where
      acts: "client_turns pause [w] ss rs n = Inr acts" "on_wire acts = concat (replicate n (concat [w]))" "answers_read acts = n" by blast
    with client_turns_acts[OF assms(4,5), of pause "[w]" n] timer_kept[OF s1(3-5) that] s1(2) show ?thesis by fastforce
  qed
  let ?buf = "take (nat (fst (rs 0))) (snd (snd (rs 0)))"
  have silent: "client2 ss rs 1 = Inr [Sends hello_request, Receives ?buf, Sleeps 15]"
    by (simp add: client2_def client_turns_acts[OF assms(4,5)] del: client_turns.simps)
  have once: "serve order fs srv hello_request HttpContext_new = Inr (page, False, HttpContext_new, [])"
    using serve[of 1] by simp
  have "\<exists>acts t. client1 ss rs n = Inr acts \<and> answers_read acts = n
      \<and> serve order fs srv (on_wire acts) HttpContext_new = Inr (concat (replicate (1 * n) page), False, HttpContext_new, [])
      \<and> timer_run call acts s1 = Inr t \<and> el_tasks t = el_tasks s" for n
    using turns[of "Some 3" hello_request n] serve[of n] by (auto simp: client1_def)
  moreover have "\<exists>acts t. client4_child ss rs n = Inr acts \<and> answers_read acts = n
      \<and> serve order fs srv (on_wire acts) HttpContext_new = Inr (concat (replicate (1 * n) page), False, HttpContext_new, [])
      \<and> timer_run call acts s1 = Inr t \<and> el_tasks t = el_tasks s" for n
    using turns[of None hello_request n] serve[of n] by (auto simp: client4_child_def)
  moreover have "\<exists>acts t. client5 ss rs n = Inr acts \<and> answers_read acts = n
      \<and> serve order fs srv (on_wire acts) HttpContext_new = Inr (concat (replicate (3 * n) page), False, HttpContext_new, [])
      \<and> timer_run call acts s1 = Inr t \<and> el_tasks t = el_tasks s" for n
    using turns[of "Some 3" "hello_request @ hello_request @ hello_request" n] serve[of "3 * n"] unfolding triple by (auto simp: client5_def)
  ultimately have kept: "\<forall>n. \<forall>(turns, k) \<in> {(client1, 1), (client4_child, 1), (client5, 3)}.
          \<exists>acts t. turns ss rs n = Inr acts \<and> answers_read acts = n
            \<and> serve order fs srv (on_wire acts) HttpContext_new = Inr (concat (replicate (k * n) page), False, HttpContext_new, [])
            \<and> timer_run call acts s1 = Inr t \<and> el_tasks t = el_tasks s" by simp
  have ten': "(0 :: nat) < 10" by simp
  note late = timer_expires[OF s1(3-5) ten', where call = call and w = hello_request and b = ?buf, unfolded s1(2)]
  show ?thesis using page(2) s1(1,2) kept silent once late by blast
qed

definition demo_fs :: file_system where
  "demo_fs = [''./wwwroot/'' \<mapsto> Directory]"

lemma demo_fs_facts: "demo_fs WWWROOT = Some Directory" "\<not> IsRegular demo_fs ''./wwwroot//hello''"
    "demo_server id can_write demo_fs = Inr (projr (demo_server id can_write demo_fs))"
proof -
  show "demo_fs WWWROOT = Some Directory" "\<not> IsRegular demo_fs ''./wwwroot//hello''"
    by (simp_all add: demo_fs_def WWWROOT_def IsRegular_def)
  then have "IsDirectory demo_fs WWWROOT" by (simp add: IsDirectory_def)
  from demo_server_eq[OF this] show "demo_server id can_write demo_fs = Inr (projr (demo_server id can_write demo_fs))" by simp
qed

theorem keepalive_clients_answered_witness:
  "\<exists>page acts s1 t. client5 (\<lambda>_ n. (int n, EAGAIN)) (\<lambda>_. (2, EAGAIN, ''ok'')) 2 = Inr acts
     \<and> serve id demo_fs (projr (demo_server id (\<lambda>_. True) demo_fs)) (on_wire acts) HttpContext_new
         = Inr (concat (replicate 6 page), False, HttpContext_new, [])
     \<and> EnableInactiveReleaseInLoop 10 example_conn = Inr s1
     \<and> timer_run example_call [Sends hello_request, Receives ''ok'', Sleeps 10] s1 = Inr t \<and> el_tasks t = [Release_task]"
proof -
  let ?ss = "\<lambda>_ n. (int n, EAGAIN)" and ?rs = "\<lambda>_. (2, EAGAIN, ''ok'')" and ?srv = "projr (demo_server id (\<lambda>_. True) demo_fs)"
  have ok: "client2 ?ss ?rs 1 = Inr [Sends hello_request, Receives ''ok'', Sleeps 15]"
    by (simp add: client2_def client_send_def client_recv_def Send_def Recv_def)
  have new: "el_tasks example_conn = []" by (simp add: example_conn_def Connection_new_def)
  have "takes_all ?ss" "replies ?rs" by (simp_all add: takes_all_def replies_def)
  moreover have "wheel_wf (loop_wheel example_conn)" "\<not> HasTimer (conn_id example_conn) (loop_wheel example_conn)"
    "action_unused (conn_id example_conn) (loop_wheel example_conn)" "any_event_cb example_conn = None"
    by (simp_all add: example_conn_def Connection_new_def wheel_wf_new HasTimer_def action_unused_def)
      (simp_all add: TimerWheel_new_def)
  ultimately have "\<exists>page s1. EnableInactiveReleaseInLoop DEFALT_TIMEOUT example_conn = Inr s1
     \<and> (\<forall>n. \<forall>(turns, k) \<in> {(client1, 1), (client4_child, 1), (client5, 3)}.
          \<exists>acts t. turns ?ss ?rs n = Inr acts \<and> answers_read acts = n
            \<and> serve id demo_fs ?srv (on_wire acts) HttpContext_new = Inr (concat (replicate (k * n) page), False, HttpContext_new, [])
            \<and> timer_run example_call acts s1 = Inr t \<and> el_tasks t = el_tasks example_conn)
     \<and> (\<exists>buf. client2 ?ss ?rs 1 = Inr [Sends hello_request, Receives buf, Sleeps 15]
          \<and> (\<exists>t. timer_run example_call [Sends hello_request, Receives buf, Sleeps 10] s1 = Inr t
                \<and> el_tasks t = el_tasks example_conn @ [Release_task]))"
    using keepalive_clients_answered[OF demo_fs_facts(1,2) demo_fs_facts(3)[of "\<lambda>_. True"], of ?ss ?rs example_conn example_call]
    by blast
  then obtain page s1 buf where on: "EnableInactiveReleaseInLoop DEFALT_TIMEOUT example_conn = Inr s1" and
    late: "client2 ?ss ?rs 1 = Inr [Sends hello_request, Receives buf, Sleeps 15]"
      "\<exists>t. timer_run example_call [Sends hello_request, Receives buf, Sleeps 10] s1 = Inr t
         \<and> el_tasks t = el_tasks example_conn @ [Release_task]" and
    kept: "\<forall>n. \<forall>(turns, k) \<in> {(client1, 1), (client4_child, 1), (client5, 3)}.
          \<exists>acts t. turns ?ss ?rs n = Inr acts \<and> answers_read acts = n
            \<and> serve id demo_fs ?srv (on_wire acts) HttpContext_new = Inr (concat (replicate (k * n) page), False, HttpContext_new, [])
            \<and> timer_run example_call acts s1 = Inr t \<and> el_tasks t = el_tasks example_conn" by blast
  have three: "\<exists>acts. client5 ?ss ?rs 2 = Inr acts \<and> serve id demo_fs ?srv (on_wire acts) HttpContext_new
       = Inr (concat (replicate 6 page), False, HttpContext_new, [])"
    using spec[OF kept, of 2, THEN bspec, of "(client5, 3)"] by (auto simp del: replicate.simps)
  from late(1) ok have "buf = ''ok''" by simp
  with on late(2) three new show ?thesis by (auto simp: DEFALT_TIMEOUT_def simp del: replicate.simps timer_run.simps)
qed

text \<open>
  C19. The body client3 announces longer than it is.  The program's request alone is waited for: no
  answer, the eleven bytes are kept as the beginning of the body of 100.  The three requests of one turn of client3 are
  taken for one: it is answered as a request whose body of 100 bytes ends inside the third text, and
  the rest of that is no request line, so the page for status 400 follows and the server closes.
\<close>

theorem short_body_client_refused:
  assumes "fs WWWROOT = Some Directory" and "\<not> IsRegular fs ''./wwwroot//hello''" and "demo_server order can_write fs = Inr srv"
    and "takes_all ss" and "replies rs"
  shows "(\<exists>c. serve order fs srv short_body_request HttpContext_new = Inr ([], False, c, []) \<and> recv_statu c = RECV_HTTP_BODY
        \<and> rq_body (request c) = ''bitejiuyeke'')
   \<and> (\<exists>acts page rq. client3 ss rs 1 = Inr acts \<and> prints_request order rq page
        \<and> rq_path rq = ''/hello'' \<and> length (rq_body rq) = 100
        \<and> rq_body rq = take 100 (''bitejiuyeke'' @ short_body_request @ short_body_request)
        \<and> serve order fs srv (on_wire acts) HttpContext_new = Inr (page @ error_text order (bad 400 HttpContext_new), True, HttpContext_new, []))"
proof
  from short_waits obtain c where c: "recv_bytes short_body_request HttpContext_new = Inr (c, [])" "recv_statu c = RECV_HTTP_BODY"
    "resp_statu c = 200" "rq_body (request c) = ''bitejiuyeke''" by blast
  have "short_body_request \<noteq> []" by (simp add: short_body_request_def)
  from serve_round(2)[OF this c(1) ctx_rest_new(1), of order fs srv] c
  show "\<exists>c. serve order fs srv short_body_request HttpContext_new = Inr ([], False, c, []) \<and> recv_statu c = RECV_HTTP_BODY
        \<and> rq_body (request c) = ''bitejiuyeke''" by auto
  let ?rq = "request (parsed_client short_client)"
  have dir: "IsDirectory fs WWWROOT" using assms(1) by (simp add: IsDirectory_def)
  have n: "stol ''100'' = Inr (int (length (take 100 (drop 68 short_text))))"
    unfolding short_parts(2) by (simp add: stol_def isspace_def isdigit_def digits_value_def)
  have ok: "client_ok short_client"
    unfolding short_client_def by (rule keepalive_raw_ok[OF _ _ _ n]) (simp_all only: short_parts(2), simp_all add: newline_def max_size_def)
  have rq: "received ''GET'' ''/hello'' ''HTTP/1.1'' [] (keepalive_headers ''100'') (take 100 (drop 68 short_text)) (parsed_client short_client)"
    by (simp only: short_client_def received_request plain_path)
  then have facts: "rq_method ?rq = ''GET''" "rq_path ?rq = ''/hello''" "map_of (rq_headers ?rq) = map_of (keepalive_headers ''100'')"
    "rq_version ?rq = ''HTTP/1.1''" "rq_body ?rq = take 100 (drop 68 short_text)" by (simp_all only: received_def)
  from hello_page[OF dir assms(2,3) facts(1-4)] obtain page where
    page: "answer order fs srv ?rq = Inr (page, False)" "prints_request order ?rq page" by blast
  have first: "serve order fs srv (print_client short_client) HttpContext_new = Inr (page, False, HttpContext_new, [])"
    using serve_client[OF ok page(1), of 1] by simp
  from short_rest obtain r where r: "recv_bytes (drop 168 short_text) HttpContext_new = Inr (bad 400 HttpContext_new, r)" by blast
  have "drop 168 short_text \<noteq> []" by code_simp
  from serve_round(1)[OF this r ctx_rest_new(1), of order fs srv]
  have rest: "serve order fs srv (drop 168 short_text) HttpContext_new = Inr (error_text order (bad 400 HttpContext_new), True, HttpContext_new, [])"
    by (simp add: bad_def)
  have "serve order fs srv short_text HttpContext_new = Inr (page @ error_text order (bad 400 HttpContext_new), True, HttpContext_new, [])"
    using serve_append[OF first ctx_rest_new(1), of "drop 168 short_text", folded short_parts(1)] rest by simp
  moreover have "take 100 (drop 68 short_text) = take 100 (''bitejiuyeke'' @ short_body_request @ short_body_request)" by code_simp
  moreover obtain acts where "client3 ss rs 1 = Inr acts" "on_wire acts = short_text"
    using client3_wire[OF assms(4,5)] by blast
  ultimately show "\<exists>acts page rq. client3 ss rs 1 = Inr acts \<and> prints_request order rq page
        \<and> rq_path rq = ''/hello'' \<and> length (rq_body rq) = 100
        \<and> rq_body rq = take 100 (''bitejiuyeke'' @ short_body_request @ short_body_request)
        \<and> serve order fs srv (on_wire acts) HttpContext_new = Inr (page @ error_text order (bad 400 HttpContext_new), True, HttpContext_new, [])"
    using page(2) facts(2,5) short_parts(2) by metis
qed

theorem short_body_client_refused_witness:
  "\<exists>page. serve id demo_fs (projr (demo_server id (\<lambda>_. True) demo_fs)) short_text HttpContext_new
     = Inr (page @ error_text id (bad 400 HttpContext_new), True, HttpContext_new, [])"
proof -
  let ?ss = "\<lambda>_ n. (int n, EAGAIN)" and ?rs = "\<lambda>_. (2, EAGAIN, ''ok'')"
  have "takes_all ?ss" "replies ?rs" by (simp_all add: takes_all_def replies_def)
  moreover from client3_wire[OF this] obtain acts where "client3 ?ss ?rs 1 = Inr acts" "on_wire acts = short_text" by blast
  ultimately show ?thesis
    using short_body_client_refused[OF demo_fs_facts(1,2) demo_fs_facts(3)[of "\<lambda>_. True"], of ?ss ?rs] by auto
qed

text \<open>
  C18. The upload (client6).  When the client's file can be read and has a length the server can hold,
  and the kernel takes the head and the body, the server takes the text for one PUT request whose
  body is the file byte for byte, answers it and keeps the connection; and what the server's handler
  stores below the served directory when it answers is the client's file.
\<close>

theorem uploaded_file_is_stored:
  assumes "client_fs ''./file/hello.txt'' = Some (RegularFile d)" and "length d \<le> max_size"
    and "takes_all ss" and "fst r > 0"
    and "fs WWWROOT = Some Directory" and "demo_server order can_write fs = Inr srv" and "can_write (WWWROOT @ ''/1234.txt'')"
  shows "\<exists>out buf page rq. client6 client_fs ss r = Inr [Sends out, Receives buf, Sleeps 3, Closes]
     \<and> serve order fs srv out HttpContext_new = Inr (page, False, HttpContext_new, []) \<and> answer order fs srv rq = Inr (page, False)
     \<and> rq_method rq = ''PUT'' \<and> rq_path rq = ''/1234.txt'' \<and> rq_body rq = d
     \<and> (\<forall>rsp. fst (PutFile can_write fs rq rsp) ''./wwwroot//1234.txt'' = Some (RegularFile d))
     \<and> (\<exists>fs' rq'. demo_request order can_write srv fs rq (HttpResponse_new 200) = Inr (fs', rq', HttpResponse_new 200)
          \<and> page = response_text order rq' (complete_response rq' (HttpResponse_new 200))
          \<and> fs' ''./wwwroot//1234.txt'' = Some (RegularFile d))"
proof -
  let ?n = "to_string (int (length d))" let ?c = "(''PUT'', ''/1234.txt'', ''HTTP/1.1'', [], keepalive_headers ?n, d)"
  have small: "length d < 2 ^ 63" using assms(2) by (simp add: max_size_def)
  have "length ?n \<le> 100" using length_decimal[of "length d" 18] small by (simp add: to_string_def)
  then have ok: "client_ok ?c"
    by (intro keepalive_raw_ok) (use assms(2) small in \<open>simp_all add: stol_to_string to_string_line\<close>)
  have wire: "print_client ?c = client6_head d @ d" by (simp add: client6_is_raw print_client_def keepalive_headers_def)
  let ?rq = "request (parsed_client ?c)"
  have "received ''PUT'' ''/1234.txt'' ''HTTP/1.1'' [] (keepalive_headers ?n) d (parsed_client ?c)"
    by (simp add: received_request plain_path)
  then have rq: "rq_method ?rq = ''PUT''" "rq_path ?rq = ''/1234.txt''" "rq_body ?rq = d" "map_of (rq_headers ?rq) = map_of (keepalive_headers ?n)"
    by (simp_all only: received_def)
  have dir: "IsDirectory fs WWWROOT" using assms(5) by (simp add: IsDirectory_def)
  note eq = assms(6)[unfolded demo_server_eq[OF dir] sum.inject, symmetric]
  let ?req = "?rq\<lparr>rq_matches := the (submatches (dotted_rx ''/1234.txt'') (rq_path ?rq))\<rparr>"
  have not_file: "\<not> is_static fs srv ?rq" by (simp add: is_static_def rq(1))
  moreover have "find (handles (rq_path ?rq)) (route_table srv (rq_method ?rq))
      = Some (dotted_rx ''/1234.txt'', \<lambda>req rsp. Inr (snd (PutFile can_write fs req rsp)))"
    unfolding eq by (simp add: rq route_table_def handles_dotted fits_def not_line_end_def del: dotted_rx.simps)
  ultimately have route: "Route fs srv ?rq (HttpResponse_new 200) = Inr (?req, HttpResponse_new 200)"
    using Route_answer[of ?rq fs srv "HttpResponse_new 200"] rq(1,2) exists_methods(2) by (simp add: PutFile_def Let_def)
  have "\<not> Response_Close (complete_response ?req (HttpResponse_new 200))"
    by (rule keepalive_not_closed[of _ ?n]) (simp_all add: rq(4) HttpResponse_new_def rs_HasHeader_def map_has_def)
  with route obtain page where page: "answer order fs srv ?rq = Inr (page, False)"
    "page = response_text order ?req (complete_response ?req (HttpResponse_new 200))" by (simp add: answer_def Let_def)
  have fits: "fits ''/1234.txt'' (rq_path ?rq)" by (simp add: rq(2) fits_def not_line_end_def)
  from demo_put[OF not_file rq(1) fits, of order can_write "HttpResponse_new 200"] demo_request_route[OF assms(6) dir, of fs ?rq "HttpResponse_new 200"] route
  have effect: "demo_request order can_write srv fs ?rq (HttpResponse_new 200)
      = Inr (fst (PutFile can_write fs ?rq (HttpResponse_new 200)), ?req, HttpResponse_new 200)" by auto
  have stored: "fst (PutFile can_write fs ?rq rsp) ''./wwwroot//1234.txt'' = Some (RegularFile d)" for rsp
    using assms(7) rq(2,3) by (simp add: PutFile_def WriteFile_def WWWROOT_def)
  have "client6 client_fs ss r = Inr [Sends (print_client ?c), Receives (take (nat (fst r)) (snd (snd r))), Sleeps 3, Closes]"
    unfolding wire using assms(1) client_recv_some[OF assms(4)] by (simp add: client6_def ReadFile_def client_sends_all[OF assms(3)] del: client_sends.simps)
  moreover have "serve order fs srv (print_client ?c) HttpContext_new = Inr (page, False, HttpContext_new, [])"
    using serve_client[OF ok page(1), of 1] by simp
  ultimately show ?thesis using page rq(1-3) stored effect by blast
qed

theorem uploaded_file_is_stored_witness:
  "\<exists>out buf page rq. client6 [''./file/hello.txt'' \<mapsto> RegularFile ''hello''] (\<lambda>_ n. (int n, EAGAIN)) (2, EAGAIN, ''ok'')
        = Inr [Sends out, Receives buf, Sleeps 3, Closes]
     \<and> serve id demo_fs (projr (demo_server id (\<lambda>_. True) demo_fs)) out HttpContext_new = Inr (page, False, HttpContext_new, [])
     \<and> fst (PutFile (\<lambda>_. True) demo_fs rq (HttpResponse_new 200)) ''./wwwroot//1234.txt'' = Some (RegularFile ''hello'')"
  using uploaded_file_is_stored[OF _ _ _ _ demo_fs_facts(1) demo_fs_facts(3), of "[''./file/hello.txt'' \<mapsto> RegularFile ''hello'']" "''hello''"
      "\<lambda>_ n. (int n, EAGAIN)" "(2, EAGAIN, ''ok'')" "\<lambda>_. True"]
  by (fastforce simp: takes_all_def max_size_def)

text \<open>
  A peer that has closed is not noticed: the blocking recv returns 0 with an errno that says nothing,
  the wrapper makes that -1, and the assert is satisfied by any value but 0.
\<close>

lemma closed_server_unnoticed: "client_recv (0, Other_errno, data) = Inr []"
  by (simp add: client_recv_def Recv_def)

end
