(* ===== verification/WebBench.thy ===== *)
theory WebBench
  imports HttpConnections HttpRouting
begin

text \<open>
  The load generator WebBench/webbench.c with its socket.c: the options, the request it builds from the
  URL, the loop of one client and the parent that adds up what the clients report.  Its globals are
  the record \<open>webbench\<close>; getopt_long, the resolver, the kernel and the clock are arguments.  The
  requests it builds are given to the HTTP server.
\<close>

section \<open>C strings and numbers\<close>

text \<open>strchr and strrchr as an index; the strings hold no NUL.\<close>

definition strchr :: "char \<Rightarrow> string \<Rightarrow> nat option" where
  "strchr c s = (if c \<in> set s then Some (length (takeWhile (\<lambda>x. x \<noteq> c) s)) else None)"

definition strrchr :: "char \<Rightarrow> string \<Rightarrow> nat option" where
  "strrchr c s = (if c \<in> set s then Some (length s - 1 - length (takeWhile (\<lambda>x. x \<noteq> c) (rev s))) else None)"

definition add_int :: "int \<Rightarrow> int \<Rightarrow> fault + int" where
  "add_int a b = (if - (2 ^ 31) \<le> a + b \<and> a + b < 2 ^ 31 then Inr (a + b) else Inl SignedOverflow)"

text \<open>atoi: 0 without digits, undefined beyond int.\<close>

definition atoi :: "string \<Rightarrow> fault + int" where
  "atoi s = (case stol s of
       Inl InvalidArgument \<Rightarrow> Inr 0
     | Inl _ \<Rightarrow> Inl SignedOverflow
     | Inr n \<Rightarrow> if - (2 ^ 31) \<le> n \<and> n < 2 ^ 31 then Inr n else Inl SignedOverflow)"

section \<open>The globals and the options\<close>

definition METHOD_GET :: int where "METHOD_GET = 0"
definition METHOD_HEAD :: int where "METHOD_HEAD = 1"
definition METHOD_OPTIONS :: int where "METHOD_OPTIONS = 2"
definition METHOD_TRACE :: int where "METHOD_TRACE = 3"

definition REQUEST_SIZE :: nat where "REQUEST_SIZE = 2048"

text \<open>From sys/param.h on Linux.\<close>

definition MAXHOSTNAMELEN :: nat where "MAXHOSTNAMELEN = 64"

record webbench =
  http10 :: int
  wb_method :: int
  clients :: int
  force :: bool
  force_reload :: bool
  proxyport :: int
  proxyhost :: "string option"
  benchtime :: int
  wb_host :: string
  wb_request :: string

definition webbench_globals :: webbench where
  "webbench_globals = \<lparr>http10 = 1, wb_method = METHOD_GET, clients = 1, force = False, force_reload = False,
     proxyport = 80, proxyhost = None, benchtime = 30, wb_host = [], wb_request = []\<rparr>"

text \<open>The program ends with an exit status, or does something undefined.\<close>

datatype wb_stop = Exit int | Undefined fault

definition checked :: "fault + 'a \<Rightarrow> wb_stop + 'a" where
  "checked m = (case m of Inl e \<Rightarrow> Inl (Undefined e) | Inr x \<Rightarrow> Inr x)"

lemma checked_Inr [simp]: "checked (Inr x) = Inr x"
  by (simp add: checked_def)

text \<open>
  What getopt_long makes of the arguments: a long option with a flag sets the variable itself, any
  other is its character (\<open>?\<close> for an unknown one) with its argument.
\<close>

datatype wb_option = Sets_force | Sets_reload | Sets_method int | Opt_char char string

definition proxy_option :: "string \<Rightarrow> webbench \<Rightarrow> wb_stop + webbench" where
  "proxy_option optarg s =
     (case strrchr CHR '':'' optarg of
        None \<Rightarrow> Inr (s\<lparr>proxyhost := Some optarg\<rparr>)
      | Some tmp \<Rightarrow>
          if tmp = 0 then Inl (Exit 2)
          else if tmp = length optarg - 1 then Inl (Exit 2)
          else and_then (checked (atoi (drop (tmp + 1) optarg))) (\<lambda>n.
            Inr (s\<lparr>proxyhost := Some (take tmp optarg), proxyport := n\<rparr>)))"

fun do_option :: "wb_option \<Rightarrow> webbench \<Rightarrow> wb_stop + webbench" where
  "do_option Sets_force s = Inr (s\<lparr>force := True\<rparr>)"
| "do_option Sets_reload s = Inr (s\<lparr>force_reload := True\<rparr>)"
| "do_option (Sets_method m) s = Inr (s\<lparr>wb_method := m\<rparr>)"
| "do_option (Opt_char opt optarg) s =
     (if opt = CHR ''f'' then Inr (s\<lparr>force := True\<rparr>)
      else if opt = CHR ''r'' then Inr (s\<lparr>force_reload := True\<rparr>)
      else if opt = CHR ''9'' then Inr (s\<lparr>http10 := 0\<rparr>)
      else if opt = CHR ''1'' then Inr (s\<lparr>http10 := 1\<rparr>)
      else if opt = CHR ''2'' then Inr (s\<lparr>http10 := 2\<rparr>)
      else if opt = CHR ''V'' then Inl (Exit 0)
      else if opt = CHR ''t'' then and_then (checked (atoi optarg)) (\<lambda>n. Inr (s\<lparr>benchtime := n\<rparr>))
      else if opt = CHR ''p'' then proxy_option optarg s
      else if opt = CHR '':'' \<or> opt = CHR ''h'' \<or> opt = CHR ''?'' then Inl (Exit 2)
      else if opt = CHR ''c'' then and_then (checked (atoi optarg)) (\<lambda>n. Inr (s\<lparr>clients := n\<rparr>))
      else Inr s)"

fun do_options :: "wb_option list \<Rightarrow> webbench \<Rightarrow> wb_stop + webbench" where
  "do_options [] s = Inr s"
| "do_options (opt # opts) s = and_then (do_option opt s) (do_options opts)"

section \<open>The request\<close>

definition method_name :: "int \<Rightarrow> string" where
  "method_name m = (if m = METHOD_HEAD then ''HEAD'' else if m = METHOD_OPTIONS then ''OPTIONS''
     else if m = METHOD_TRACE then ''TRACE'' else ''GET'')"

text \<open>The lowest protocol version the options make sense with.\<close>

definition raise_version :: "webbench \<Rightarrow> webbench" where
  "raise_version s =
     (let s = (if force_reload s \<and> proxyhost s \<noteq> None \<and> http10 s < 1 then s\<lparr>http10 := 1\<rparr> else s);
          s = (if wb_method s = METHOD_HEAD \<and> http10 s < 1 then s\<lparr>http10 := 1\<rparr> else s);
          s = (if wb_method s = METHOD_OPTIONS \<and> http10 s < 2 then s\<lparr>http10 := 2\<rparr> else s) in
      if wb_method s = METHOD_TRACE \<and> http10 s < 2 then s\<lparr>http10 := 2\<rparr> else s)"

text \<open>
  The host and port of the URL behind \<open>://\<close>, copied into \<open>host\<close> and \<open>tmp[10]\<close> without regard to
  their sizes; a text that fills an array leaves it without its NUL.
\<close>

definition url_target :: "string \<Rightarrow> webbench \<Rightarrow> wb_stop + webbench" where
  "url_target u s =
     (let slash = the (strchr CHR ''/'' u) in
      case strchr CHR '':'' u of
        Some colon \<Rightarrow>
          if colon < slash then
            let port = take (slash - colon - 1) (drop (colon + 1) u) in
            if MAXHOSTNAMELEN \<le> colon \<or> 10 \<le> length port then Inl (Undefined OutOfBounds)
            else and_then (checked (atoi port)) (\<lambda>n.
              Inr (s\<lparr>wb_host := take colon u, proxyport := (if n = 0 then 80 else n)\<rparr>))
          else if MAXHOSTNAMELEN \<le> slash then Inl (Undefined OutOfBounds) else Inr (s\<lparr>wb_host := take slash u\<rparr>)
      | None \<Rightarrow> if MAXHOSTNAMELEN \<le> slash then Inl (Undefined OutOfBounds) else Inr (s\<lparr>wb_host := take slash u\<rparr>))"

text \<open>The lines behind the address.\<close>

definition request_tail :: "webbench \<Rightarrow> string" where
  "request_tail s =
     (if http10 s = 1 then '' HTTP/1.0'' else if http10 s = 2 then '' HTTP/1.1'' else []) @ crlf
     @ (if http10 s > 0 then ''User-Agent: WebBench 1.5'' @ crlf else [])
     @ (if proxyhost s = None \<and> http10 s > 0 then ''Host: '' @ wb_host s @ crlf else [])
     @ (if force_reload s \<and> proxyhost s \<noteq> None then ''Pragma: no-cache'' @ crlf else [])
     @ (if http10 s > 1 then ''Connection: close'' @ crlf else [])
     @ (if http10 s > 0 then crlf else [])"

definition build_request :: "string \<Rightarrow> webbench \<Rightarrow> wb_stop + webbench" where
  "build_request url s =
     (let s = raise_version (s\<lparr>wb_host := [], wb_request := []\<rparr>);
          req = method_name (wb_method s) @ '' '' in
      if find_sub ''://'' url = None then Inl (Exit 2)
      else if length url > 1500 then Inl (Exit 2)
      else if map tolower (take 7 url) \<noteq> ''http://'' then Inl (Exit 2)
      else let u = drop (the (find_sub ''://'' url) + 3) url in
        if strchr CHR ''/'' u = None then Inl (Exit 2)
        else and_then (case proxyhost s of
            None \<Rightarrow> and_then (url_target u s) (\<lambda>s. Inr (s, req @ drop (the (strchr CHR ''/'' u)) u))
          | Some _ \<Rightarrow> Inr (s, req @ url)) (\<lambda>(s, req).
          let req = req @ request_tail s in
          if REQUEST_SIZE \<le> length req then Inl (Undefined OutOfBounds) else Inr (s\<lparr>wb_request := req\<rparr>)))"

text \<open>main up to the benchmark; \<open>url\<close> is the argument behind the options.\<close>

definition wb_main :: "nat \<Rightarrow> wb_option list \<Rightarrow> string option \<Rightarrow> wb_stop + webbench" where
  "wb_main argc opts url =
     (if argc = 1 then Inl (Exit 2)
      else and_then (do_options opts webbench_globals) (\<lambda>s.
        case url of None \<Rightarrow> Inl (Exit 2)
        | Some url \<Rightarrow>
            let s = (if clients s = 0 then s\<lparr>clients := 1\<rparr> else s);
                s = (if benchtime s = 0 then s\<lparr>benchtime := 30\<rparr> else s) in
            build_request url s))"

section \<open>Connecting (socket.c)\<close>

text \<open>
  \<open>inet_addr\<close> is None for INADDR_NONE, \<open>gethostbyname\<close> None for NULL; an address is its text.  When
  connect fails the new descriptor is not closed.
\<close>

definition WB_Socket :: "(string \<Rightarrow> string option) \<Rightarrow> (string \<Rightarrow> string option) \<Rightarrow> kernel \<Rightarrow> string \<Rightarrow> int \<Rightarrow> int \<times> syscall list" where
  "WB_Socket inet_addr gethostbyname sys host clientPort =
     (case (case inet_addr host of Some a \<Rightarrow> Some a | None \<Rightarrow> gethostbyname host) of
        None \<Rightarrow> (-1, [])
      | Some addr \<Rightarrow>
          let sock = sys Sys_socket; c = Sys_connect sock addr (of_int clientPort) in
          if sock < 0 then (sock, [Sys_socket])
          else if sys c < 0 then (-1, [Sys_socket, c])
          else (sock, [Sys_socket, c]))"

section \<open>One client\<close>

record bench_counts =
  speed :: int
  failed :: int
  bytes :: int

definition no_counts :: bench_counts where
  "no_counts = \<lparr>speed = 0, failed = 0, bytes = 0\<rparr>"

text \<open>
  What the kernel answers in one turn of benchcore's loop: the connected descriptor, the bytes write
  took, what shutdown returned, what the reads returned until the alarm, and what close returned.
\<close>

record bench_turn =
  t_sock :: int
  t_written :: int
  t_shutdown :: int
  t_reads :: "int list"
  t_close :: int

text \<open>The reads of one reply: True when it ended, False when a read failed; the list ends with the alarm.\<close>

fun read_reply :: "int list \<Rightarrow> int \<Rightarrow> fault + (bool \<times> int)" where
  "read_reply [] n = Inr (True, n)"
| "read_reply (i # is) n =
     (if i < 0 then Inr (False, n)
      else if i = 0 then Inr (True, n)
      else and_then (add_int n i) (read_reply is))"

definition count_failed :: "bench_counts \<Rightarrow> fault + bench_counts" where
  "count_failed c = and_then (add_int (failed c) 1) (\<lambda>n. Inr (c\<lparr>failed := n\<rparr>))"

definition bench_once :: "webbench \<Rightarrow> bench_turn \<Rightarrow> bench_counts \<Rightarrow> fault + bench_counts" where
  "bench_once s t c =
     (if t_sock t < 0 then count_failed c
      else if t_written t \<noteq> int (length (wb_request s)) then count_failed c
      else if http10 s = 0 \<and> t_shutdown t \<noteq> 0 then count_failed c
      else and_then (if force s then Inr (True, bytes c) else read_reply (t_reads t) (bytes c)) (\<lambda>(ok, n).
        let c = c\<lparr>bytes := n\<rparr> in
        if \<not> ok then count_failed c
        else if t_close t \<noteq> 0 then count_failed c
        else and_then (add_int (speed c) 1) (\<lambda>n. Inr (c\<lparr>speed := n\<rparr>))))"

text \<open>The loop until the alarm, which takes back one failure (the alarm's own).\<close>

fun bench_loop :: "webbench \<Rightarrow> bench_turn list \<Rightarrow> bench_counts \<Rightarrow> fault + bench_counts" where
  "bench_loop s [] c = Inr (if failed c > 0 then c\<lparr>failed := failed c - 1\<rparr> else c)"
| "bench_loop s (t # ts) c = and_then (bench_once s t c) (bench_loop s ts)"

text \<open>\<open>sigaction_ok\<close>: the handler of the alarm could be set.\<close>

definition benchcore :: "bool \<Rightarrow> webbench \<Rightarrow> bench_turn list \<Rightarrow> wb_stop + bench_counts" where
  "benchcore sigaction_ok s turns = (if \<not> sigaction_ok then Inl (Exit 3) else checked (bench_loop s turns no_counts))"

section \<open>The parent\<close>

text \<open>What the process that calls bench becomes: the fork loop, with the answers of fork.\<close>

datatype bench_role = Role_exit int | Role_child | Role_parent

definition bench_fork :: "int \<Rightarrow> int list \<Rightarrow> bench_role" where
  "bench_fork n pids =
     (case filter (\<lambda>pid. pid \<le> 0) (take (nat n) pids) of
        [] \<Rightarrow> if n \<le> 0 then Role_child else Role_parent
      | pid # _ \<Rightarrow> if pid < 0 then Role_exit 3 else Role_child)"

text \<open>
  The parent's loop over the lines \<open>speed failed bytes\<close> of the children; the list ends when the pipe
  does.  The result is the sums and \<open>i\<close>, which bench returns: the first number of the last line, or
  what the fork loop left in it.
\<close>

fun bench_sum :: "(int \<times> int \<times> int) list \<Rightarrow> int \<Rightarrow> bench_counts \<Rightarrow> int \<Rightarrow> fault + (bench_counts \<times> int)" where
  "bench_sum [] n c last_i = Inr (c, last_i)"
| "bench_sum ((i, j, k) # ls) n c last_i =
     and_then (add_int (speed c) i) (\<lambda>sp.
     and_then (add_int (failed c) j) (\<lambda>fl.
     and_then (add_int (bytes c) k) (\<lambda>bs.
       let c = c\<lparr>speed := sp, failed := fl, bytes := bs\<rparr> in
       if n - 1 = 0 then Inr (c, i) else bench_sum ls (n - 1) c i)))"

text \<open>
  bench in the process that returns from it: its exit status and what it reports.  \<open>available\<close> is the
  trial connection, \<open>pipe_ok\<close> the pipe, \<open>pids\<close> the answers of fork, \<open>opened\<close> what fdopen made of the pipe.
\<close>

definition bench :: "webbench \<Rightarrow> int \<Rightarrow> bool \<Rightarrow> int list \<Rightarrow> bool \<Rightarrow> bool \<Rightarrow> bench_turn list \<Rightarrow> (int \<times> int \<times> int) list
    \<Rightarrow> wb_stop + (int \<times> bench_counts)" where
  "bench s available pipe_ok pids sigaction_ok opened turns reports =
     (if available < 0 then Inl (Exit 1)
      else if \<not> pipe_ok then Inl (Exit 3)
      else case bench_fork (clients s) pids of
          Role_exit n \<Rightarrow> Inl (Exit n)
        | Role_child \<Rightarrow> and_then (benchcore sigaction_ok s turns) (\<lambda>c.
            if \<not> opened then Inl (Exit 3) else Inr (0, c))
        | Role_parent \<Rightarrow>
            if \<not> opened then Inl (Exit 3)
            else and_then (checked (bench_sum reports (clients s) no_counts (clients s))) (\<lambda>(c, i). Inr (i, c)))"

text \<open>The whole program: whom it connects to, and main with its benchmark.\<close>

definition bench_target :: "webbench \<Rightarrow> string" where
  "bench_target s = (case proxyhost s of None \<Rightarrow> wb_host s | Some h \<Rightarrow> h)"

definition webbench_run :: "(string \<Rightarrow> string option) \<Rightarrow> (string \<Rightarrow> string option) \<Rightarrow> kernel \<Rightarrow> nat \<Rightarrow> wb_option list \<Rightarrow> string option
    \<Rightarrow> bool \<Rightarrow> int list \<Rightarrow> bool \<Rightarrow> bool \<Rightarrow> bench_turn list \<Rightarrow> (int \<times> int \<times> int) list \<Rightarrow> wb_stop + (int \<times> bench_counts)" where
  "webbench_run inet_addr gethostbyname sys argc opts url pipe_ok pids sigaction_ok opened turns reports =
     and_then (wb_main argc opts url) (\<lambda>s.
       bench s (fst (WB_Socket inet_addr gethostbyname sys (bench_target s) (proxyport s))) pipe_ok pids sigaction_ok opened turns reports)"

text \<open>A server that cannot be reached ends it with status 1 before anything is forked.\<close>

lemma webbench_unreachable:
  assumes "wb_main argc opts url = Inr s" and "inet_addr (bench_target s) = None" and "gethostbyname (bench_target s) = None"
  shows "webbench_run inet_addr gethostbyname sys argc opts url pipe_ok pids sigaction_ok opened turns reports = Inl (Exit 1)"
  by (simp add: webbench_run_def assms WB_Socket_def bench_def)

section \<open>Lemmas on the request\<close>

lemma strchr_append: "c \<notin> set u \<Longrightarrow> strchr c (u @ c # x) = Some (length u)"
proof -
  assume "c \<notin> set u"
  then have "takeWhile (\<lambda>x. x \<noteq> c) (u @ c # x) = u" by (subst takeWhile_append2) auto
  then show ?thesis by (simp add: strchr_def)
qed

text \<open>URLs with and without a port.\<close>

definition web_url :: "string \<Rightarrow> string option \<Rightarrow> string \<Rightarrow> string" where
  "web_url h port path = ''http://'' @ h @ (case port of None \<Rightarrow> [] | Some p \<Rightarrow> CHR '':'' # p) @ path"

definition url_ok :: "string \<Rightarrow> string option \<Rightarrow> string \<Rightarrow> bool" where
  "url_ok h port path \<longleftrightarrow> CHR '':'' \<notin> set h \<and> CHR ''/'' \<notin> set h \<and> path \<noteq> [] \<and> hd path = CHR ''/''
     \<and> (case port of None \<Rightarrow> True | Some p \<Rightarrow> CHR ''/'' \<notin> set p) \<and> length (web_url h port path) \<le> 1500"

definition port_number :: "string option \<Rightarrow> webbench \<Rightarrow> wb_stop + int" where
  "port_number port s = (case port of None \<Rightarrow> Inr (proxyport s)
     | Some p \<Rightarrow> and_then (checked (atoi p)) (\<lambda>n. Inr (if n = 0 then 80 else n)))"

lemma url_slash:
  assumes "url_ok h port path"
  shows "strchr CHR ''/'' (h @ (case port of None \<Rightarrow> [] | Some p \<Rightarrow> CHR '':'' # p) @ path)
    = Some (length h + (case port of None \<Rightarrow> 0 | Some p \<Rightarrow> Suc (length p)))"
proof -
  obtain x where path: "path = CHR ''/'' # x" using assms by (cases path) (auto simp: url_ok_def)
  let ?u = "h @ (case port of None \<Rightarrow> [] | Some p \<Rightarrow> CHR '':'' # p)"
  have "CHR ''/'' \<notin> set ?u" using assms by (auto simp: url_ok_def split: option.splits)
  from strchr_append[OF this, of x] show ?thesis by (simp add: path split: option.split)
qed

lemma url_target_ok:
  assumes ok: "url_ok h port path"
  shows "url_target (h @ (case port of None \<Rightarrow> [] | Some p \<Rightarrow> CHR '':'' # p) @ path) s =
    (if MAXHOSTNAMELEN \<le> length h \<or> (case port of None \<Rightarrow> False | Some p \<Rightarrow> 10 \<le> length p) then Inl (Undefined OutOfBounds)
     else and_then (port_number port s) (\<lambda>n. Inr (s\<lparr>wb_host := h, proxyport := n\<rparr>)))"
proof (cases port)
  case None
  obtain x where path: "path = CHR ''/'' # x" using ok by (cases path) (auto simp: url_ok_def)
  have slash: "strchr CHR ''/'' (h @ path) = Some (length h)" using url_slash[OF ok] None by simp
  have colon: "\<not> k < length h" if "strchr CHR '':'' (h @ path) = Some k" for k
  proof -
    have "takeWhile (\<lambda>x. x \<noteq> CHR '':'') (h @ path) = h @ takeWhile (\<lambda>x. x \<noteq> CHR '':'') path"
      using ok by (intro takeWhile_append2) (auto simp: url_ok_def)
    with that show ?thesis by (auto simp: strchr_def split: if_splits)
  qed
  show ?thesis
    using colon by (cases "strchr CHR '':'' (h @ path)") (simp_all add: url_target_def None slash port_number_def)
next
  case (Some p)
  have slash: "strchr CHR ''/'' (h @ CHR '':'' # p @ path) = Some (length h + Suc (length p))" using url_slash[OF ok] Some by simp
  have "CHR '':'' \<notin> set h" using ok by (simp add: url_ok_def)
  from strchr_append[OF this, of "p @ path"] slash show ?thesis
    by (simp add: url_target_def Some Let_def port_number_def and_then_assoc)
qed

lemma web_url_parts:
  assumes "url_ok h port path"
  shows "find_sub ''://'' (web_url h port path) = Some 4" "length (web_url h port path) \<le> 1500"
    "map tolower (take 7 (web_url h port path)) = ''http://''"
    "drop 7 (web_url h port path) = h @ (case port of None \<Rightarrow> [] | Some p \<Rightarrow> CHR '':'' # p) @ path"
  using assms by (simp_all add: web_url_def url_ok_def tolower_def char_of_eq_iff eval_nat_numeral)

lemma take_url: "path \<noteq> [] \<Longrightarrow> drop (length h + (case port of None \<Rightarrow> 0 | Some p \<Rightarrow> Suc (length p)))
    (h @ (case port of None \<Rightarrow> [] | Some p \<Rightarrow> CHR '':'' # p) @ path) = path"
  by (cases port) simp_all

lemma raise_version_keeps: "proxyhost (raise_version s) = proxyhost s" "wb_method (raise_version s) = wb_method s"
  "wb_host (raise_version s) = wb_host s" "force_reload (raise_version s) = force_reload s" "proxyport (raise_version s) = proxyport s"
  by (simp_all add: raise_version_def Let_def)

lemma request_tail_length: "length (wb_host s) < MAXHOSTNAMELEN \<Longrightarrow> length (request_tail s) \<le> 160"
  by (simp add: request_tail_def crlf_def MAXHOSTNAMELEN_def)

text \<open>The request of a direct benchmark; the array of 2048 bytes is always large enough.\<close>

lemma build_request_direct:
  assumes ok: "url_ok h port path" and direct: "proxyhost s = None"
  shows "build_request (web_url h port path) s =
    (if MAXHOSTNAMELEN \<le> length h \<or> (case port of None \<Rightarrow> False | Some p \<Rightarrow> 10 \<le> length p) then Inl (Undefined OutOfBounds)
     else and_then (port_number port s) (\<lambda>n.
       let s' = (raise_version (s\<lparr>wb_host := [], wb_request := []\<rparr>))\<lparr>wb_host := h, proxyport := n\<rparr> in
       Inr (s'\<lparr>wb_request := method_name (wb_method s) @ '' '' @ path @ request_tail s'\<rparr>)))"
proof -
  let ?s = "raise_version (s\<lparr>wb_host := [], wb_request := []\<rparr>)"
  have s: "proxyhost ?s = None" "wb_method ?s = wb_method s" "proxyport ?s = proxyport s" by (simp_all add: raise_version_keeps direct)
  have path: "path \<noteq> []" "length path \<le> 1500" using ok by (auto simp: url_ok_def web_url_def)
  have port: "port_number port ?s = port_number port s" by (simp add: port_number_def s split: option.split)
  have "length (method_name (wb_method s)) \<le> 7" by (simp add: method_name_def)
  then have small: "length h < MAXHOSTNAMELEN \<Longrightarrow> length (method_name (wb_method s) @ '' '' @ path @ request_tail
      (?s\<lparr>wb_host := h, proxyport := n\<rparr>)) < REQUEST_SIZE" for n
    using path(2) request_tail_length[of "?s\<lparr>wb_host := h, proxyport := n\<rparr>"] by (simp add: REQUEST_SIZE_def)
  define u where "u = h @ (case port of None \<Rightarrow> [] | Some p \<Rightarrow> CHR '':'' # p) @ path"
  define k where "k = length h + (case port of None \<Rightarrow> 0 | Some p \<Rightarrow> Suc (length p))"
  have u: "drop 7 (web_url h port path) = u" "strchr CHR ''/'' u = Some k" "drop k u = path"
    using web_url_parts(4)[OF ok] url_slash[OF ok] take_url[OF path(1)] by (simp_all only: u_def k_def)
  have short: "\<not> 1500 < length (web_url h port path)" using web_url_parts(2)[OF ok] by simp
  note target = url_target_ok[OF ok, of ?s, folded u_def, unfolded port]
  show ?thesis
  proof (cases "MAXHOSTNAMELEN \<le> length h \<or> (case port of None \<Rightarrow> False | Some p \<Rightarrow> 10 \<le> length p)")
    case True
    then show ?thesis by (simp add: build_request_def web_url_parts(1,3)[OF ok] short s u target Let_def)
  next
    case False
    then have "length h < MAXHOSTNAMELEN" by simp
    note small = small[OF this]
    from False show ?thesis
      using small by (cases "port_number port s")
        (simp_all add: build_request_def web_url_parts(1,3)[OF ok] short s u target Let_def not_le del: length_append)
  qed
qed

section \<open>The request at the server\<close>

text \<open>What a GET or HEAD request of webbench is to the parser.\<close>

definition wb_headers :: "string \<Rightarrow> int \<Rightarrow> (string \<times> string) list" where
  "wb_headers h version = [(''User-Agent'', ''WebBench 1.5''), (''Host'', h)] @ (if version = 2 then [(''Connection'', ''close'')] else [])"

definition wb_client :: "string \<Rightarrow> string \<Rightarrow> webbench \<Rightarrow> client_request" where
  "wb_client h path s = (method_name (wb_method s), path, if http10 s = 1 then ''HTTP/1.0'' else ''HTTP/1.1'', [], wb_headers h (http10 s), [])"

lemma wb_client_text:
  assumes "proxyhost s = None" and "http10 s = 1 \<or> http10 s = 2" and "wb_host s = h"
  shows "method_name (wb_method s) @ '' '' @ path @ request_tail s = print_client (wb_client h path s)"
  using assms(2) by (auto simp: request_tail_def assms(1,3) print_client_def wb_client_def raw_request_def raw_line_def print_header_def wb_headers_def)

lemma wb_client_ok:
  assumes "wb_method s = METHOD_GET \<or> wb_method s = METHOD_HEAD" and "length path \<le> 1500" and "newline \<notin> set path" "CHR ''?'' \<notin> set path"
    and "newline \<notin> set h" "length h < MAXHOSTNAMELEN"
  shows "client_ok (wb_client h path s)"
proof -
  have m: "method_name (wb_method s) \<in> set methods" "length (method_name (wb_method s)) \<le> 4"
    using assms(1) by (auto simp: method_name_def METHOD_GET_def METHOD_HEAD_def METHOD_OPTIONS_def METHOD_TRACE_def methods_def)
  have host: "header_ok (''Host'', h)" using assms(5,6) by (simp add: header_ok_def newline_def MAX_LINE_def MAXHOSTNAMELEN_def)
  have other: "header_ok (''User-Agent'', ''WebBench 1.5'')" "header_ok (''Connection'', ''close'')"
    by (simp_all add: header_ok_def newline_def MAX_LINE_def)
  have "length (raw_line (method_name (wb_method s)) path v []) \<le> MAX_LINE" if "length v = 8" for v
    using m(2) assms(2) that by (simp add: raw_line_def MAX_LINE_def crlf_def)
  with m host other show ?thesis
    using assms(3,4) by (auto simp: client_ok_def wb_client_def raw_ok_def length_ok_def wb_headers_def max_size_def)
qed

text \<open>A refused first line: the error page and the end of the connection.\<close>

lemma serve_refused:
  assumes "newline \<notin> set l" and "length l + 2 \<le> MAX_LINE" and "\<nexists>m p q v eol. request_line_form (l @ crlf) m p q v eol"
  shows "serve order fs srv (l @ crlf @ rest) HttpContext_new = Inr (error_text order (bad 400 HttpContext_new), True, HttpContext_new, [])"
proof -
  have "l @ crlf @ rest \<noteq> []" by (simp add: crlf_def)
  from serve_round(1)[OF this recv_bytes_refused[OF assms] ctx_rest_new(1), of order fs srv] show ?thesis by (simp add: bad_def)
qed

text \<open>A request line has two spaces, and a method the server knows.\<close>

lemma one_space_refused:
  assumes "CHR '' '' \<notin> set u" "CHR '' '' \<notin> set w"
  shows "\<nexists>m p q v eol. request_line_form ((u @ '' '' @ w) @ crlf) m p q v eol"
proof clarify
  fix m p q v eol assume "request_line_form ((u @ '' '' @ w) @ crlf) m p q v eol"
  then have "count_list ((u @ '' '' @ w) @ crlf) CHR '' '' \<ge> 2" by (auto simp: request_line_form_def)
  moreover have "count_list ((u @ '' '' @ w) @ crlf) CHR '' '' = 1" using assms by (simp add: crlf_def)
  ultimately show False by simp
qed

section \<open>Lemmas on the counters\<close>

text \<open>Every turn of a client's loop counts once, as a success or as a failure; the bytes only grow.\<close>

lemma add_int_eq: "add_int a b = Inr n \<longleftrightarrow> n = a + b \<and> - (2 ^ 31) \<le> a + b \<and> a + b < 2 ^ 31"
  by (auto simp: add_int_def)

lemma read_reply_grows: "read_reply is n = Inr (ok, m) \<Longrightarrow> n \<le> m"
  by (induction "is" arbitrary: n) (auto simp: and_then_eq_Inr add_int_eq split: if_splits, fastforce)

lemma bench_once_counts:
  "bench_once s t c = Inr c' \<Longrightarrow> speed c' + failed c' = speed c + failed c + 1 \<and> speed c \<le> speed c' \<and> failed c \<le> failed c' \<and> bytes c \<le> bytes c'"
  by (auto simp: bench_once_def count_failed_def and_then_eq_Inr add_int_eq Let_def dest: read_reply_grows split: if_splits)

lemma bench_loop_counts:
  "bench_loop s ts c = Inr c' \<Longrightarrow> 0 \<le> failed c \<Longrightarrow>
     (speed c' + failed c' = speed c + failed c + int (length ts) - 1
       \<or> speed c' + failed c' = speed c + failed c + int (length ts) \<and> failed c' = 0)
   \<and> speed c \<le> speed c' \<and> bytes c \<le> bytes c' \<and> 0 \<le> failed c'"
proof (induction ts arbitrary: c)
  case (Cons t ts)
  from Cons.prems(1) obtain c1 where c1: "bench_once s t c = Inr c1" "bench_loop s ts c1 = Inr c'" by (auto simp: and_then_eq_Inr)
  note once = bench_once_counts[OF c1(1)]
  with Cons.IH[OF c1(2)] Cons.prems(2) show ?case by auto
qed (auto split: if_splits)

text \<open>The parent, when every child reports: the sums, and the last child's successes.\<close>

lemma add_intD: "add_int a b = Inr n \<Longrightarrow> n = a + b"
  by (simp add: add_int_def split: if_splits)

lemma bench_sum_step:
  assumes "bench_sum ((a, b, k) # ls) n c i = Inr r"
  defines "c1 \<equiv> c\<lparr>speed := speed c + a, failed := failed c + b, bytes := bytes c + k\<rparr>"
  shows "if n = 1 then r = (c1, a) else bench_sum ls (n - 1) c1 a = Inr r"
proof -
  from assms(1) obtain sp fl bs where x: "add_int (speed c) a = Inr sp" "add_int (failed c) b = Inr fl" "add_int (bytes c) k = Inr bs"
    by (auto simp: and_then_eq_Inr)
  with assms(1) show ?thesis by (simp add: add_intD[OF x(1)] add_intD[OF x(2)] add_intD[OF x(3)] c1_def Let_def split: if_splits)
qed

lemma bench_sum_all:
  "length ls = n \<Longrightarrow> 0 < n \<Longrightarrow> bench_sum ls (int n) c i = Inr (c', i') \<Longrightarrow>
     speed c' = speed c + sum_list (map fst ls) \<and> failed c' = failed c + sum_list (map (fst \<circ> snd) ls)
   \<and> bytes c' = bytes c + sum_list (map (snd \<circ> snd) ls) \<and> i' = fst (last ls)"
proof (induction ls arbitrary: n c i)
  case (Cons l ls)
  obtain a b k where l: "l = (a, b, k)" by (cases l)
  note step = bench_sum_step[OF Cons.prems(3)[unfolded l]]
  show ?case
  proof (cases "ls = []")
    case True
    with Cons.prems(1) step show ?thesis by (simp add: l)
  next
    case False
    then obtain m where m: "length ls = Suc m" by (cases ls) auto
    with Cons.prems(1) have n: "length ls = n - 1" "0 < n - 1" "int n - 1 = int (n - 1)" "int n \<noteq> 1" by auto
    have "bench_sum ls (int (n - 1)) (c\<lparr>speed := speed c + a, failed := failed c + b, bytes := bytes c + k\<rparr>) a = Inr (c', i')"
      using step by (simp only: n(3,4) if_False)
    from Cons.IH[OF n(1,2) this] False show ?thesis by (simp add: l)
  qed
qed simp

lemma bench_fork_parent:
  assumes "0 < n" and "\<forall>pid \<in> set pids. 0 < pid"
  shows "bench_fork n pids = Role_parent"
proof -
  have "filter (\<lambda>pid. pid \<le> 0) (take (nat n) pids) = []"
    using assms(2) by (auto simp: filter_empty_conv not_le dest!: in_set_takeD)
  with assms(1) show ?thesis by (simp add: bench_fork_def)
qed

text \<open>A response to a client that asks to close says so, unless its handler has asked to keep the connection.\<close>

lemma close_answered:
  assumes "Request_Close req"
  shows "Response_Close (complete_response req rsp) \<longleftrightarrow> rs_GetHeader ''Connection'' rsp \<noteq> ''keep-alive''"
proof -
  let ?rsp = "rs_SetHeader ''Connection'' ''close'' rsp"
  have "rs_GetHeader ''Connection'' (complete_response req rsp) = rs_GetHeader ''Connection'' ?rsp"
    "rs_HasHeader ''Connection'' (complete_response req rsp)"
    using assms by (auto simp: complete_response_def Let_def response_headers.get_ins response_headers.has_ins)
  then show ?thesis
    by (auto simp: Response_Close_def response_headers.get_ins response_headers.has_look response_headers.get_look)
qed

lemma Route_keeps_headers:
  assumes "rq_method req \<in> set methods" and "rq_path req \<noteq> []" and "Route fs srv req rsp = Inr (req', rsp')"
  shows "rq_headers req' = rq_headers req"
  using assms(3) unfolding Route_answer[OF assms(1,2)]
  by (auto simp: and_then_eq_Inr Let_def split: if_splits option.splits file_node.splits prod.splits)

lemma Route_no_handler:
  assumes "rq_method req \<in> set methods" and "rq_path req \<noteq> []"
    and "is_static fs srv req \<or> find (handles (rq_path req)) (route_table srv (rq_method req)) = None"
  shows "case Route fs srv req (HttpResponse_new 200) of Inl e \<Rightarrow> False | Inr (req', rsp) \<Rightarrow> rs_GetHeader ''Connection'' rsp = []"
  using assms(3) unfolding Route_answer[OF assms(1,2)]
  by (auto simp: HttpResponse_new_def response_headers.get_look rs_SetHeader_def map_insert_def split: option.splits file_node.splits)

lemma Request_Close_cong: "rq_headers r = rq_headers r' \<Longrightarrow> Request_Close r = Request_Close r'"
  by (simp only: Request_Close_def HasHeader_def GetHeader_def)

lemma answer_closes:
  assumes "rq_method rq \<in> set methods" and "rq_path rq \<noteq> []" and "Request_Close rq"
  shows "answer order fs srv rq = (case Route fs srv rq (HttpResponse_new 200) of Inl e \<Rightarrow> Inl e
      | Inr (req, rsp) \<Rightarrow> Inr (response_text order req (complete_response req rsp), rs_GetHeader ''Connection'' rsp \<noteq> ''keep-alive''))"
proof (cases "Route fs srv rq (HttpResponse_new 200)")
  case (Inr r)
  then obtain req rsp where r: "Route fs srv rq (HttpResponse_new 200) = Inr (req, rsp)" by (cases r) auto
  from Route_keeps_headers[OF assms(1,2) r] have "Request_Close req" using assms(3) Request_Close_cong by blast
  then show ?thesis by (simp add: answer_def r Let_def close_answered)
qed (simp add: answer_def)

lemma UrlDecode_eq_Nil [simp]: "UrlDecode u conv = [] \<longleftrightarrow> u = []"
  by (cases u) auto

section \<open>Properties\<close>

text \<open>
  C24. What webbench sends the server answers.  For a GET or HEAD benchmark of a URL without a proxy, over
  HTTP/1.0 or 1.1, with a host shorter than its array and a path without a query, build_request
  fills in host, port and request, and the HTTP server takes the request for one of that method and
  decoded path without a body, answers it with the response of its route and leaves nothing unread.
  The connection is closed after it, which is what webbench's read loop waits for, unless the
  handler itself has set keep-alive in its response; the answer with a static file or for a path
  without a handler always closes.
\<close>

theorem webbench_request_answered:
  assumes "url_ok h port path" and "proxyhost s = None" and "wb_method s = METHOD_GET \<or> wb_method s = METHOD_HEAD"
    and "http10 s = 1 \<or> http10 s = 2" and "length h < MAXHOSTNAMELEN" and "newline \<notin> set h"
    and "case port of None \<Rightarrow> True | Some p \<Rightarrow> length p < 10" and "port_number port s = Inr n"
    and "newline \<notin> set path" and "CHR ''?'' \<notin> set path"
  shows "\<exists>s' rq. build_request (web_url h port path) s = Inr s' \<and> wb_host s' = h \<and> proxyport s' = n
     \<and> rq_method rq = method_name (wb_method s) \<and> rq_path rq = UrlDecode path False \<and> rq_body rq = [] \<and> Request_Close rq
     \<and> serve order fs srv (wb_request s') HttpContext_new =
         (case Route fs srv rq (HttpResponse_new 200) of Inl e \<Rightarrow> Inl e
          | Inr (req, rsp) \<Rightarrow> Inr (response_text order req (complete_response req rsp),
              rs_GetHeader ''Connection'' rsp \<noteq> ''keep-alive'', HttpContext_new, []))
     \<and> (is_static fs srv rq \<or> find (handles (rq_path rq)) (route_table srv (rq_method rq)) = None
         \<longrightarrow> (\<exists>page. serve order fs srv (wb_request s') HttpContext_new = Inr (page, True, HttpContext_new, [])))"
proof -
  let ?s = "(raise_version (s\<lparr>wb_host := [], wb_request := []\<rparr>))\<lparr>wb_host := h, proxyport := n\<rparr>"
  have v: "proxyhost ?s = None" "http10 ?s = http10 s" "wb_host ?s = h" "wb_method ?s = wb_method s"
    using assms(2-4) by (auto simp: raise_version_def METHOD_GET_def METHOD_HEAD_def METHOD_OPTIONS_def METHOD_TRACE_def)
  define r where "r = wb_client h path ?s"
  have "length path \<le> 1500" using assms(1) by (auto simp: url_ok_def web_url_def)
  with wb_client_ok[of ?s path h] assms(3,5,6,9,10) have ok: "client_ok r" by (simp add: v r_def)
  have wire: "method_name (wb_method s) @ '' '' @ path @ request_tail ?s = print_client r"
    using wb_client_text[of ?s h path] assms(4) by (simp only: v r_def)
  from assms(5,7) have "\<not> (MAXHOSTNAMELEN \<le> length h \<or> (case port of None \<Rightarrow> False | Some p \<Rightarrow> 10 \<le> length p))"
    by (auto split: option.splits)
  with build_request_direct[OF assms(1,2)] assms(8)
  have b: "build_request (web_url h port path) s = Inr (?s\<lparr>wb_request := print_client r\<rparr>)" by (simp add: Let_def wire[simplified])
  have "received (method_name (wb_method s)) (UrlDecode path False) (if http10 s = 1 then ''HTTP/1.0'' else ''HTTP/1.1'') []
      (wb_headers h (http10 s)) [] (parsed_client r)"
    using received_parsed by (simp add: r_def wb_client_def parsed_client_def v)
  then have rq: "rq_method (request (parsed_client r)) = method_name (wb_method s)" "rq_path (request (parsed_client r)) = UrlDecode path False"
    "rq_body (request (parsed_client r)) = []" "map_of (rq_headers (request (parsed_client r))) = map_of (wb_headers h (http10 s))"
    by (simp_all only: received_def)
  let ?rq = "request (parsed_client r)"
  have close: "Request_Close ?rq"
    using rq(4) by (simp add: Request_Close_def request_headers.has_look request_headers.get_look wb_headers_def)
  have routed: "rq_method ?rq \<in> set methods" "rq_path ?rq \<noteq> []"
    using assms(1,3) unfolding rq(1,2)
    by (auto simp: method_name_def METHOD_GET_def METHOD_HEAD_def METHOD_OPTIONS_def METHOD_TRACE_def methods_def
        url_ok_def UrlDecode_eq_Nil)
  have "answer order fs srv ?rq = (case Route fs srv ?rq (HttpResponse_new 200) of Inl e \<Rightarrow> Inl e
      | Inr (req, rsp) \<Rightarrow> Inr (response_text order req (complete_response req rsp), rs_GetHeader ''Connection'' rsp \<noteq> ''keep-alive''))"
    by (rule answer_closes[OF routed close])
  moreover have "serve order fs srv (print_client r) HttpContext_new
      = and_then (answer order fs srv (request (parsed_client r))) (\<lambda>(page, closing). Inr (page, closing, HttpContext_new, []))"
    using serve_pipeline[of "[r]" order fs srv] ok by (cases "answer order fs srv (request (parsed_client r))") auto
  ultimately have served: "serve order fs srv (print_client r) HttpContext_new =
         (case Route fs srv ?rq (HttpResponse_new 200) of Inl e \<Rightarrow> Inl e
          | Inr (req, rsp) \<Rightarrow> Inr (response_text order req (complete_response req rsp),
              rs_GetHeader ''Connection'' rsp \<noteq> ''keep-alive'', HttpContext_new, []))"
    by (auto split: sum.splits)
  have "is_static fs srv ?rq \<or> find (handles (rq_path ?rq)) (route_table srv (rq_method ?rq)) = None
      \<longrightarrow> (\<exists>page. serve order fs srv (print_client r) HttpContext_new = Inr (page, True, HttpContext_new, []))"
  proof
    assume "is_static fs srv ?rq \<or> find (handles (rq_path ?rq)) (route_table srv (rq_method ?rq)) = None"
    from Route_no_handler[OF routed this] obtain req rsp
      where "Route fs srv ?rq (HttpResponse_new 200) = Inr (req, rsp)" "rs_GetHeader ''Connection'' rsp = []"
      by (auto split: sum.splits)
    then show "\<exists>page. serve order fs srv (print_client r) HttpContext_new = Inr (page, True, HttpContext_new, [])"
      unfolding served by simp
  qed
  moreover have "wb_host (?s\<lparr>wb_request := print_client r\<rparr>) = h" "proxyport (?s\<lparr>wb_request := print_client r\<rparr>) = n"
    "wb_request (?s\<lparr>wb_request := print_client r\<rparr>) = print_client r" by simp_all
  ultimately show ?thesis using served b rq(1-3) close
    by (intro exI[of _ "?s\<lparr>wb_request := print_client r\<rparr>"] exI[of _ ?rq] conjI) (simp_all only:)
qed

theorem webbench_request_answered_witness:
  "\<exists>s'. build_request ''http://127.0.0.1:8085/hello'' (webbench_globals\<lparr>http10 := 2\<rparr>) = Inr s' \<and> proxyport s' = 8085
     \<and> (\<exists>page. serve id (\<lambda>_. None) example_http (wb_request s') HttpContext_new = Inr (page, True, HttpContext_new, []))"
proof -
  let ?s = "webbench_globals\<lparr>http10 := 2\<rparr>"
  have "stol ''8085'' = Inr 8085" by (simp add: stol_def isspace_def isdigit_def digits_value_def)
  then have port: "port_number (Some ''8085'') ?s = Inr 8085" by (simp add: port_number_def atoi_def)
  have s: "proxyhost ?s = None" "wb_method ?s = METHOD_GET \<or> wb_method ?s = METHOD_HEAD" "http10 ?s = 1 \<or> http10 ?s = 2"
    by (simp_all add: webbench_globals_def)
  have url: "url_ok ''127.0.0.1'' (Some ''8085'') ''/hello''" by (simp add: url_ok_def web_url_def)
  from webbench_request_answered[OF url s _ _ _ port, of id "\<lambda>_. None" example_http] obtain s' rq where
    b: "build_request (web_url ''127.0.0.1'' (Some ''8085'') ''/hello'') ?s = Inr s'" "proxyport s' = 8085"
      "rq_method rq = ''GET''" "rq_path rq = UrlDecode ''/hello'' False"
    and run: "serve id (\<lambda>_. None) example_http (wb_request s') HttpContext_new
        = (case Route (\<lambda>_. None) example_http rq (HttpResponse_new 200) of Inl e \<Rightarrow> Inl e
          | Inr (req, rsp) \<Rightarrow> Inr (response_text id req (complete_response req rsp),
              rs_GetHeader ''Connection'' rsp \<noteq> ''keep-alive'', HttpContext_new, []))"
    by (auto simp: MAXHOSTNAMELEN_def newline_def webbench_globals_def method_name_def METHOD_GET_def METHOD_HEAD_def METHOD_OPTIONS_def METHOD_TRACE_def)
  have "rq_path rq = ''/hello''" unfolding b(4) by code_simp
  then have "\<exists>req rsp. Route (\<lambda>_. None) example_http rq (HttpResponse_new 200) = Inr (req, rsp)
      \<and> rs_GetHeader ''Connection'' rsp \<noteq> ''keep-alive''"
    using b(3) by (simp add: Route_answer methods_def is_static_def example_http_def Get_def HttpServer_new_def route_table_def Let_def
        SetContent_def HttpResponse_new_def response_headers.get_ins rs_GetHeader_def map_get_def split: if_split)
  with run b(1,2) show ?thesis by (auto simp: web_url_def)
qed

text \<open>
  The other requests are refused: OPTIONS and TRACE are no methods of the server, and the request of
  HTTP/0.9 has no version, so each gets the page for status 400.
\<close>

theorem webbench_other_requests_refused:
  assumes "url_ok h port path" and "proxyhost s = None"
    and "wb_method s = METHOD_OPTIONS \<or> wb_method s = METHOD_TRACE \<or> wb_method s = METHOD_GET \<and> http10 s = 0"
    and "length h < MAXHOSTNAMELEN" and "case port of None \<Rightarrow> True | Some p \<Rightarrow> length p < 10" and "port_number port s = Inr n"
    and "newline \<notin> set path" and "CHR '' '' \<notin> set path" and "http10 s \<le> 2"
  shows "\<exists>s'. build_request (web_url h port path) s = Inr s'
     \<and> serve order fs srv (wb_request s') HttpContext_new = Inr (error_text order (bad 400 HttpContext_new), True, HttpContext_new, [])"
proof -
  let ?s = "(raise_version (s\<lparr>wb_host := [], wb_request := []\<rparr>))\<lparr>wb_host := h, proxyport := n\<rparr>"
  from assms(4,5) have "\<not> (MAXHOSTNAMELEN \<le> length h \<or> (case port of None \<Rightarrow> False | Some p \<Rightarrow> 10 \<le> length p))"
    by (auto split: option.splits)
  with build_request_direct[OF assms(1,2)] assms(6)
  have b: "build_request (web_url h port path) s = Inr (?s\<lparr>wb_request := method_name (wb_method s) @ '' '' @ path @ request_tail ?s\<rparr>)"
    by (simp add: Let_def)
  have path: "length path \<le> 1500" using assms(1) by (auto simp: url_ok_def web_url_def)
  have "\<exists>l rest. method_name (wb_method s) @ '' '' @ path @ request_tail ?s = l @ crlf @ rest \<and> newline \<notin> set l
     \<and> length l + 2 \<le> MAX_LINE \<and> (\<nexists>m p q v eol. request_line_form (l @ crlf) m p q v eol)"
  proof (cases "wb_method s = METHOD_GET")
    case True
    with assms(2,3) have "request_tail ?s = crlf"
      by (simp add: request_tail_def raise_version_def METHOD_GET_def METHOD_HEAD_def METHOD_OPTIONS_def METHOD_TRACE_def)
    moreover have "method_name (wb_method s) = ''GET''"
      by (simp add: True method_name_def METHOD_GET_def METHOD_HEAD_def METHOD_OPTIONS_def METHOD_TRACE_def)
    moreover have "newline \<notin> set (''GET'' @ '' '' @ path)" "length (''GET'' @ '' '' @ path) + 2 \<le> MAX_LINE"
      using assms(7) path by (simp_all add: newline_def MAX_LINE_def)
    moreover have "CHR '' '' \<notin> set ''GET''" by simp
    ultimately show ?thesis
      using one_space_refused[of "''GET''" path] assms(8) by (intro exI[of _ "''GET'' @ '' '' @ path"] exI[of _ "[]"]) simp
  next
    case False
    define u where "u = method_name (wb_method s)"
    from False assms(3) have u: "u = ''OPTIONS'' \<or> u = ''TRACE''"
      by (auto simp: u_def method_name_def METHOD_GET_def METHOD_HEAD_def METHOD_OPTIONS_def METHOD_TRACE_def)
    from False assms(3,9) have "http10 ?s = 2"
      by (auto simp: raise_version_def Let_def METHOD_GET_def METHOD_HEAD_def METHOD_OPTIONS_def METHOD_TRACE_def)
    then obtain rest where rest: "request_tail ?s = '' HTTP/1.1'' @ crlf @ rest" by (simp add: request_tail_def)
    let ?l = "u @ '' '' @ path @ '' HTTP/1.1''"
    have "takeWhile (\<lambda>c. c \<noteq> CHR '' '') (?l @ crlf) = u" using u by auto
    moreover have "map toupper u \<notin> set methods" using u by (auto simp: methods_def toupper_def)
    ultimately have "\<nexists>m p q v eol. request_line_form (?l @ crlf) m p q v eol" by (intro no_method_refused) simp
    moreover have "newline \<notin> set ?l" "length ?l + 2 \<le> MAX_LINE" using u assms(7) path by (auto simp: newline_def MAX_LINE_def)
    ultimately show ?thesis by (intro exI[of _ ?l] exI[of _ rest]) (simp add: rest u_def[symmetric])
  qed
  then obtain l rest where l: "method_name (wb_method s) @ '' '' @ path @ request_tail ?s = l @ crlf @ rest" "newline \<notin> set l"
    "length l + 2 \<le> MAX_LINE" "\<nexists>m p q v eol. request_line_form (l @ crlf) m p q v eol" by blast
  from serve_refused[OF l(2-4)] b show ?thesis unfolding l(1) by simp
qed

text \<open>A host as long as its array, or a port of ten digits, is written past the array's end (or leaves it without a NUL).\<close>

theorem webbench_host_overflow:
  assumes "url_ok h port path" and "proxyhost s = None" and "MAXHOSTNAMELEN \<le> length h"
  shows "build_request (web_url h port path) s = Inl (Undefined OutOfBounds)"
  by (simp add: build_request_direct[OF assms(1,2)] assms(3))

text \<open>With a count of clients that is not positive nothing is forked, and the parent takes itself for a child.\<close>

lemma negative_clients_child: "n \<le> 0 \<Longrightarrow> bench_fork n pids = Role_child"
  by (simp add: bench_fork_def)

text \<open>
  The exit status of a benchmark that went well is not 0: bench returns the number of successes the
  last child has reported, while the sums it prints are right.
\<close>

theorem bench_returns_last_child:
  assumes "0 \<le> available" and "\<forall>pid \<in> set pids. 0 < pid" and "0 < clients s" and "int (length reports) = clients s"
    and "bench s available True pids sigaction_ok True turns reports = Inr (status, c)"
  shows "status = fst (last reports) \<and> speed c = sum_list (map fst reports) \<and> failed c = sum_list (map (fst \<circ> snd) reports)
     \<and> bytes c = sum_list (map (snd \<circ> snd) reports)"
proof -
  have "bench_sum reports (int (length reports)) no_counts (clients s) = Inr (c, status)"
    using assms(1,5) bench_fork_parent[OF assms(3,2)] unfolding assms(4)
    by (auto simp: bench_def checked_def and_then_eq_Inr split: sum.splits)
  moreover have "0 < length reports" using assms(3,4) by linarith
  ultimately show ?thesis using bench_sum_all[OF refl, of reports no_counts "clients s" c status] by (simp add: no_counts_def)
qed

theorem bench_returns_last_child_witness:
  "\<exists>c. bench (webbench_globals\<lparr>clients := 2\<rparr>) 3 True [100, 101] True True [] [(5, 0, 10), (7, 1, 14)] = Inr (7, c) \<and> speed c = 12"
proof -
  have "\<exists>c status. bench (webbench_globals\<lparr>clients := 2\<rparr>) 3 True [100, 101] True True [] [(5, 0, 10), (7, 1, 14)] = Inr (status, c)"
    by (simp add: bench_def bench_fork_def no_counts_def webbench_globals_def add_int_def)
  then obtain c status where b: "bench (webbench_globals\<lparr>clients := 2\<rparr>) 3 True [100, 101] True True [] [(5, 0, 10), (7, 1, 14)] = Inr (status, c)" by blast
  from bench_returns_last_child[OF _ _ _ _ b] have "status = 7" "speed c = 12" by (simp_all add: webbench_globals_def)
  with b show ?thesis by simp
qed

end
