(* ===== verification/FirstVersions.thy ===== *)
theory FirstVersions
  imports TimerWheel AnyHolder
begin

text \<open>
  The first versions of two components, written as programs of their own: Test/example/timewheel.cc
  and Test/example/any.cc.  They are modelled on the states of the library's components and
  compared with them: the wheel does the same wherever its callers stay within the int arithmetic
  the library added, and Any differs in one assignment, which copies a pointer.
\<close>

section \<open>The timer wheel of timewheel.cc\<close>

definition first_RemoveTimer :: "u64 \<Rightarrow> 'c wheel \<Rightarrow> 'c wheel" where
  "first_RemoveTimer i w =
     (case w_timers w i of None \<Rightarrow> w | Some _ \<Rightarrow> w\<lparr>w_timers := (w_timers w)(i := None)\<rparr>)"

text \<open>The destructor of the task at an address: the callback unless cancelled, then the release.\<close>

definition first_destroy :: "nat \<Rightarrow> 'c wheel \<Rightarrow> 'c wheel \<times> 'c list" where
  "first_destroy a w =
     (case w_objs w a of None \<Rightarrow> (w, [])
      | Some t \<Rightarrow> (first_RemoveTimer (tk_id t) (w\<lparr>w_objs := (w_objs w)(a := None)\<rparr>),
                  if \<not> tk_canceled t then [tk_cb t] else []))"

text \<open>\<open>clear()\<close> of a slot: each shared_ptr goes, a task with its last one.\<close>

fun first_clear :: "nat list \<Rightarrow> 'c wheel \<Rightarrow> 'c wheel \<times> 'c list" where
  "first_clear [] w = (w, [])"
| "first_clear (a # as) w =
     (if a \<in> set as \<or> a \<in> set (concat (w_slots w)) then first_clear as w
      else let (w1, f1) = first_destroy a w; (w2, f2) = first_clear as w1 in (w2, f1 @ f2))"

definition first_RunTimerTask :: "'c wheel \<Rightarrow> fault + ('c wheel \<times> 'c list)" where
  "first_RunTimerTask w =
     (let tick = (w_tick w + 1) mod w_capacity w in
      if tick < length (w_slots w)
      then Inr (first_clear (w_slots w ! tick) (w\<lparr>w_tick := tick, w_slots := (w_slots w)[tick := []]\<rparr>))
      else Inl OutOfBounds)"

definition first_TimerAdd :: "u64 \<Rightarrow> u32 \<Rightarrow> 'c \<Rightarrow> 'c wheel \<Rightarrow> fault + 'c wheel" where
  "first_TimerAdd i delay cb w =
     (let a = w_next w;
          pt = \<lparr>tk_id = i, tk_timeout = delay, tk_canceled = False, tk_cb = cb\<rparr>;
          pos = unat ((of_nat (w_tick w) + delay) mod of_nat (w_capacity w)) in
      and_then (push_slot pos a (w\<lparr>w_objs := (w_objs w)(a \<mapsto> pt), w_next := Suc a\<rparr>)) (\<lambda>w.
      Inr (w\<lparr>w_timers := (w_timers w)(i \<mapsto> a)\<rparr>)))"

text \<open>Here the delay stays a uint32_t, so the sum is unsigned.\<close>

definition first_TimerRefresh :: "u64 \<Rightarrow> 'c wheel \<Rightarrow> fault + 'c wheel" where
  "first_TimerRefresh i w =
     (case w_timers w i of None \<Rightarrow> Inr w
      | Some a \<Rightarrow> (case w_objs w a of None \<Rightarrow> Inl NullDeref
        | Some pt \<Rightarrow> push_slot (unat ((of_nat (w_tick w) + tk_timeout pt) mod of_nat (w_capacity w))) a w))"

definition first_TimerCancel :: "u64 \<Rightarrow> 'c wheel \<Rightarrow> 'c wheel" where
  "first_TimerCancel i w =
     (case w_timers w i of None \<Rightarrow> w
      | Some a \<Rightarrow> (case w_objs w a of None \<Rightarrow> w
        | Some pt \<Rightarrow> w\<lparr>w_objs := (w_objs w)(a \<mapsto> pt\<lparr>tk_canceled := True\<rparr>)\<rparr>))"

fun first_step :: "'c timer_op \<Rightarrow> 'c wheel \<Rightarrow> fault + ('c wheel \<times> 'c list)" where
  "first_step (Add i d cb) w = and_then (first_TimerAdd i d cb w) (\<lambda>w. Inr (w, []))"
| "first_step (Refresh i) w = and_then (first_TimerRefresh i w) (\<lambda>w. Inr (w, []))"
| "first_step (Cancel i) w = Inr (first_TimerCancel i w, [])"
| "first_step Tick w = first_RunTimerTask w"

text \<open>
  main: a task that deletes an object after five seconds is refreshed before each of five ticks, then
  cancelled; the wheel goes on turning, here for \<open>n\<close> ticks.
\<close>

definition timewheel_main :: "'c \<Rightarrow> nat \<Rightarrow> 'c timer_op list" where
  "timewheel_main DelTest n =
     Add 888 5 DelTest # concat (replicate 5 [Refresh 888, Tick]) @ Cancel 888 # replicate n Tick"

section \<open>The wheel against the library's\<close>

lemma first_clear_eq: "first_clear as w = release_ptrs as w"
  by (induction as arbitrary: w)
     (simp_all add: first_destroy_def first_RemoveTimer_def TimerTask_destroy_def RemoveTimer_def cong: option.case_cong)

lemma first_same:
  "first_RunTimerTask w = RunTimerTask w" "first_TimerAdd i d cb w = TimerAddInLoop i d cb w" "first_TimerCancel i w = TimerCancelInLoop i w"
  by (simp_all add: first_RunTimerTask_def RunTimerTask_def first_clear_eq Let_def first_TimerAdd_def TimerAddInLoop_def
      first_TimerCancel_def TimerCancelInLoop_def)

lemma first_TimerRefresh_eq:
  assumes wf: "wheel_wf w"
  shows "first_TimerRefresh i w = TimerRefreshInLoop i w"
proof (cases "w_timers w i")
  case (Some a)
  note D = wheel_wfD[OF wf]
  from D(9)[OF Some] obtain t where t: "w_objs w a = Some t" by blast
  let ?d = "unat (tk_timeout t)"
  have d: "?d + 60 \<le> 2 ^ 31" by (rule D(8)[OF t])
  then have small: "?d < 2 ^ 31" by simp
  have pos: "unat ((of_nat (w_tick w) + tk_timeout t) mod of_nat (w_capacity w)) = (w_tick w + ?d) mod 60"
    using D(1,3) d by (simp add: unat_mod unat_word_ariths unat_of_nat)
  have sum: "int (w_tick w) + sint (tk_timeout t) = int (w_tick w + ?d)" by (simp add: sint_small_u32[OF small])
  have "w_tick w + ?d < 2 ^ 31" using d D(3) by linarith
  note fits = not_le_int_pow31[OF this]
  have nat_mod: "nat (int x mod 60) = x mod 60" for x by (simp add: nat_mod_distrib)
  then show ?thesis
    using fits unfolding first_TimerRefresh_def TimerRefreshInLoop_def Some t option.case Let_def sum pos
    unfolding D(1) by (simp add: nat_mod del: of_nat_add)
qed (simp add: first_TimerRefresh_def TimerRefreshInLoop_def)

lemma first_step_eq: "wheel_wf w \<Longrightarrow> first_step op w = wheel_step op w"
  by (cases op) (simp_all add: first_same first_TimerRefresh_eq)

text \<open>So it implements the same countdown timers.\<close>

interpretation first_timers: op_simulation first_step timer_spec timer_ok wheel_wf wheel_abs
  by (rule op_simulation.intro) (simp add: first_step_eq wheel_step_simulates)

text \<open>Runs in which no timer falls due.\<close>

fun never_due :: "'c timer_op list \<Rightarrow> 'c timers \<Rightarrow> bool" where
  "never_due [] m \<longleftrightarrow> True"
| "never_due (op # ops) m \<longleftrightarrow> (op = Tick \<longrightarrow> timers_due m = {}) \<and> never_due ops (timers_step op m)"

lemma never_due_silent: "spec_run timer_spec ops m outs m' \<Longrightarrow> never_due ops m \<Longrightarrow> concat outs = []"
proof (induction ops arbitrary: m outs)
  case (Cons op ops)
  from Cons.prems(1) obtain fs os b where outs: "outs = fs # os" "timer_spec op m fs b" "spec_run timer_spec ops b os m'"
    by (auto simp: spec_run_Cons)
  have "fs = []" using outs(2) Cons.prems(2) by (cases op) (auto simp: timer_spec_def runs_due_def)
  moreover have "concat os = []" using Cons.IH[OF outs(3)] outs(2) Cons.prems(2) by (simp add: timer_spec_def)
  ultimately show ?case by (simp add: outs(1))
qed (simp add: spec_run_Nil)

lemma cancelled_never_due: "(\<And>i t. m i = Some t \<Longrightarrow> canceled t) \<Longrightarrow> never_due (replicate n Tick) m"
proof (induction n arbitrary: m)
  case (Suc n)
  have "never_due (replicate n Tick) (timers_tick m)"
    by (rule Suc.IH) (use Suc.prems in \<open>auto simp: timers_tick_def split: option.splits if_splits\<close>)
  with Suc.prems show ?case by (auto simp: timers_due_def)
qed simp

lemma refreshed_never_due:
  "m = [888 \<mapsto> \<lparr>remaining = r, period = 5, canceled = False, action = x\<rparr>] \<Longrightarrow>
   never_due (concat (replicate k [Refresh 888, Tick]) @ Cancel 888 # replicate n Tick) m"
proof (induction k arbitrary: m r)
  case 0
  have "never_due (replicate n Tick) (timers_cancel 888 m)"
    by (rule cancelled_never_due) (auto simp: 0 timers_cancel_def split: if_splits)
  then show ?case by simp
next
  case (Suc k)
  have "timers_refresh 888 m = [888 \<mapsto> \<lparr>remaining = 5, period = 5, canceled = False, action = x\<rparr>]"
    by (simp add: Suc.prems timers_refresh_def fun_eq_iff)
  moreover have "timers_tick [888 \<mapsto> \<lparr>remaining = 5, period = 5, canceled = False, action = x\<rparr>]
      = [888 \<mapsto> \<lparr>remaining = 4, period = 5, canceled = False, action = x\<rparr>]" by (auto simp: timers_tick_def fun_eq_iff)
  moreover have "timers_due [888 \<mapsto> \<lparr>remaining = 5, period = 5, canceled = False, action = x\<rparr>] = {}" by (simp add: timers_due_def)
  moreover have "never_due (concat (replicate k [Refresh 888, Tick]) @ Cancel 888 # replicate n Tick)
      [888 \<mapsto> \<lparr>remaining = 4, period = 5, canceled = False, action = x\<rparr>]" by (rule Suc.IH[OF refl])
  ultimately show ?case
    by (simp only: replicate_Suc concat.simps append.simps never_due.simps timers_step.simps) simp
qed

lemma first_run_eq:
  "wheel_wf w \<Longrightarrow> timers_ok_along ops (wheel_abs w) \<Longrightarrow> run_steps first_step ops w = run_steps wheel_step ops w"
proof (induction ops arbitrary: w)
  case (Cons op ops)
  from Cons.prems have ok: "timer_ok op (wheel_abs w)" by simp
  from wheel_step_simulates[OF Cons.prems(1) ok] obtain w' fs where
    w': "wheel_step op w = Inr (w', fs)" "wheel_wf w'" "timer_spec op (wheel_abs w) fs (wheel_abs w')" by blast
  have "timers_ok_along ops (wheel_abs w')" using Cons.prems(2) w'(3) by (simp add: timer_spec_def)
  with Cons.IH[OF w'(2)] w'(1) first_step_eq[OF Cons.prems(1), of op] show ?case by simp
qed simp

section \<open>Any of any.cc\<close>

text \<open>
  As in the library, but for the assignment from another Any: it is a template whose parameter no call
  can deduce, so the compiler's own copy assignment is taken, which copies the pointer.
\<close>

fun first_any_step :: "('t, 'v) any_op \<Rightarrow> ('t, 'v) any_store \<Rightarrow> fault + ('t, 'v) any_store" where
  "first_any_step (AnyEmpty x) s = Inr (any_set x None s)"
| "first_any_step (AnyValue x p) s = (let (c, s) = new_placeholder p s in Inr (any_set x c s))"
| "first_any_step (AnyCopy x y) s =
     and_then (any_var y s) (\<lambda>c. and_then (any_clone c s) (\<lambda>(c', s). Inr (any_set x c' s)))"
| "first_any_step (AnyDestroy x) s =
     and_then (any_var x s) (\<lambda>c. and_then (any_delete c s) (\<lambda>s.
       Inr (s\<lparr>any_vars := (any_vars s)(x := None)\<rparr>)))"
| "first_any_step (AnySwap x y) s =
     and_then (any_var x s) (\<lambda>c. and_then (any_var y s) (\<lambda>d.
       Inr (any_set y c (any_set x d s))))"
| "first_any_step (AnyAssignValue x p) s =
     and_then (any_var x s) (\<lambda>old. let (tmp, s) = new_placeholder p s in
       any_delete old (any_set x tmp s))"
| "first_any_step (AnyAssignAny x y) s =
     and_then (any_var y s) (\<lambda>c. and_then (any_var x s) (\<lambda>_. Inr (any_set x c s)))"
| "first_any_step (AnyGetWrite x t v) s =
     and_then (any_var x s) (\<lambda>c. and_then (any_get t c s) (\<lambda>a.
       Inr (s\<lparr>cells := (cells s)(a \<mapsto> (t, v))\<rparr>)))"

fun first_any_run :: "('t, 'v) any_op list \<Rightarrow> ('t, 'v) any_store \<Rightarrow> fault + ('t, 'v) any_store" where
  "first_any_run [] s = Inr s"
| "first_any_run (op # ops) s = and_then (first_any_step op s) (first_any_run ops)"

fun library_any_run :: "('t, 'v) any_op list \<Rightarrow> ('t, 'v) any_store \<Rightarrow> fault + ('t, 'v) any_store" where
  "library_any_run [] s = Inr s"
| "library_any_run (op # ops) s = and_then (any_step op s) (library_any_run ops)"

fun assigns_any :: "('t, 'v) any_op \<Rightarrow> bool" where
  "assigns_any (AnyAssignAny x y) \<longleftrightarrow> True"
| "assigns_any _ \<longleftrightarrow> False"

text \<open>
  main1: an int, a string and a Test assigned one after the other, each read through \<open>get\<close>, and the
  variable destroyed at the end; the types are numbered 0, 1 and 2.
\<close>

definition any_main1 :: "'v \<Rightarrow> 'v \<Rightarrow> 'v \<Rightarrow> fault + (nat, 'v) any_store" where
  "any_main1 i str test =
     and_then (first_any_run [AnyEmpty 0, AnyAssignValue 0 (0, i)] any_init) (\<lambda>s.
     and_then (any_var 0 s) (\<lambda>c. and_then (any_get 0 c s) (\<lambda>_.
     and_then (first_any_step (AnyAssignValue 0 (1, str)) s) (\<lambda>s.
     and_then (any_var 0 s) (\<lambda>c. and_then (any_get 1 c s) (\<lambda>_.
     and_then (first_any_step (AnyAssignValue 0 (2, test)) s) (\<lambda>s.
     and_then (any_var 0 s) (\<lambda>c. and_then (any_get 2 c s) (\<lambda>_.
       first_any_step (AnyDestroy 0) s)))))))))"

lemma any_main1_frees: "\<exists>s. any_main1 i str test = Inr s \<and> (\<forall>a. cells s a = None)"
  by (simp add: any_main1_def any_init_def any_set_def any_var_def any_get_def any_delete_def new_placeholder_def Let_def)

lemma first_any_step_eq: "\<not> assigns_any op \<Longrightarrow> first_any_step op s = any_step op s"
  by (cases op) simp_all

lemma first_any_run_eq: "list_all (\<lambda>op. \<not> assigns_any op) ops \<Longrightarrow> first_any_run ops s = library_any_run ops s"
proof (induction ops arbitrary: s)
  case (Cons op ops)
  then show ?case by (cases "any_step op s") (simp_all add: first_any_step_eq)
qed simp

section \<open>Properties\<close>

text \<open>
  The first versions against the library's.  Over any run that adds timers under fresh ids with delays
  the library can hold, the wheel of timewheel.cc does step for step what the library's does; in its main
  the refreshed and then cancelled task is never run, however long the wheel turns, so the object it
  should delete is never deleted.  Any of any.cc does what the library's does in every program
  without an assignment between Anys.
\<close>

theorem first_versions_equivalent:
  fixes anys :: "('t, 'v) any_op list"
  assumes "timers_ok_along ops (\<lambda>_. None)" and "list_all (\<lambda>op. \<not> assigns_any op) anys"
  shows "run_steps first_step ops TimerWheel_new = run_steps wheel_step ops TimerWheel_new
   \<and> (\<exists>w outs. run_steps first_step ops TimerWheel_new = Inr (w, outs) \<and> wheel_abs w = fold timers_step ops (\<lambda>_. None))
   \<and> (\<exists>w outs. run_steps first_step (timewheel_main DelTest n) TimerWheel_new = Inr (w, outs) \<and> concat outs = [])
   \<and> first_any_run anys s = library_any_run anys s"
proof (intro conjI)
  have abs: "wheel_abs TimerWheel_new = (\<lambda>_. None)" by (simp add: wheel_abs_def TimerWheel_new_def fun_eq_iff)
  show "run_steps first_step ops TimerWheel_new = run_steps wheel_step ops TimerWheel_new"
    using first_run_eq[OF wheel_wf_new] assms(1) by (simp add: abs)
  show "\<exists>w outs. run_steps first_step ops TimerWheel_new = Inr (w, outs) \<and> wheel_abs w = fold timers_step ops (\<lambda>_. None)"
    using first_timers.run_simulates[OF wheel_wf_new timers_ok_along[of ops "wheel_abs TimerWheel_new"]] assms(1)
      timer_spec_run[of ops] by (auto simp: abs)
  show "first_any_run anys s = library_any_run anys s" by (rule first_any_run_eq[OF assms(2)])
  have along: "timers_ok_along (concat (replicate k [Refresh 888, Tick]) @ Cancel 888 # replicate n Tick) m" for k and m :: "'c timers"
  proof (induction k arbitrary: m)
    case 0
    have "timers_ok_along (replicate n Tick) m" for m :: "'c timers" by (induction n arbitrary: m) (simp_all add: timer_ok_def)
    then show ?case by (simp add: timer_ok_def)
  qed (simp add: timer_ok_def)
  have "timers_ok_along (timewheel_main DelTest n) (\<lambda>_. None)"
    using along by (simp only: timewheel_main_def timers_ok_along.simps) (simp add: timer_ok_def)
  with first_timers.run_simulates[OF wheel_wf_new timers_ok_along[of "timewheel_main DelTest n" "wheel_abs TimerWheel_new"]]
  obtain w outs where w: "run_steps first_step (timewheel_main DelTest n) TimerWheel_new = Inr (w, outs)"
    "spec_run timer_spec (timewheel_main DelTest n) (\<lambda>_. None) outs (wheel_abs w)" by (auto simp: abs)
  have "timers_add 888 (unat (5 :: u32)) DelTest (\<lambda>_. None) = [888 \<mapsto> \<lparr>remaining = 5, period = 5, canceled = False, action = DelTest\<rparr>]"
    by (simp add: timers_add_def eff_delay_range)
  from refreshed_never_due[OF this, of 5 n] have "never_due (timewheel_main DelTest n) (\<lambda>_. None)"
    by (simp only: timewheel_main_def never_due.simps timers_step.simps) simp
  from never_due_silent[OF w(2) this] w(1)
  show "\<exists>w outs. run_steps first_step (timewheel_main DelTest n) TimerWheel_new = Inr (w, outs) \<and> concat outs = []" by blast
qed

theorem first_versions_equivalent_witness:
  "run_steps first_step [Add 1 2 ''x'', Tick, Refresh 1, Tick, Tick] TimerWheel_new = wheel_run [Add 1 2 ''x'', Tick, Refresh 1, Tick, Tick] TimerWheel_new
   \<and> first_any_run [AnyValue 0 (1 :: nat, ''v''), AnyCopy 1 0, AnyDestroy 0] any_init = library_any_run [AnyValue 0 (1, ''v''), AnyCopy 1 0, AnyDestroy 0] any_init"
proof -
  have a: "timers_ok_along [Add 1 2 ''x'', Tick, Refresh 1, Tick, Tick] (\<lambda>_. None)" by (simp add: timer_ok_def)
  have b: "list_all (\<lambda>op. \<not> assigns_any op) [AnyValue 0 (1 :: nat, ''v''), AnyCopy 1 0, AnyDestroy 0]" by simp
  note both = first_versions_equivalent[OF a b, of _ _ any_init]
  show ?thesis using both[THEN conjunct1] both[THEN conjunct2, THEN conjunct2, THEN conjunct2] by (rule conjI)
qed

text \<open>
  The assignment between Anys: after \<open>b = a\<close> the two of any.cc share one cell, and the second destructor
  deletes it again; the library's own theirs.
\<close>

theorem first_any_double_delete:
  "first_any_run [AnyValue 0 p, AnyEmpty 1, AnyAssignAny 1 0, AnyDestroy 1, AnyDestroy 0] any_init = Inl UseAfterFree"
  "\<exists>s. library_any_run [AnyValue 0 p, AnyEmpty 1, AnyAssignAny 1 0, AnyDestroy 1, AnyDestroy 0] any_init = Inr s \<and> (\<forall>a. cells s a = None)"
  by (simp_all add: any_init_def any_set_def any_var_def any_clone_def any_delete_def new_placeholder_def Let_def)

end
