(* ===== verification/LoopTimers.thy ===== *)
theory LoopTimers
  imports TimerWheel EventLoopModel
begin

text \<open>
  The timer operations any thread may call, of TimerWheel and EventLoop in source/server.hpp: each is
  handed to RunInLoop, so the wheel is only touched by its loop's thread, at once or as a queued
  task.  The queued closures are the wheel's operations.
\<close>

section \<open>State and operations\<close>

text \<open>The loop's queue with its wheel; \<open>fired\<close> are the callbacks of the timers that ran.\<close>

record 'c timed_loop = "'c timer_op event_loop" +
  loop_timers :: "'c wheel"
  fired :: "'c list"

definition run_timer_op :: "'c timer_op \<Rightarrow> 'c timed_loop \<Rightarrow> fault + 'c timed_loop" where
  "run_timer_op op l = and_then (wheel_step op (loop_timers l)) (\<lambda>(w, fs).
     Inr (l\<lparr>loop_timers := w, fired := fired l @ fs\<rparr>))"

definition Wheel_TimerAdd :: "bool \<Rightarrow> u64 \<Rightarrow> u32 \<Rightarrow> 'c \<Rightarrow> 'c timed_loop \<Rightarrow> fault + 'c timed_loop" where
  "Wheel_TimerAdd in_loop i delay cb l = RunInLoop run_timer_op in_loop (Add i delay cb) l"

definition Wheel_TimerRefresh :: "bool \<Rightarrow> u64 \<Rightarrow> 'c timed_loop \<Rightarrow> fault + 'c timed_loop" where
  "Wheel_TimerRefresh in_loop i l = RunInLoop run_timer_op in_loop (Refresh i) l"

definition Wheel_TimerCancel :: "bool \<Rightarrow> u64 \<Rightarrow> 'c timed_loop \<Rightarrow> fault + 'c timed_loop" where
  "Wheel_TimerCancel in_loop i l = RunInLoop run_timer_op in_loop (Cancel i) l"

text \<open>EventLoop passes them on.  HasTimer reads the wheel from whatever thread calls it.\<close>

definition Loop_TimerAdd :: "bool \<Rightarrow> u64 \<Rightarrow> u32 \<Rightarrow> 'c \<Rightarrow> 'c timed_loop \<Rightarrow> fault + 'c timed_loop" where
  "Loop_TimerAdd = Wheel_TimerAdd"

definition Loop_TimerRefresh :: "bool \<Rightarrow> u64 \<Rightarrow> 'c timed_loop \<Rightarrow> fault + 'c timed_loop" where
  "Loop_TimerRefresh = Wheel_TimerRefresh"

definition Loop_TimerCancel :: "bool \<Rightarrow> u64 \<Rightarrow> 'c timed_loop \<Rightarrow> fault + 'c timed_loop" where
  "Loop_TimerCancel = Wheel_TimerCancel"

definition Loop_HasTimer :: "u64 \<Rightarrow> 'c timed_loop \<Rightarrow> bool" where
  "Loop_HasTimer i l = HasTimer i (loop_timers l)"

text \<open>The wheel's own read handler, with the count read from the timerfd.\<close>

definition Wheel_OnTime :: "fd_answer \<Rightarrow> u64 \<Rightarrow> 'c timed_loop \<Rightarrow> fault + 'c timed_loop" where
  "Wheel_OnTime ans expired l =
     and_then (ReadTimefd ans expired) (\<lambda>times.
     and_then (run_timer_tasks (nat times) (loop_timers l)) (\<lambda>(w, fs).
       Inr (l\<lparr>loop_timers := w, fired := fired l @ fs\<rparr>)))"

text \<open>What threads ask for: an operation, and whether the asking thread is the loop's.\<close>

fun timer_request :: "bool \<times> 'c timer_op \<Rightarrow> 'c timed_loop \<Rightarrow> fault + 'c timed_loop" where
  "timer_request (in_loop, Add i d cb) l = Loop_TimerAdd in_loop i d cb l"
| "timer_request (in_loop, Refresh i) l = Loop_TimerRefresh in_loop i l"
| "timer_request (in_loop, Cancel i) l = Loop_TimerCancel in_loop i l"
| "timer_request (in_loop, Tick) l = Inr l"

section \<open>Lemmas\<close>

lemmas loop_timer_defs = Loop_TimerAdd_def Loop_TimerRefresh_def Loop_TimerCancel_def
  Wheel_TimerAdd_def Wheel_TimerRefresh_def Wheel_TimerCancel_def

lemma request_runs: "op \<noteq> Tick \<Longrightarrow> timer_request (b, op) l = RunInLoop run_timer_op b op l"
  by (cases op) (simp_all add: loop_timer_defs)

lemma requests_queue:
  "Tick \<notin> set ops \<Longrightarrow> run_tasks timer_request (map (Pair False) ops) l
     = Inr (l\<lparr>el_tasks := el_tasks l @ ops, wakes := wakes l + length ops\<rparr>)"
proof (induction ops arbitrary: l)
  case (Cons op ops)
  have "timer_request (False, op) l = Inr (QueueInLoop op l)" using Cons.prems by (subst request_runs) (auto simp: RunInLoop_def)
  with Cons.IH[of "QueueInLoop op l"] Cons.prems show ?case by (simp add: QueueInLoop_def)
qed simp

lemma run_timer_ops:
  "run_tasks run_timer_op ops l = and_then (run_steps wheel_step ops (loop_timers l)) (\<lambda>(w, fs).
     Inr (l\<lparr>loop_timers := w, fired := fired l @ concat fs\<rparr>))"
proof (induction ops arbitrary: l)
  case (Cons op ops)
  show ?case
  proof (cases "wheel_step op (loop_timers l)")
    case (Inr r)
    obtain w fs where r: "r = (w, fs)" by force
    from Cons.IH[of "l\<lparr>loop_timers := w, fired := fired l @ fs\<rparr>"] show ?thesis
      by (cases "run_steps wheel_step ops w") (auto simp: run_timer_op_def Inr r)
  qed (simp add: run_timer_op_def)
qed simp

lemma quiet_without_tick: "spec_run timer_spec ops m outs m' \<Longrightarrow> Tick \<notin> set ops \<Longrightarrow> concat outs = []"
proof (induction ops arbitrary: m outs)
  case (Cons op ops)
  then show ?case by (cases op) (auto simp: spec_run_Cons timer_spec_def)
qed (simp add: spec_run_Nil)

section \<open>Properties\<close>

text \<open>
  C31. Timer requests of other threads.  Requests to add, refresh and cancel timers from outside the loop
  change nothing but the queue, and wake the loop once each; when the loop runs its tasks they take
  effect in the order of the requests, as the abstract timers have it, no timer fires meanwhile, and
  the queue is empty.  The same requests from inside the loop have the same effect on the timers at once.
\<close>

theorem timer_requests_take_effect:
  assumes "wheel_wf (loop_timers l)" and "timers_ok_along ops (wheel_abs (loop_timers l))" and "Tick \<notin> set ops"
    and "el_tasks l = []"
  shows "\<exists>q t u. run_tasks timer_request (map (Pair False) ops) l = Inr q
     \<and> loop_timers q = loop_timers l \<and> el_tasks q = ops \<and> wakes q = wakes l + length ops
     \<and> RunAllTask run_timer_op q = Inr t \<and> el_tasks t = [] \<and> fired t = fired l \<and> wheel_wf (loop_timers t)
     \<and> wheel_abs (loop_timers t) = fold timers_step ops (wheel_abs (loop_timers l))
     \<and> run_tasks timer_request (map (Pair True) ops) l = Inr u \<and> loop_timers u = loop_timers t \<and> el_tasks u = [] \<and> wakes u = wakes l"
proof -
  let ?q = "l\<lparr>el_tasks := ops, wakes := wakes l + length ops\<rparr>"
  have q: "run_tasks timer_request (map (Pair False) ops) l = Inr ?q" using requests_queue[OF assms(3), of l] assms(4) by simp
  from wheel_timers.run_simulates[OF assms(1) timers_ok_along[OF assms(2)]] obtain w outs where
    w: "wheel_run ops (loop_timers l) = Inr (w, outs)" "wheel_wf w" "spec_run timer_spec ops (wheel_abs (loop_timers l)) outs (wheel_abs w)"
    by blast
  note abs = timer_spec_run[OF w(3)] and quiet = quiet_without_tick[OF w(3) assms(3)]
  have run: "RunAllTask run_timer_op ?q = Inr (?q\<lparr>el_tasks := [], loop_timers := w\<rparr>)"
    using run_timer_ops[of ops "?q\<lparr>el_tasks := []\<rparr>"] w(1) quiet by (simp add: RunAllTask_def)
  have "run_tasks timer_request (map (Pair True) ops) l' = run_tasks run_timer_op ops l'" for l' :: "'a timed_loop"
    using assms(3)
  proof (induction ops arbitrary: l')
    case (Cons op ops)
    have "timer_request (True, op) l' = run_timer_op op l'" using Cons.prems by (subst request_runs) (auto simp: RunInLoop_def)
    with Cons show ?case by (cases "run_timer_op op l'") simp_all
  qed simp
  then have "run_tasks timer_request (map (Pair True) ops) l = Inr (l\<lparr>loop_timers := w\<rparr>)"
    using run_timer_ops[of ops l] w(1) quiet by simp
  with q run w(2) abs assms(4) show ?thesis
    by (intro exI[of _ ?q] exI[of _ "?q\<lparr>el_tasks := [], loop_timers := w\<rparr>"] exI[of _ "l\<lparr>loop_timers := w\<rparr>"]) simp
qed

definition idle_loop :: "nat timed_loop" where
  "idle_loop = \<lparr>el_tasks = [], wakes = 0, loop_timers = TimerWheel_new, fired = []\<rparr>"

theorem timer_requests_take_effect_witness:
  "\<exists>q t. run_tasks timer_request [(False, Add 1 10 7), (False, Refresh 1), (False, Cancel 1)] idle_loop = Inr q
     \<and> wakes q = 3 \<and> RunAllTask run_timer_op q = Inr t \<and> fired t = [] \<and> Loop_HasTimer 1 t"
proof -
  have abs: "wheel_abs TimerWheel_new = (\<lambda>_. None)" by (simp add: wheel_abs_def TimerWheel_new_def fun_eq_iff)
  have "timers_ok_along [Add 1 10 7, Refresh 1, Cancel 1] (wheel_abs (loop_timers idle_loop))"
    by (simp add: idle_loop_def abs timer_ok_def)
  from timer_requests_take_effect[OF _ this] obtain q t where
    t: "run_tasks timer_request (map (Pair False) [Add 1 10 7, Refresh 1, Cancel 1]) idle_loop = Inr q" "wakes q = wakes idle_loop + 3"
      "RunAllTask run_timer_op q = Inr t" "fired t = fired idle_loop" "wheel_wf (loop_timers t)"
      "wheel_abs (loop_timers t) = fold timers_step [Add 1 10 7, Refresh 1, Cancel 1] (wheel_abs (loop_timers idle_loop))"
    by (auto simp: idle_loop_def wheel_wf_new)
  have "wheel_abs (loop_timers t) 1 \<noteq> None"
    by (simp add: t(6) timers_defs)
  then have "Loop_HasTimer 1 t" by (simp add: Loop_HasTimer_def HasTimer_abs[OF t(5)])
  with t show ?thesis by (simp add: idle_loop_def)
qed

text \<open>OnTime is the wheel's ticks, with what they fire.\<close>

lemma Wheel_OnTime_ok: "Wheel_OnTime Fd_ok expired l = and_then (OnTime expired (loop_timers l)) (\<lambda>(w, fs).
    Inr (l\<lparr>loop_timers := w, fired := fired l @ fs\<rparr>))"
  by (simp add: Wheel_OnTime_def ReadTimefd_def OnTime_def)

end
