(* ===== verification/ServerLog.thy ===== *)
theory ServerLog
  imports ConnectionModel DecimalText
begin

text \<open>
  The log macros of source/server.hpp and its static object of class NetWork, which has the process
  ignore SIGPIPE.
\<close>

section \<open>The log macros\<close>

definition LEVEL_INF :: int where "LEVEL_INF = 0"
definition LEVEL_DBG :: int where "LEVEL_DBG = 1"
definition LEVEL_ERR :: int where "LEVEL_ERR = 2"
definition LOG_LEVEL :: int where "LOG_LEVEL = LEVEL_DBG"

text \<open>
  What LOG prints: \<open>thread\<close> is pthread_self() as \<open>%p\<close> prints it, \<open>clock\<close> what strftime makes of the time, of
  which \<open>tmp\<close> takes 31 characters only if all of them fit, \<open>msg\<close> the formatted arguments.
\<close>

definition log_line :: "int \<Rightarrow> string \<Rightarrow> string \<Rightarrow> string \<Rightarrow> int \<Rightarrow> string \<Rightarrow> string" where
  "log_line level thread clock file line msg =
     (if level < LOG_LEVEL then []
      else let tmp = (if length clock < 31 then clock else []) in
        ''['' @ thread @ '' '' @ tmp @ '' '' @ file @ '':'' @ to_string line @ ''] '' @ msg @ [CHR 0x0A])"

definition INF_LOG :: "string \<Rightarrow> string \<Rightarrow> string \<Rightarrow> int \<Rightarrow> string \<Rightarrow> string" where
  "INF_LOG = log_line LEVEL_INF"

definition DBG_LOG :: "string \<Rightarrow> string \<Rightarrow> string \<Rightarrow> int \<Rightarrow> string \<Rightarrow> string" where
  "DBG_LOG = log_line LEVEL_DBG"

definition ERR_LOG :: "string \<Rightarrow> string \<Rightarrow> string \<Rightarrow> int \<Rightarrow> string \<Rightarrow> string" where
  "ERR_LOG = log_line LEVEL_ERR"

lemma to_string_no_newline: "CHR 0x0A \<notin> set (to_string n)"
proof -
  have "CHR 0x0A \<notin> set (decimal k)" for k
  proof
    assume "CHR 0x0A \<in> set (decimal k)"
    then have "isdigit CHR 0x0A" using decimal_digits[of k] by blast
    then show False by (simp add: isdigit_def)
  qed
  then show ?thesis by (simp add: to_string_def)
qed

text \<open>At the level set, INF_LOG prints nothing and the others one line per call.\<close>

theorem logged_lines:
  "INF_LOG thread clock file line msg = []"
  "CHR 0x0A \<notin> set (thread @ clock @ file @ msg) \<Longrightarrow>
   filter (\<lambda>c. c = CHR 0x0A) (DBG_LOG thread clock file line msg) = [CHR 0x0A]"
  "DBG_LOG thread clock file line msg = ERR_LOG thread clock file line msg"
proof -
  show "INF_LOG thread clock file line msg = []" by (simp add: INF_LOG_def log_line_def LEVEL_INF_def LOG_LEVEL_def LEVEL_DBG_def)
  show "DBG_LOG thread clock file line msg = ERR_LOG thread clock file line msg"
    by (simp add: DBG_LOG_def ERR_LOG_def log_line_def LEVEL_ERR_def LOG_LEVEL_def LEVEL_DBG_def)
  have none: "CHR 0x0A \<notin> set x \<Longrightarrow> filter (\<lambda>c. c = CHR 0x0A) x = []" for x :: string by (auto simp: filter_empty_conv)
  assume "CHR 0x0A \<notin> set (thread @ clock @ file @ msg)"
  moreover have "CHR 0x0A \<notin> set (to_string line)" by (rule to_string_no_newline)
  ultimately show "filter (\<lambda>c. c = CHR 0x0A) (DBG_LOG thread clock file line msg) = [CHR 0x0A]"
    by (simp add: DBG_LOG_def log_line_def LOG_LEVEL_def Let_def none)
qed

section \<open>SIGPIPE\<close>

datatype disposition = SIG_DFL | SIG_IGN

definition SIGPIPE :: nat where "SIGPIPE = 13"

text \<open>The constructor of \<open>nw\<close>, which runs before main; what a process does with each signal.\<close>

definition NetWork_new :: "(nat \<Rightarrow> disposition) \<Rightarrow> nat \<Rightarrow> disposition" where
  "NetWork_new signals = signals(SIGPIPE := SIG_IGN)"

text \<open>What send answers when the peer has gone, EPIPE, provided the process survives the signal.\<close>

definition broken_pipe :: "(nat \<Rightarrow> disposition) \<Rightarrow> send_answer option" where
  "broken_pipe signals = (if signals SIGPIPE = SIG_IGN then Some (\<lambda>n. (-1, Other_errno)) else None)"

text \<open>
  So writing to a connection whose peer has gone does not end the server: the unread input goes to
  the client once more and the connection's release is queued.
\<close>

theorem broken_pipe_releases:
  assumes "conn_inv P s" and "content (out_buffer s) \<noteq> []" and "content (in_buffer s) = []"
  shows "\<exists>ans. broken_pipe (NetWork_new signals) = Some ans \<and> HandleWrite call ans s = Inr (Release s)"
proof -
  note core = conn_invD[OF assms(1)]
  have "flush_input call s = Inr s"
    using pending_iff[OF conn_coreD(1)[OF core]] assms(3) by (simp add: flush_input_def)
  moreover have "send_result (\<lambda>n. (-1, Other_errno)) s < 0"
    using assms(2) by (simp add: send_result_def NonBlockSend_def Send_def)
  ultimately show ?thesis
    using HandleWrite_fails[OF core, of "\<lambda>n. (-1, Other_errno)" call] by (simp add: broken_pipe_def NetWork_new_def)
qed

end
