(* ===== verification/Experiments.thy ===== *)
theory Experiments
  imports RegexLine UrlUtil DecimalText
begin

text \<open>
  The small programs of Test/example that try out what the library then uses: a timerfd (timer.cc),
  queued closures (bind.cc), regular expressions (regex.cc, request.cc) and the file functions
  (test.cc).  What they print is a result.  The expression of request.cc became the library's, where it ignores
  case.
\<close>

section \<open>timer.cc\<close>

record itimerspec =
  it_value_sec :: nat
  it_value_nsec :: nat
  it_interval_sec :: nat
  it_interval_nsec :: nat

definition timer_itime :: itimerspec where
  "timer_itime = \<lparr>it_value_sec = 2, it_value_nsec = 0, it_interval_sec = 2, it_interval_nsec = 0\<rparr>"

text \<open>The counts printed, and the exit status once a read fails; each answer is the result and the count.\<close>

fun timer_loop :: "(int \<times> u64) list \<Rightarrow> u64 list \<times> int option" where
  "timer_loop [] = ([], None)"
| "timer_loop ((ret, expired) # rs) =
     (if ret < 0 then ([], Some (-1)) else let (out, st) = timer_loop rs in (expired # out, st))"

definition timer_main :: "int \<Rightarrow> (int \<times> u64) list \<Rightarrow> itimerspec option \<times> u64 list \<times> int option" where
  "timer_main timerfd reads =
     (if timerfd < 0 then (None, [], Some (-1)) else (Some timer_itime, timer_loop reads))"

section \<open>bind.cc\<close>

definition bind_Print :: "string \<Rightarrow> nat \<Rightarrow> string" where
  "bind_Print str num = str @ '' '' @ [char_of (48 + num)] @ [CHR 0x0A]"

definition bind_main :: string where
  "bind_main = (let arry = [] @ [\<lambda>_. bind_Print ''hello'' 1] @ [\<lambda>_. bind_Print ''haha'' 2] @ [\<lambda>_. bind_Print ''world'' 3] in
     concat (map (\<lambda>f. f ()) arry))"

section \<open>Regular expressions\<close>

text \<open>Without icase a literal is itself.\<close>

fun exact :: "string \<Rightarrow> rx" where
  "exact [] = Many (\<lambda>_. False)"
| "exact [c] = Cls (\<lambda>x. x = c)"
| "exact (c # cs) = Seq (Cls (\<lambda>x. x = c)) (exact cs)"

definition digits_rx :: rx where
  "digits_rx = Seq (exact ''/hello/'')
     (Group 1 (Seq (Cls isdigit) (Many isdigit)))"

text \<open>What the programs print: the whole match and the groups, those without a match empty.\<close>

definition print_matches :: "rx \<Rightarrow> nat list \<Rightarrow> string \<Rightarrow> int + string list" where
  "print_matches e groups s = (case regex_match e s of
     None \<Rightarrow> Inl 1
   | Some m \<Rightarrow> Inr (s # map (\<lambda>g. case m g of None \<Rightarrow> [] | Some w \<Rightarrow> w) groups))"

definition regex_main :: "int + string list" where
  "regex_main = (case print_matches digits_rx [1] ''/hello/1234'' of Inl _ \<Rightarrow> Inl (-1) | Inr out \<Rightarrow> Inr out)"

definition strict_line_rx :: rx where
  "strict_line_rx =
     Seq (Group 1 (Alt (exact ''GET'') (Alt (exact ''HEAD'') (Alt (exact ''POST'') (Alt (exact ''PUT'') (exact ''DELETE''))))))
    (Seq (exact '' '') (Seq (Group 2 (Many (\<lambda>c. c \<noteq> CHR ''?'')))
    (Seq (Opt (Seq (exact ''?'') (Group 3 (Many not_line_end)))) (Seq (exact '' '')
    (Seq (Group 4 (Seq (exact ''HTTP/1.'') (Cls (\<lambda>c. c = CHR ''0'' \<or> c = CHR ''1''))))
         (Opt (Alt (exact [CHR 0x0A]) (exact [CHR 0x0D, CHR 0x0A]))))))))"

definition request_main_text :: string where
  "request_main_text = ''GET /shilinnull/login?user=xiaoming&pass=123123 HTTP/1.1'' @ [CHR 0x0D, CHR 0x0A]"

definition request_main :: "int + string list" where
  "request_main = print_matches strict_line_rx [1, 2, 3, 4] request_main_text"

text \<open>An expression all of whose matches are matches of another, group by group.\<close>

definition within :: "rx \<Rightarrow> rx \<Rightarrow> bool" where
  "within a b \<longleftrightarrow> (\<forall>st. set (match_results a st) \<subseteq> set (match_results b st))"

lemma within_refl: "within a a"
  by (simp add: within_def)

lemma within_Cls: "(\<And>c. P c \<Longrightarrow> Q c) \<Longrightarrow> within (Cls P) (Cls Q)"
  by (auto simp: within_def split: list.splits)

lemma within_Seq: "within a a' \<Longrightarrow> within b b' \<Longrightarrow> within (Seq a b) (Seq a' b')"
  unfolding within_def subset_iff split_paired_All in_Seq by blast

lemma within_Alt: "within a a' \<Longrightarrow> within b b' \<Longrightarrow> within (Alt a b) (Alt a' b')"
  unfolding within_def subset_iff split_paired_All in_Alt by blast

lemma within_Opt: "within a a' \<Longrightarrow> within (Opt a) (Opt a')"
  by (auto simp: within_def)

lemma within_Group: "within a a' \<Longrightarrow> within (Group n a) (Group n a')"
  by (fastforce simp: within_def)

lemma within_lits: "within (exact w) (lits w)"
proof (induction w rule: exact.induct)
  case (2 c)
  show ?case unfolding exact.simps lits.simps lit_def by (rule within_Cls) simp
next
  case (3 c d w)
  have "within (Cls (\<lambda>x. x = c)) (lit c)" unfolding lit_def by (rule within_Cls) simp
  from within_Seq[OF this 3] show ?case by simp
qed (simp add: within_refl)

lemmas within_parts = within_Seq within_Alt within_Opt within_Group within_refl within_lits
  within_lits[of "[c]" for c, unfolded lits.simps]

lemma strict_within: "within strict_line_rx request_line_rx"
proof -
  have e: "within (exact [CHR 0x0D, CHR 0x0A]) (Seq (lit CHR 0x0D) (lit CHR 0x0A))"
    using within_lits[of "[CHR 0x0D, CHR 0x0A]"] by simp
  show ?thesis
    unfolding strict_line_rx_def request_line_rx_def method_rx_def query_rx_def version_rx_def line_end_rx_def
    by (intro within_parts e)
qed

text \<open>
  Whatever the first version matches, the library's request line matches with the same groups, since no
  text is a request line in two ways.
\<close>

theorem first_expression_agrees:
  assumes "regex_match strict_line_rx line = Some c"
  shows "regex_match request_line_rx line = Some c"
proof -
  from regex_match_Some[OF assms] strict_within have "([], c) \<in> set (match_results request_line_rx (line, \<lambda>_. None))"
    by (auto simp: within_def)
  then show ?thesis unfolding in_request_line regex_match_request_line .
qed

lemma lang_version_11: "lang version_rx ''HTTP/1.1''"
proof -
  have "map tolower ''HTTP/1.'' = ''http/1.''" by (simp add: tolower_def char_of_eq_iff)
  then show ?thesis
    unfolding lang_version by (intro exI[of _ "''HTTP/1.''"] exI[of _ "CHR ''1''"]) simp
qed

text \<open>Not the other way round: the library also takes methods in lower case.\<close>

theorem first_expression_is_stricter:
  "regex_match strict_line_rx ''get / HTTP/1.1'' = None" "regex_match request_line_rx ''get / HTTP/1.1'' \<noteq> None"
proof -
  show "regex_match strict_line_rx ''get / HTTP/1.1'' = None"
    by (simp add: regex_match_def strict_line_rx_def)
  have "lang method_rx ''get''" by (simp add: method_upper methods_def toupper_def char_of_eq_iff)
  then have "request_line_form ''get / HTTP/1.1'' ''get'' ''/'' None ''HTTP/1.1'' []"
    by (simp add: request_line_form_def lang_version_11)
  then show "regex_match request_line_rx ''get / HTTP/1.1'' \<noteq> None" using regex_match_request_line by blast
qed

text \<open>What the two programs print.\<close>

lemma regex_main_prints: "regex_main = Inr [''/hello/1234'', ''1234'']"
  by (simp add: regex_main_def print_matches_def regex_match_def digits_rx_def isdigit_def)

theorem request_main_prints:
  "request_main = Inr [request_main_text, ''GET'', ''/shilinnull/login'', ''user=xiaoming&pass=123123'', ''HTTP/1.1'']"
proof -
  have "regex_match strict_line_rx request_main_text \<noteq> None"
    by (simp add: regex_match_def strict_line_rx_def request_main_text_def not_line_end_def)
  then obtain c where c: "regex_match strict_line_rx request_main_text = Some c" by blast
  have "request_line_form request_main_text ''GET'' ''/shilinnull/login'' (Some ''user=xiaoming&pass=123123'') ''HTTP/1.1'' [CHR 0x0D, CHR 0x0A]"
    by (simp add: request_line_form_def request_main_text_def lang_method methods_def not_line_end_def lang_version_11)
  then have "regex_match request_line_rx request_main_text
      = Some (line_captures ''GET'' ''/shilinnull/login'' (Some ''user=xiaoming&pass=123123'') ''HTTP/1.1'')"
    using regex_match_request_line by blast
  with first_expression_agrees[OF c] have "c = line_captures ''GET'' ''/shilinnull/login'' (Some ''user=xiaoming&pass=123123'') ''HTTP/1.1''"
    by simp
  with c show ?thesis
    by (simp add: request_main_def print_matches_def line_captures_def)
qed

section \<open>test.cc\<close>

text \<open>A copy of the file makefile; an ofstream that does not open takes nothing.\<close>

definition copy_main :: "(string \<Rightarrow> bool) \<Rightarrow> file_system \<Rightarrow> file_system" where
  "copy_main can_write fs =
     (let s = snd (ReadFile fs ''makefile'' []) in snd (WriteFile can_write fs ''makefile1'' s))"

theorem copy_main_copies:
  assumes "fs ''makefile'' = Some (RegularFile d)" and "can_write ''makefile1''"
  shows "copy_main can_write fs ''makefile1'' = Some (RegularFile d)" "f \<noteq> ''makefile1'' \<Longrightarrow> copy_main can_write fs f = fs f"
  using assms by (simp_all add: copy_main_def ReadFile_def WriteFile_def)

end
