(* ===== verification/Spec2Isabelle.thy ===== *)
theory Spec2Isabelle
  imports ByteBuffer AnyHolder TimerWheel UrlUtil HttpContextModel SocketIO LoopPool ChannelPoller LoopTasks HttpConnections HttpRouting
    EventLoopModel LoopThreads MuduoBuffer MuduoPoller MuduoLoop MuduoThreads MuduoServer MuduoLog EchoService DemoServer
    TestClients WebBench FirstVersions LoopTimers ServerLog Experiments
begin

text \<open>
  A model of the C++ network servers of this repository and the proofs that go with it.

  The repository holds two implementations of the same design, one event loop per thread over
  epoll.  source/server.hpp is a complete TCP server library and source/http.hpp an HTTP server on top of it, with
  source/main.cc as its demonstration; src/ is a second, unfinished library that follows muduo more
  closely and stops before its TcpConnection.  Programs that go with them: the test clients of
  source/test, the servers and experiments of Test/, and the load generator WebBench.

  How the parts of the first library work together.  A TcpServer accepts connections in its base loop
  (Acceptor, Socket), gives each to a loop of the LoopThreadPool in turn and keeps it alive in a
  table until it is released.  Each EventLoop runs in its own thread: it waits in epoll_wait
  (Poller), runs the callbacks of the ready Channels, then the closures other threads have queued.
  A Connection reads into an input Buffer, calls the client's message callback, collects the answer
  in an output Buffer and sends it when the descriptor is writable; a TimerWheel releases
  connections that stay idle; an Any carries the client's state.  HttpServer is such a client: it
  keeps an HttpContext, the state of a request parser, in the connection's Any, and answers every
  complete request by a static file or a registered handler.
\<close>

section \<open>How the code is modelled\<close>

text \<open>
  Objects are records with the fields of the class, their member functions are functions on them
  under the same names; machine integers are words of their width, and conversions between them are
  written out.  A function that can fail returns \<open>fault + 'a\<close> (theory ServerPrelude): the faults are
  failed asserts, uncaught exceptions, null or dangling pointers and accesses outside an array.
  Where objects are shared or freed (TimerWheel, AnyHolder, MuduoBuffer's vectors) there is an explicit heap
  or array; elsewhere an object is a value and its lifetime a flag.

  Callbacks (std::function) are names, given a meaning by a parameter \<open>call\<close>; a closure queued in a
  loop is a constructor of a task type.  The kernel, the clock, the iteration order of an
  unordered_map and the file system are parameters, with what is documented of them as hypotheses
  where a theorem needs it: \<open>recv_ok\<close> and \<open>send_ok\<close> (recv and send move at most what they are asked
  to), \<open>makes_progress\<close>, \<open>ctl_apply\<close> (when epoll_ctl refuses a call).

  Code that runs in one thread is modelled by functions.  What several threads do is a step
  relation whose steps are the sections between two lock operations or system calls; properties are
  invariants of it or say what its steps can always reach.
\<close>

section \<open>Theories and code\<close>

text \<open>
  ServerPrelude: faults, \<open>and_then\<close>, vectors, lemmas on lists and words, and the two general contracts
  \<open>op_simulation\<close> (runs of operations simulate runs of a specification) and \<open>kept_by\<close> (a step
  relation keeps an invariant).  DecimalText: to_string and stol.

  source/server.hpp.
  ByteBuffer: Buffer.  AnyHolder: Any.  TimerWheel: TimerTask and TimerWheel, with the shared_ptrs of
  the slots as addresses.  SocketIO: Socket, as the system calls made and the results returned.
  ChannelPoller: Channel and Poller, with the calls of epoll_ctl so far as the ghost \<open>ctl_calls\<close>, from
  which \<open>interest\<close> computes the kernel's interest list.  LoopTasks: the task queue of EventLoop and
  its interleaving with posting threads (\<open>loop_step\<close>), in which every read, write and wait may be interrupted
  or abort; \<open>QueueInLoop\<close> is the push with a count of the wake-ups asked for, what the write then does is
  \<open>post_task\<close> of EventLoopModel and a step of its own in \<open>loop_step\<close>.  EventLoopModel: EventLoop as a whole, its
  constructor, descriptors and rounds.  LoopTimers: the timer operations any thread may call, through that queue.
  LoopThreads: LoopThread.  LoopPool: LoopThreadPool.
  ConnectionModel: Connection, its operations and the invariant \<open>conn_inv\<close>; ConnectionRuns: its runs;
  ConnectionStreams: what clients may claim of the bytes.  TcpServerModel: Acceptor and TcpServer.
  ServerLog: the log macros and NetWork.

  source/http.hpp.
  UrlUtil: Util and the tables.  HttpMessage: HttpRequest and HttpResponse.  RegexLine: the part of
  std::regex that is used, and the expression of the request line.  HttpContextModel: HttpContext.
  HttpServerModel: HttpServer.  HttpServing, HttpPipeline, HttpRouting, HttpStream and HttpConnections hold its
  proofs: progress and contract of the message callback, independence of the fuel, one request, the
  function \<open>serve\<close> from received bytes to submitted bytes that it implements, whole connections.

  Programs on the library.  DemoServer: source/main.cc, its server as Route sees it (\<open>demo_server\<close>) and with what
  PutFile does to the files (\<open>demo_request\<close>); the connections' theories take the files as they are.  EchoService: Test/echo/echo.hpp, Test/TestSource/server.cc and the
  client of the latter.  TestClients: source/test/client1.cc to client6.cc, as what they send, read and how long they sleep; their
  time is that of the connection's timer in \<open>timer_run\<close>.  WebBench:
  WebBench/webbench.c and socket.c.  FirstVersions: Test/example/timewheel.cc and any.cc, on the states of TimerWheel and
  AnyHolder.  Experiments: the other programs of Test/example.

  src/.
  MuduoBuffer: Buffer.  MuduoPoller: Channel, Poller, EPollPoller, DefaultPoller.  MuduoLoop: EventLoop, as
  operations and as a step relation with a clock (\<open>loop_thread\<close>, \<open>world_step\<close>), where testing quit_ and calling
  poll are two steps.  LoopThreads also
  has EventLoopThread.  MuduoThreads: Thread, CurrentThread, EventLoopThreadPool.  MuduoServer: InetAddress, Socket,
  Acceptor, TcpServer.  MuduoLog: Logger, Timestamp.
\<close>

section \<open>Interfaces\<close>

text \<open>
  Each contract between components is a locale, proved about once and interpreted on the code.
  \<open>byte_queue\<close> (a buffer is a first-in first-out queue of bytes) on both Buffers, its extension
  \<open>checked_byte_queue\<close> (taking too much is a failed assert) on the first only: the second returns
  stale bytes.  \<open>round_robin\<close> on both thread pools.  \<open>first_wins_map\<close> on the header and parameter
  maps.  \<open>op_simulation\<close> on the timer wheel and its first version, both pollers, the second Buffer and the server's table.
  \<open>kept_by\<close> on the thread hand-overs and on the second EventLoop.
  \<open>conn_client\<close> is what a Connection expects of its callbacks: they keep \<open>conn_inv\<close>, move the
  connection forward and fault only by a given set; from it follow safety and conservation of bytes for
  any run.  HttpServer's callbacks are an interpretation.  \<open>conn_stream\<close> extends it by two relations between
  the context and what is submitted, unread and received, one between callbacks and one when bytes have
  just arrived; the HTTP, the echo and the greeting server interpret it.
\<close>

section \<open>What is shown\<close>

text \<open>
  Containers.  Buffers, Any, the timer wheel and the maps do what an abstract value does, over any run
  of operations: no byte is lost, copies are deep, timers run at their delay unless cancelled or
  refreshed; the indices of the second Buffer stay inside its array.

  Event loops.  In the first library the kernel's interest list is exactly what the channels want.  In the
  second a channel's index says exactly whether the poller and the kernel know it, but the kernel may watch
  less than the channel wants (\<open>read_only_channel_dropped\<close>).  In both no epoll_ctl call is refused.
  Queued tasks run once and in order; a loop in epoll_wait with tasks has been woken, is about to be, or a
  wake-up was given up to a signal.  The second loop's functors run within two rounds, though only after the
  poll's time limit, since its wake-up descriptor is never watched; a quit ends it, after one more poll if it
  had just passed the test.  A thread's loop is
  handed over only while it runs.  Timer requests of other threads take effect in order.

  Connections.  Over any run of events, closures and timers: bytes submitted are bytes sent followed
  by bytes pending; pending output is watched by the kernel; a shut-down connection drains and is then
  released once; an idle one is released exactly at its delay, which the wheel takes modulo 60.  This is for the
  time from the acceptance to the release; a release removes the channel before it
  closes the descriptor.  The servers' tables have an entry exactly from acceptance to removal.

  HTTP.  The parser over the buffer is a parser over bytes, is indifferent to how the bytes arrive, inverts
  a printer, accepts exactly the request lines of its grammar and stops only by the exceptions named.
  Routing picks the static file, else the first matching handler, else 404; static files come from below
  the served directory unless the path has a \<open>.\<close> component; a response's text is read back by a client.
  A connection of the HTTP server is safe from its acceptance on, its message loop terminates, pipelined requests
  are answered in order.  \<open>http_answers_the_stream\<close> puts this together: over any run, what a connection submits is
  \<open>serve\<close> of all the bytes it has received, and \<open>serve\<close> does not depend on how they arrived.

  Programs.  A peer of the echo server gets back exactly its bytes; a file put into the demonstration
  server can be fetched.  The bytes the test clients put on the wire are given to main's server: each keep-alive request
  gets its page and keeps the connection's timer going, unless the client sleeps for longer than the timeout, as
  client2 does; the body client3 announces too long swallows the requests behind it and ends in status 400, an uploaded
  file is stored as it was.  The requests of WebBench are answered or, for its other methods, refused.  The first
  versions of TimerWheel and Any do what the library's do, but for one assignment of Any.

  Limits of the code that the proofs ran into are theorems too: among them \<open>dot_path_escapes\<close>,
  \<open>double_release_use_after_free\<close>, \<open>remove_connection_bounds\<close>, \<open>stale_errno_hides_close\<close>,
  \<open>negative_count_out_of_bounds\<close>, \<open>cancelled_then_enabled\<close>, \<open>shutdown_after_release\<close>,
  \<open>interrupted_wakeup_lost\<close>, \<open>start_loop_may_hang\<close>, \<open>retrieve_past_end\<close>, \<open>read_only_channel_dropped\<close>,
  \<open>wakeup_fd_not_watched\<close>, \<open>early_quit_forgotten\<close>, \<open>acceptor_ignores_reuseport\<close>, \<open>put_pattern_dot\<close>,
  \<open>closed_server_unnoticed\<close>, \<open>webbench_host_overflow\<close>, \<open>bench_returns_last_child\<close>, \<open>first_any_double_delete\<close>.
\<close>

section \<open>Bounds and fuel\<close>

text \<open>
  \<open>max_size\<close>, 2^63 - 1, is the largest size of a vector or string; beyond it std::length_error is
  thrown, which is a fault of the model, so size computations never wrap silently.  Ids of connections are read through an int,
  which is right below 2^31 (\<open>int_ids\<close>); delays of timers plus 60 must fit an int.  \<open>MAX_LINE\<close> and
  the 60 slots are the code's.

  OnMessage of HttpServer loops and calls itself through Shutdown; its fuel is one more than the number
  of unread bytes, which is enough because every round that goes on has taken a request off the buffer
  (\<open>message_loop_terminates\<close> states this without fuel).  The echo server's fuel is 1: the nested call never
  happens.  \<open>serve\<close> needs none: every round takes a request off the bytes.  Other loops are structural or have a measure; Split with an empty separator, which does not
  return, is None.  Endless loops (EventLoop::Start, EventLoop::loop) run for as many rounds as there
  are answers of epoll_wait.
\<close>

section \<open>Not modelled\<close>

text \<open>
  What is only printed, except by the log macros.  What the kernel does with
  a socket beyond the results of calls.  A read error of an opened file.  Regular expressions beyond
  those used.  Locks and the memory model below the granularity of the step relations.
  TcpConnection and Callbacks of src/, which the repository includes but does not have: MuduoServer
  takes the connection as a parameter and its calls as requests to a loop.  noncopyable.
  Of WebBench, getopt_long and the division of its sums by the running time.  Test/testmuduo, a client of the installed muduo, the main of any.cc on std::any,
  and the disabled code of Test/TestSource.
\<close>

end
